(* ===== verification/Prelude.thy ===== *)
theory Prelude
  imports Main "HOL-Library.Word"
begin

text \<open>
  What every theory of the development shares: the widths of the C integer types
  (kernel/types.h), the ways a kernel function can stop other than by returning
  (\<open>stop\<close>), the sequencing of fallible steps (\<open>rbind\<close>), bounds-checked access to C
  arrays, and the scan that the kernel's table loops perform (\<open>find_idx\<close>).

  The kernel is written in C with explicit error codes, \<open>panic\<close> and, implicitly,
  undefined behaviour. A model of a function that can stop returns \<open>stop + 'a\<close>: \<open>Inr\<close>
  is a return to the caller, \<open>Inl\<close> says why there was none. The error codes that the
  C function itself returns (\<open>0\<close>, \<open>-1\<close>) stay ordinary values on the \<open>Inr\<close> side.
\<close>

unbundle bit_operations_syntax

section \<open>C integer types\<close>

type_synonym u8 = "8 word"
type_synonym u16 = "16 word"
type_synonym u32 = "32 word"
type_synonym u64 = "64 word"

section \<open>Sleep channels\<close>

text \<open>
  The addresses that kernel code passes to \<open>sleep\<close> and \<open>wakeup\<close>: the address of a sleep
  lock, of a process, of a field of the log, of a pipe, of the console and so on. Distinct
  objects have distinct addresses; \<open>NoChan\<close> is the null pointer.
\<close>

datatype sleepid = BufLock nat | InodeLock nat

datatype chan =
    NoChan
  | ProcChan nat
  | SleepChan sleepid
  | LogChan
  | PipeReadChan nat
  | PipeWriteChan nat
  | ConsChan
  | UartChan
  | DiskFreeChan
  | BufChan nat
  | TicksChan

section \<open>Ways to stop\<close>

text \<open>
  \<open>Panic m\<close>: the code calls \<open>panic(m)\<close>, which prints and spins forever.
  \<open>Undef w\<close>: the C expression has no defined value (an index outside an array, a null
  pointer); \<open>w\<close> says where.
  \<open>Block c\<close>: the thread calls \<open>sleep\<close> on the channel \<open>c\<close> and does not return unless
  another thread wakes it.
  \<open>Hang\<close>: the code loops forever without sleeping.
\<close>

datatype stop = Panic string | Undef string | Block chan | Hang

type_synonym 'a res = "stop + 'a"

section \<open>Sequencing\<close>

definition rbind :: "'e + 'a \<Rightarrow> ('a \<Rightarrow> 'e + 'b) \<Rightarrow> 'e + 'b" where
  "rbind m f = (case m of Inl e \<Rightarrow> Inl e | Inr x \<Rightarrow> f x)"

lemma rbind_simps [simp]:
  "rbind (Inl e) f = Inl e"
  "rbind (Inr x) f = f x"
  by (simp_all add: rbind_def)

lemma rbind_Inr_iff:
  "rbind m f = Inr y \<longleftrightarrow> (\<exists>x. m = Inr x \<and> f x = Inr y)"
  by (cases m) auto

lemma rbind_Inl_iff:
  "rbind m f = Inl e \<longleftrightarrow> m = Inl e \<or> (\<exists>x. m = Inr x \<and> f x = Inl e)"
  by (cases m) auto

lemma rbind_InrE [elim!]:
  assumes "rbind m f = Inr y"
  obtains x where "m = Inr x" "f x = Inr y"
  using assms by (auto simp: rbind_Inr_iff)

lemma rbind_assoc: "rbind (rbind m f) g = rbind m (\<lambda>x. rbind (f x) g)"
  by (cases m) auto

lemma rbind_cong [fundef_cong]:
  "m = m' \<Longrightarrow> (\<And>x. m' = Inr x \<Longrightarrow> f x = g x) \<Longrightarrow> rbind m f = rbind m' g"
  by (cases m') auto

lemma rbind_split:
  "P (rbind m f) \<longleftrightarrow> (\<forall>e. m = Inl e \<longrightarrow> P (Inl e)) \<and> (\<forall>x. m = Inr x \<longrightarrow> P (f x))"
  by (cases m) auto

text \<open>\<open>check c e\<close>: the guard \<open>if(!c) panic(..)\<close> of the source.\<close>

definition check :: "bool \<Rightarrow> 'e \<Rightarrow> 'e + unit" where
  "check c e = (if c then Inr () else Inl e)"

lemma check_simps [simp]:
  "check True e = Inr ()"
  "check False e = Inl e"
  "check c e = Inr u \<longleftrightarrow> c"
  "check c e = Inl e' \<longleftrightarrow> \<not> c \<and> e' = e"
  by (auto simp: check_def)

section \<open>C arrays\<close>

text \<open>
  A C array is a list; the index is a C \<open>int\<close>, so it can be negative. Reading or
  writing outside the array is undefined behaviour.
\<close>

definition in_range :: "'a list \<Rightarrow> int \<Rightarrow> bool" where
  "in_range xs i \<longleftrightarrow> 0 \<le> i \<and> i < int (length xs)"

definition aget :: "'a list \<Rightarrow> int \<Rightarrow> 'a res" where
  "aget xs i = (if in_range xs i then Inr (xs ! nat i) else Inl (Undef ''array index''))"

definition aset :: "'a list \<Rightarrow> int \<Rightarrow> 'a \<Rightarrow> 'a list res" where
  "aset xs i x = (if in_range xs i then Inr (xs[nat i := x]) else Inl (Undef ''array index''))"

lemma aget_Inr [simp]: "in_range xs i \<Longrightarrow> aget xs i = Inr (xs ! nat i)"
  by (simp add: aget_def)

lemma aset_Inr [simp]: "in_range xs i \<Longrightarrow> aset xs i x = Inr (xs[nat i := x])"
  by (simp add: aset_def)

lemma aget_out [simp]: "\<not> in_range xs i \<Longrightarrow> aget xs i = Inl (Undef ''array index'')"
  by (simp add: aget_def)

lemma aset_out [simp]: "\<not> in_range xs i \<Longrightarrow> aset xs i x = Inl (Undef ''array index'')"
  by (simp add: aset_def)

lemma in_range_update [simp]: "in_range (xs[k := x]) i = in_range xs i"
  by (simp add: in_range_def)

lemma in_range_of_nat [simp]: "in_range xs (int k) \<longleftrightarrow> k < length xs"
  by (simp add: in_range_def)

lemma in_range_nat: "in_range xs i \<Longrightarrow> nat i < length xs"
  by (auto simp: in_range_def)

lemma not_in_range_neg [simp]: "\<not> in_range xs (-1)"
  by (simp add: in_range_def)

section \<open>Table scans\<close>

text \<open>
  \<open>for(p = tab; p < &tab[N]; p++) if(P(*p)) break;\<close>: the first index that satisfies
  \<open>P\<close>, or none.
\<close>

fun find_from :: "('a \<Rightarrow> bool) \<Rightarrow> nat \<Rightarrow> 'a list \<Rightarrow> nat option" where
  "find_from P k [] = None"
| "find_from P k (x # xs) = (if P x then Some k else find_from P (Suc k) xs)"

definition find_idx :: "('a \<Rightarrow> bool) \<Rightarrow> 'a list \<Rightarrow> nat option" where
  "find_idx P xs = find_from P 0 xs"

lemma find_from_Some:
  "find_from P k xs = Some i \<Longrightarrow>
     k \<le> i \<and> i < k + length xs \<and> P (xs ! (i - k)) \<and> (\<forall>j < i - k. \<not> P (xs ! j))"
proof (induction xs arbitrary: k)
  case Nil
  then show ?case by simp
next
  case (Cons x xs)
  show ?case
  proof (cases "P x")
    case True
    with Cons.prems show ?thesis by simp
  next
    case False
    with Cons.prems have "find_from P (Suc k) xs = Some i" by simp
    from Cons.IH [OF this] have *: "Suc k \<le> i" "i < Suc k + length xs"
        "P (xs ! (i - Suc k))" "\<forall>j < i - Suc k. \<not> P (xs ! j)"
      by auto
    then have "i - k = Suc (i - Suc k)" by simp
    with * False show ?thesis
      by (auto simp: less_Suc_eq_0_disj)
  qed
qed

lemma find_from_None: "find_from P k xs = None \<longleftrightarrow> (\<forall>x \<in> set xs. \<not> P x)"
  by (induction xs arbitrary: k) auto

lemma find_idx_Some:
  assumes "find_idx P xs = Some i"
  shows "i < length xs" "P (xs ! i)" "\<And>j. j < i \<Longrightarrow> \<not> P (xs ! j)"
  using find_from_Some [OF assms [unfolded find_idx_def]] by auto

lemma find_idx_None: "find_idx P xs = None \<longleftrightarrow> (\<forall>x \<in> set xs. \<not> P x)"
  by (simp add: find_idx_def find_from_None)

lemma find_idx_ex: "x \<in> set xs \<Longrightarrow> P x \<Longrightarrow> \<exists>i. find_idx P xs = Some i"
  using find_idx_None [of P xs] by (cases "find_idx P xs") auto

section \<open>Counted loops\<close>

text \<open>\<open>for_each f xs s\<close>: the body \<open>f\<close> for each element of \<open>xs\<close> in turn, stopping at the first stop.\<close>

fun for_each :: "('a \<Rightarrow> 's \<Rightarrow> 'e + 's) \<Rightarrow> 'a list \<Rightarrow> 's \<Rightarrow> 'e + 's" where
  "for_each f [] s = Inr s"
| "for_each f (x # xs) s = rbind (f x s) (for_each f xs)"

lemma for_each_append:
  "for_each f (xs @ ys) s = rbind (for_each f xs s) (for_each f ys)"
  by (induction xs arbitrary: s) (auto simp: rbind_assoc intro: rbind_cong)

lemma for_each_inv:
  assumes "for_each f xs s = Inr s'" "P s"
    and "\<And>x s s'. x \<in> set xs \<Longrightarrow> P s \<Longrightarrow> f x s = Inr s' \<Longrightarrow> P s'"
  shows "P s'"
  using assms by (induction xs arbitrary: s) auto

lemma for_each_total:
  assumes "P s" and "\<And>x s. x \<in> set xs \<Longrightarrow> P s \<Longrightarrow> \<exists>s'. f x s = Inr s' \<and> P s'"
  shows "\<exists>s'. for_each f xs s = Inr s' \<and> P s'"
  using assms
proof (induction xs arbitrary: s)
  case Nil
  then show ?case by simp
next
  case (Cons x xs)
  then obtain s1 where "f x s = Inr s1" "P s1" by fastforce
  with Cons.IH [of s1] Cons.prems(2) show ?case by auto
qed

section \<open>Total correctness of fallible code\<close>

text \<open>
  \<open>okres B r P\<close>: the result \<open>r\<close> is a return with a value that satisfies \<open>P\<close>, or one of the
  stops in \<open>B\<close>. With \<open>B = {}\<close> the code returns.
\<close>

definition okres :: "'e set \<Rightarrow> 'e + 'a \<Rightarrow> ('a \<Rightarrow> bool) \<Rightarrow> bool" where
  "okres B r P = (case r of Inl e \<Rightarrow> e \<in> B | Inr x \<Rightarrow> P x)"

lemma okres_simps [simp]:
  "okres B (Inr x) P = P x"
  "okres B (Inl e) P \<longleftrightarrow> e \<in> B"
  by (simp_all add: okres_def)

lemma okres_bind:
  assumes "okres B m P" "\<And>x. P x \<Longrightarrow> okres B (f x) Q"
  shows "okres B (rbind m f) Q"
  using assms by (cases m) auto

lemma okres_mono:
  assumes "okres B r P" "\<And>x. P x \<Longrightarrow> Q x" "B \<subseteq> B'"
  shows "okres B' r Q"
  using assms by (cases r) auto

lemma okres_InrD: "okres B r P \<Longrightarrow> r = Inr x \<Longrightarrow> P x"
  by simp

lemma okres_ex: "okres {} r P \<longleftrightarrow> (\<exists>x. r = Inr x \<and> P x)"
  by (cases r) auto

lemma okres_for_each:
  assumes "P xs s"
    and "\<And>y ys s. P (y # ys) s \<Longrightarrow> okres B (f y s) (P ys)"
  shows "okres B (for_each f xs s) (P [])"
  using assms(1)
proof (induction xs arbitrary: s)
  case Nil
  then show ?case by simp
next
  case (Cons x xs)
  show ?case
    by (simp, rule okres_bind [OF assms(2) [OF Cons.prems]], rule Cons.IH)
qed

section \<open>Lists and words\<close>

lemma nth_list_update_if:
  "i < length xs \<Longrightarrow> xs[k := x] ! i = (if i = k then x else xs ! i)"
  by (simp add: nth_list_update)

lemma remove1_Cons_same [simp]: "remove1 x (x # xs) = xs"
  by simp

lemma unat_of_nat_small: "n < 2 ^ LENGTH('a) \<Longrightarrow> unat (of_nat n :: 'a::len word) = n"
  by (simp add: unat_of_nat)

lemma unat_sub_le: "b \<le> a \<Longrightarrow> unat (a - b) = unat a - unat (b :: 'a::len word)"
  by (rule unat_sub)

lemma sint_u32: "sint (x :: u32) = (if uint x < 2 ^ 31 then uint x else uint x - 2 ^ 32)"
proof -
  have u: "0 \<le> uint x" "uint x < 2 ^ 32" using uint_lt2p [of x] by simp_all
  have s: "sint x = (uint x + 2 ^ 31) mod 2 ^ 32 - 2 ^ 31"
    by (simp add: sint_uint signed_take_bit_eq_take_bit_shift take_bit_eq_mod)
  show ?thesis
  proof (cases "uint x < 2 ^ 31")
    case True
    with u have "(uint x + 2 ^ 31) mod 2 ^ 32 = uint x + 2 ^ 31" by (intro mod_pos_pos_trivial) simp_all
    with s True show ?thesis by simp
  next
    case False
    have "(uint x + 2 ^ 31) mod 2 ^ 32 = (uint x + 2 ^ 31 - 2 ^ 32) mod 2 ^ 32" by (metis minus_mod_self2)
    also have "\<dots> = uint x + 2 ^ 31 - 2 ^ 32" using False u by (intro mod_pos_pos_trivial) simp_all
    finally show ?thesis using s False by simp
  qed
qed

lemma sint_small:
  assumes "unat (x :: u32) < 2 ^ 31"
  shows "sint x = int (unat x)"
proof -
  have "int (unat x) < int (2 ^ 31)" using assms by (simp only: of_nat_less_iff)
  then have "uint x < 2 ^ 31" by (simp only: uint_nat) simp
  then show ?thesis by (simp add: sint_u32)
qed

end
