(* ===== verification/Spinlock.thy ===== *)
theory Spinlock
  imports Prelude
begin

text \<open>
  kernel/spinlock.c. The state holds every spinlock (by an identity of type \<open>'l\<close>) and, per
  hart, the interrupt bookkeeping of \<open>struct cpu\<close> (\<open>noff\<close>, \<open>intena\<close>) with the hardware
  interrupt-enable bit \<open>sstatus.SIE\<close>.

  \<open>acquire\<close> and \<open>release\<close> are also split at their atomic memory accesses into the steps
  of an interleaving of all harts (\<open>lock_step\<close>), on which mutual exclusion is proved.
\<close>

section \<open>State\<close>

record spinlock =
  locked :: u32
  lname :: string
  lcpu :: "nat option"

record hart =
  noff :: int
  intena :: bool
  sie :: bool

record 'l lockst =
  locks :: "'l \<Rightarrow> spinlock"
  harts :: "nat \<Rightarrow> hart"

section \<open>Operations\<close>

definition initlock :: "'l \<Rightarrow> string \<Rightarrow> 'l lockst \<Rightarrow> 'l lockst" where
  "initlock lk nm s =
     s\<lparr>locks := (locks s)(lk := \<lparr>locked = 0, lname = nm, lcpu = None\<rparr>)\<rparr>"

definition holding :: "nat \<Rightarrow> 'l \<Rightarrow> 'l lockst \<Rightarrow> bool" where
  "holding c lk s \<longleftrightarrow> locked (locks s lk) \<noteq> 0 \<and> lcpu (locks s lk) = Some c"

text \<open>\<open>noff\<close> is a C \<open>int\<close>: incrementing its largest value is undefined.\<close>

definition push_off :: "nat \<Rightarrow> 'l lockst \<Rightarrow> 'l lockst res" where
  "push_off c s =
     (let old = sie (harts s c);
          h = (harts s c)\<lparr>sie := False\<rparr>;
          h = (if noff h = 0 then h\<lparr>intena := old\<rparr> else h)
      in if noff h \<ge> 2 ^ 31 - 1 then Inl (Undef ''signed overflow'')
         else Inr (s\<lparr>harts := (harts s)(c := h\<lparr>noff := noff h + 1\<rparr>)\<rparr>))"

definition pop_off :: "nat \<Rightarrow> 'l lockst \<Rightarrow> 'l lockst res" where
  "pop_off c s =
     (let h = harts s c in
      if sie h then Inl (Panic ''pop_off - interruptible'')
      else if noff h < 1 then Inl (Panic ''pop_off'')
      else
        let h = h\<lparr>noff := noff h - 1\<rparr>;
            h = (if noff h = 0 \<and> intena h then h\<lparr>sie := True\<rparr> else h)
        in Inr (s\<lparr>harts := (harts s)(c := h)\<rparr>))"

text \<open>\<open>__sync_lock_test_and_set(&lk->locked, 1)\<close>: atomically swap in 1, return the old value.\<close>

definition test_and_set :: "'l \<Rightarrow> 'l lockst \<Rightarrow> u32 \<times> 'l lockst" where
  "test_and_set lk s =
     (locked (locks s lk), s\<lparr>locks := (locks s)(lk := (locks s lk)\<lparr>locked := 1\<rparr>)\<rparr>)"

definition set_cpu :: "'l \<Rightarrow> nat option \<Rightarrow> 'l lockst \<Rightarrow> 'l lockst" where
  "set_cpu lk co s = s\<lparr>locks := (locks s)(lk := (locks s lk)\<lparr>lcpu := co\<rparr>)\<rparr>"

definition lock_release :: "'l \<Rightarrow> 'l lockst \<Rightarrow> 'l lockst" where
  "lock_release lk s = s\<lparr>locks := (locks s)(lk := (locks s lk)\<lparr>locked := 0\<rparr>)\<rparr>"

definition acquire_enter :: "nat \<Rightarrow> 'l \<Rightarrow> 'l lockst \<Rightarrow> 'l lockst res" where
  "acquire_enter c lk s =
     rbind (push_off c s) (\<lambda>s.
      if holding c lk s then Inl (Panic ''acquire'') else Inr s)"

text \<open>
  \<open>acquire\<close> run by one hart while no other hart moves: if the swap finds the lock taken,
  the loop spins for as long as the holder does not release it.
\<close>

definition acquire :: "nat \<Rightarrow> 'l \<Rightarrow> 'l lockst \<Rightarrow> 'l lockst res" where
  "acquire c lk s =
     rbind (acquire_enter c lk s) (\<lambda>s.
       case test_and_set lk s of (old, s) \<Rightarrow>
         if old \<noteq> 0 then Inl Hang else Inr (set_cpu lk (Some c) s))"

definition release :: "nat \<Rightarrow> 'l \<Rightarrow> 'l lockst \<Rightarrow> 'l lockst res" where
  "release c lk s =
     (if \<not> holding c lk s then Inl (Panic ''release'')
      else pop_off c (lock_release lk (set_cpu lk None s)))"

section \<open>Interrupt nesting\<close>

lemma push_off_hart:
  assumes "push_off c s = Inr s'"
  shows "noff (harts s' c) = noff (harts s c) + 1" "noff (harts s c) < 2 ^ 31 - 1"
    "\<not> sie (harts s' c)"
    "intena (harts s' c) = (if noff (harts s c) = 0 then sie (harts s c) else intena (harts s c))"
    "c' \<noteq> c \<Longrightarrow> harts s' c' = harts s c'"
    "locks s' = locks s"
  using assms by (auto simp: push_off_def Let_def split: if_splits)

lemma push_off_Inr:
  "noff (harts s c) < 2 ^ 31 - 1 \<Longrightarrow> \<exists>s'. push_off c s = Inr s'"
  by (simp add: push_off_def Let_def)

text \<open>
  A hart whose interrupts are on holds no nested \<open>push_off\<close>; the depth is an \<open>int\<close> that is
  never negative.
\<close>

definition hart_ok :: "hart \<Rightarrow> bool" where
  "hart_ok h \<longleftrightarrow> 0 \<le> noff h \<and> noff h < 2 ^ 31 \<and> (0 < noff h \<longrightarrow> \<not> sie h)"

lemma hart_ok_push_off:
  "hart_ok (harts s c) \<Longrightarrow> push_off c s = Inr s' \<Longrightarrow> hart_ok (harts s' c)"
  using push_off_hart [of c s s'] by (auto simp: hart_ok_def)

text \<open>
  \<open>push_n n\<close> and \<open>pop_n n\<close> are \<open>n\<close> calls in a row.
\<close>

fun push_n :: "nat \<Rightarrow> nat \<Rightarrow> 'l lockst \<Rightarrow> 'l lockst res" where
  "push_n c 0 s = Inr s"
| "push_n c (Suc n) s = rbind (push_off c s) (push_n c n)"

fun pop_n :: "nat \<Rightarrow> nat \<Rightarrow> 'l lockst \<Rightarrow> 'l lockst res" where
  "pop_n c 0 s = Inr s"
| "pop_n c (Suc n) s = rbind (pop_off c s) (pop_n c n)"

lemma pop_n_snoc: "pop_n c (Suc n) s = rbind (pop_n c n s) (pop_off c)"
proof (induction n arbitrary: s)
  case 0
  then show ?case by (cases "pop_off c s") auto
next
  case (Suc n)
  have "pop_n c (Suc (Suc n)) s = rbind (pop_off c s) (\<lambda>s. rbind (pop_n c n s) (pop_off c))"
    by (subst pop_n.simps) (simp add: Suc.IH cong: rbind_cong del: pop_n.simps)
  then show ?case by (simp add: rbind_assoc)
qed

text \<open>
  Pushes succeed as long as the depth fits an \<open>int\<close>; matching pops undo them: the interrupt
  state and the depth are what they were.
\<close>

lemma pop_push_n:
  assumes "hart_ok (harts s c)" "noff (harts s c) + int n < 2 ^ 31"
  shows "\<exists>t s'. push_n c n s = Inr t \<and> noff (harts t c) = noff (harts s c) + int n \<and>
           (sie (harts t c) \<longrightarrow> n = 0) \<and> pop_n c n t = Inr s' \<and>
           sie (harts s' c) = sie (harts s c) \<and> noff (harts s' c) = noff (harts s c) \<and>
           (0 < noff (harts s c) \<longrightarrow> intena (harts s' c) = intena (harts s c)) \<and>
           (\<forall>d. d \<noteq> c \<longrightarrow> harts s' d = harts s d) \<and> locks s' = locks s"
  using assms
proof (induction n arbitrary: s)
  case 0
  then show ?case by simp
next
  case (Suc n)
  obtain u where u: "push_off c s = Inr u" using push_off_Inr [of s c] Suc.prems(2) by auto
  note pu = push_off_hart [OF u]
  have "noff (harts u c) + int n < 2 ^ 31" using Suc.prems(2) pu by simp
  from Suc.IH [OF hart_ok_push_off [OF Suc.prems(1) u] this] obtain t t' where t':
      "push_n c n u = Inr t" "noff (harts t c) = noff (harts u c) + int n"
      "sie (harts t c) \<longrightarrow> n = 0" "pop_n c n t = Inr t'"
      "sie (harts t' c) = sie (harts u c)" "noff (harts t' c) = noff (harts u c)"
      "0 < noff (harts u c) \<longrightarrow> intena (harts t' c) = intena (harts u c)"
      "\<forall>d. d \<noteq> c \<longrightarrow> harts t' d = harts u d" "locks t' = locks u"
    by blast
  have off: "\<not> sie (harts t c)" using t'(1,3) pu(3) by (cases n) auto
  have h: "\<not> sie (harts t' c)" "noff (harts t' c) = noff (harts s c) + 1"
      "intena (harts t' c) =
         (if noff (harts s c) = 0 then sie (harts s c) else intena (harts s c))"
    using t' Suc.prems pu by (auto simp: hart_ok_def)
  obtain s' where "pop_off c t' = Inr s'" "sie (harts s' c) = sie (harts s c)"
      "noff (harts s' c) = noff (harts s c)"
      "0 < noff (harts s c) \<longrightarrow> intena (harts s' c) = intena (harts s c)"
      "\<forall>d. d \<noteq> c \<longrightarrow> harts s' d = harts s d" "locks s' = locks s"
    using h Suc.prems t'(8,9) pu by (auto simp: pop_off_def Let_def hart_ok_def)
  with t' u off pu(1) show ?case
    by (auto simp: pop_n_snoc simp del: pop_n.simps(2))
qed

lemma push_n_overflow:
  assumes "0 \<le> noff (harts s c)" "2 ^ 31 \<le> noff (harts s c) + int n" "noff (harts s c) < 2 ^ 31"
  shows "push_n c n s = Inl (Undef ''signed overflow'')"
  using assms
proof (induction n arbitrary: s)
  case 0
  then show ?case by simp
next
  case (Suc n)
  show ?case
  proof (cases "push_off c s")
    case (Inl e)
    then show ?thesis by (auto simp: push_off_def Let_def split: if_splits)
  next
    case (Inr u)
    note pu = push_off_hart [OF Inr]
    have "push_n c n u = Inl (Undef ''signed overflow'')"
      by (rule Suc.IH) (use Suc.prems pu in simp_all)
    with Inr show ?thesis by simp
  qed
qed

section \<open>acquire and release on one hart\<close>

lemma acquire_Inr:
  assumes "locked (locks s lk) = 0" "push_off c s = Inr s'"
  shows "acquire c lk s = Inr (set_cpu lk (Some c) (snd (test_and_set lk s')))"
  using assms push_off_hart(6) [OF assms(2)]
  by (simp add: acquire_def acquire_enter_def holding_def test_and_set_def)

lemma acquire_holding: "acquire c lk s = Inr s' \<Longrightarrow> holding c lk s'"
  by (auto simp: acquire_def holding_def test_and_set_def set_cpu_def split: if_splits)

lemma acquire_twice:
  assumes "holding c lk s" "push_off c s = Inr s'"
  shows "acquire c lk s = Inl (Panic ''acquire'')"
  using assms push_off_hart(6) [OF assms(2)] by (simp add: acquire_def acquire_enter_def holding_def)

lemma release_not_holding: "\<not> holding c lk s \<Longrightarrow> release c lk s = Inl (Panic ''release'')"
  by (simp add: release_def)

section \<open>The view of one hart\<close>

text \<open>
  The other components are modelled as run by one hart. Of a spinlock they see whether this
  hart holds it: a boolean in the record of the data structure that the lock protects, in
  the place of the C field \<open>struct spinlock lock\<close>. \<open>spin_acquire\<close> and \<open>spin_release\<close> are the
  two operations in this view; a lock held by another hart only makes the hart wait.
\<close>

definition spin_acquire :: "bool \<Rightarrow> bool res" where
  "spin_acquire held = (if held then Inl (Panic ''acquire'') else Inr True)"

definition spin_release :: "bool \<Rightarrow> bool res" where
  "spin_release held = (if held then Inr False else Inl (Panic ''release''))"

lemma spin_simps [simp]:
  "spin_acquire False = Inr True"
  "spin_acquire True = Inl (Panic ''acquire'')"
  "spin_release True = Inr False"
  "spin_release False = Inl (Panic ''release'')"
  "spin_acquire h = Inr h' \<longleftrightarrow> \<not> h \<and> h'"
  "spin_release h = Inr h' \<longleftrightarrow> h \<and> \<not> h'"
  by (auto simp: spin_acquire_def spin_release_def)

lemma spin_acquire_refines:
  assumes "locked (locks s lk) \<noteq> 0 \<longrightarrow> lcpu (locks s lk) = Some c" "noff (harts s c) < 2 ^ 31 - 1"
  shows "(case acquire c lk s of Inl e \<Rightarrow> Inl e | Inr s' \<Rightarrow> Inr (holding c lk s')) =
         spin_acquire (holding c lk s)"
proof -
  obtain t where t: "push_off c s = Inr t" using push_off_Inr [OF assms(2)] by blast
  show ?thesis
    using assms(1) acquire_twice [OF _ t, of lk] acquire_Inr [OF _ t, of lk]
    by (cases "locked (locks s lk) = 0") (simp_all add: holding_def set_cpu_def test_and_set_def)
qed

lemma spin_release_refines:
  assumes "\<not> sie (harts s c)" "1 \<le> noff (harts s c)"
  shows "(case release c lk s of Inl e \<Rightarrow> Inl e | Inr s' \<Rightarrow> Inr (holding c lk s')) =
         spin_release (holding c lk s)"
  using assms
  by (auto simp: release_def spin_release_def holding_def pop_off_def set_cpu_def
      lock_release_def Let_def)

section \<open>Interleaving of all harts on one lock\<close>

text \<open>
  Where a hart is in \<open>acquire\<close> or \<open>release\<close> of the lock: \<open>Spin\<close> in the swap loop, \<open>Got\<close>
  after the winning swap and before \<open>lk->cpu = mycpu()\<close>, \<open>Crit\<close> in the critical section,
  \<open>Cleared\<close> after \<open>lk->cpu = 0\<close>, \<open>Freed\<close> after the lock word was cleared and before
  \<open>pop_off\<close>.
\<close>

datatype pc = Out | Spin | Got | Crit | Cleared | Freed

type_synonym 'l sys = "(nat \<Rightarrow> pc) \<times> 'l lockst"

inductive lock_step :: "'l \<Rightarrow> 'l sys \<Rightarrow> 'l sys \<Rightarrow> bool" for lk :: 'l where
  enter: "pcs i = Out \<Longrightarrow> acquire_enter i lk s = Inr s' \<Longrightarrow>
     lock_step lk (pcs, s) (pcs(i := Spin), s')"
| spin: "pcs i = Spin \<Longrightarrow> test_and_set lk s = (old, s') \<Longrightarrow> old \<noteq> 0 \<Longrightarrow>
     lock_step lk (pcs, s) (pcs, s')"
| win: "pcs i = Spin \<Longrightarrow> test_and_set lk s = (0, s') \<Longrightarrow>
     lock_step lk (pcs, s) (pcs(i := Got), s')"
| record_cpu: "pcs i = Got \<Longrightarrow>
     lock_step lk (pcs, s) (pcs(i := Crit), set_cpu lk (Some i) s)"
| clear_cpu: "pcs i = Crit \<Longrightarrow> holding i lk s \<Longrightarrow>
     lock_step lk (pcs, s) (pcs(i := Cleared), set_cpu lk None s)"
| unlock: "pcs i = Cleared \<Longrightarrow>
     lock_step lk (pcs, s) (pcs(i := Freed), lock_release lk s)"
| leave: "pcs i = Freed \<Longrightarrow> pop_off i s = Inr s' \<Longrightarrow>
     lock_step lk (pcs, s) (pcs(i := Out), s')"

inductive_cases lock_stepE: "lock_step lk (pcs, s) t"

definition lock_start :: "'l \<Rightarrow> string \<Rightarrow> 'l lockst \<Rightarrow> 'l sys" where
  "lock_start lk nm s = ((\<lambda>_. Out), initlock lk nm s)"

inductive lock_reach :: "'l \<Rightarrow> 'l sys \<Rightarrow> bool" for lk :: 'l where
  start: "(\<And>c. hart_ok (harts s c)) \<Longrightarrow> lock_reach lk (lock_start lk nm s)"
| step: "lock_reach lk x \<Longrightarrow> lock_step lk x y \<Longrightarrow> lock_reach lk y"

definition owns :: "pc \<Rightarrow> bool" where
  "owns p \<longleftrightarrow> p = Got \<or> p = Crit \<or> p = Cleared"

definition in_acquire :: "pc \<Rightarrow> bool" where
  "in_acquire p \<longleftrightarrow> p \<noteq> Out"

fun lock_inv :: "'l \<Rightarrow> 'l sys \<Rightarrow> bool" where
  "lock_inv lk (pcs, s) \<longleftrightarrow>
     (\<forall>i j. owns (pcs i) \<longrightarrow> owns (pcs j) \<longrightarrow> i = j) \<and>
     (locked (locks s lk) \<noteq> 0 \<longleftrightarrow> (\<exists>i. owns (pcs i))) \<and>
     (\<forall>i. lcpu (locks s lk) = Some i \<longleftrightarrow> pcs i = Crit) \<and>
     (\<forall>i. hart_ok (harts s i)) \<and>
     (\<forall>i. in_acquire (pcs i) \<longrightarrow> 1 \<le> noff (harts s i))"

lemma owns_simps [simp]:
  "\<not> owns Out" "\<not> owns Spin" "owns Got" "owns Crit" "owns Cleared" "\<not> owns Freed"
  by (simp_all add: owns_def)

lemma lock_inv_unique: "lock_inv lk (pcs, s) \<Longrightarrow> owns (pcs i) \<Longrightarrow> owns (pcs j) \<Longrightarrow> i = j"
  by simp

lemma acquire_enter_Inr:
  "acquire_enter c lk s = Inr s' \<longleftrightarrow> push_off c s = Inr s' \<and> \<not> holding c lk s'"
  by (auto simp: acquire_enter_def rbind_Inr_iff split: if_splits)

lemma hart_ok_pop_off:
  assumes "pop_off c s = Inr s'"
  shows "hart_ok (harts s c) \<Longrightarrow> hart_ok (harts s' c)" "locks s' = locks s" "c' \<noteq> c \<Longrightarrow> harts s' c' = harts s c'"
  using assms by (auto simp: pop_off_def Let_def hart_ok_def split: if_splits)

lemma lock_inv_start: "(\<And>c. hart_ok (harts s c)) \<Longrightarrow> lock_inv lk (lock_start lk nm s)"
  by (simp add: lock_start_def initlock_def owns_def in_acquire_def)

lemma lock_inv_enter:
  assumes "lock_inv lk (pcs, s)" "pcs i = Out" "acquire_enter i lk s = Inr s'"
  shows "lock_inv lk (pcs(i := Spin), s')"
proof -
  have p: "push_off i s = Inr s'"
    using assms(3) by (simp add: acquire_enter_Inr)
  note pu = push_off_hart [OF p]
  have h: "hart_ok (harts s' j)" for j
    using assms(1) pu(5) hart_ok_push_off [OF _ p] by (cases "j = i") auto
  have n: "1 \<le> noff (harts s' j)" if "in_acquire ((pcs(i := Spin)) j)" for j
    using assms(1) that pu(1,5) by (cases "j = i") (auto simp: hart_ok_def)
  have pc: "owns ((pcs(i := Spin)) j) \<longleftrightarrow> owns (pcs j)" "(pcs(i := Spin)) j = Crit \<longleftrightarrow> pcs j = Crit" for j
    using assms(2) by (auto simp: owns_def)
  from assms(1) show ?thesis
    unfolding lock_inv.simps pc using h n by (auto simp: pu(6))
qed

lemma lock_inv_swap_cpu:
  assumes "lock_inv lk (pcs, s)" "pcs i = Got"
  shows "lock_inv lk (pcs(i := Crit), set_cpu lk (Some i) s)"
proof -
  have p: "owns ((pcs(i := Crit)) j) \<longleftrightarrow> owns (pcs j)" for j
    using assms(2) by (auto simp: owns_def)
  have c: "pcs j \<noteq> Crit" for j
    using assms(2) lock_inv_unique [OF assms(1), of i j] by auto
  show ?thesis
    unfolding lock_inv.simps p
    using assms c by (auto simp: set_cpu_def in_acquire_def)
qed

lemma lock_inv_clear_cpu:
  assumes "lock_inv lk (pcs, s)" "pcs i = Crit"
  shows "lock_inv lk (pcs(i := Cleared), set_cpu lk None s)"
proof -
  have p: "owns ((pcs(i := Cleared)) j) \<longleftrightarrow> owns (pcs j)" for j
    using assms(2) by (auto simp: owns_def)
  have c: "pcs j = Crit \<Longrightarrow> j = i" for j
    using assms(2) lock_inv_unique [OF assms(1), of j i] by auto
  show ?thesis
    unfolding lock_inv.simps p
    using assms c by (auto simp: set_cpu_def in_acquire_def)
qed

lemma lock_inv_unlock:
  assumes "lock_inv lk (pcs, s)" "pcs i = Cleared"
  shows "lock_inv lk (pcs(i := Freed), lock_release lk s)"
proof -
  have o: "\<not> owns (pcs j)" if "j \<noteq> i" for j
    using assms(2) that lock_inv_unique [OF assms(1), of j i] by auto
  have c: "pcs j \<noteq> Crit" for j
  proof
    assume c: "pcs j = Crit"
    then have "owns (pcs j)" by simp
    with o have "j = i" by blast
    with c assms(2) show False by simp
  qed
  have "\<not> owns ((pcs(i := Freed)) j)" for j
    using o by auto
  with assms c show ?thesis
    by (auto simp: lock_release_def in_acquire_def)
qed

lemma lock_inv_win:
  assumes "lock_inv lk (pcs, s)" "pcs i = Spin" "test_and_set lk s = (0, s')"
  shows "lock_inv lk (pcs(i := Got), s')"
proof -
  have "\<not> owns (pcs j)" for j
    using assms by (auto simp: test_and_set_def)
  then have "owns ((pcs(i := Got)) j) \<longleftrightarrow> j = i" "pcs j \<noteq> Crit" for j
    by (auto simp: owns_def)
  with assms show ?thesis
    by (auto simp: test_and_set_def in_acquire_def)
qed

lemma lock_inv_leave:
  assumes "lock_inv lk (pcs, s)" "pcs i = Freed" "pop_off i s = Inr s'"
  shows "lock_inv lk (pcs(i := Out), s')"
proof -
  have p: "owns ((pcs(i := Out)) j) \<longleftrightarrow> owns (pcs j)" "(pcs(i := Out)) j = Crit \<longleftrightarrow> pcs j = Crit" for j
    using assms(2) by (auto simp: owns_def)
  have h: "hart_ok (harts s' j)" for j
    using assms(1) hart_ok_pop_off [OF assms(3)] by (cases "j = i") auto
  have n: "1 \<le> noff (harts s' j)" if "in_acquire ((pcs(i := Out)) j)" for j
    using assms(1) that hart_ok_pop_off [OF assms(3)]
    by (cases "j = i") (auto simp: in_acquire_def)
  show ?thesis
    unfolding lock_inv.simps p
    using assms(1) h n hart_ok_pop_off(2) [OF assms(3)] by auto
qed

lemma lock_inv_spin:
  assumes "lock_inv lk (pcs, s)" "test_and_set lk s = (old, s')" "old \<noteq> 0"
  shows "lock_inv lk (pcs, s')"
  using assms by (auto simp: test_and_set_def)

lemma lock_inv_step: "lock_step lk x y \<Longrightarrow> lock_inv lk x \<Longrightarrow> lock_inv lk y"
  by (induction rule: lock_step.induct)
    (blast intro: lock_inv_enter lock_inv_swap_cpu lock_inv_clear_cpu lock_inv_unlock
      lock_inv_win lock_inv_leave lock_inv_spin)+

lemma lock_reach_inv: "lock_reach lk x \<Longrightarrow> lock_inv lk x"
proof (induction rule: lock_reach.induct)
  case (start s nm)
  then show ?case by (rule lock_inv_start)
next
  case (step x y)
  then show ?case by (blast intro: lock_inv_step)
qed

section \<open>Properties\<close>

text \<open>
  C14: Mutual exclusion. In every interleaving of any number of harts that run
  \<open>acquire\<close> and \<open>release\<close> on an initialised lock, at most one hart is between its winning
  swap and its clearing of the lock word; that hart is the one the lock's \<open>cpu\<close> field
  names while it is in its critical section, and its interrupts are off.
\<close>
theorem acquire_mutual_exclusion:
  assumes "lock_reach lk (pcs, s)"
  shows "(owns (pcs i) \<longrightarrow> owns (pcs j) \<longrightarrow> i = j) \<and>
         (pcs i = Crit \<longrightarrow> holding i lk s \<and> \<not> sie (harts s i)) \<and>
         (holding i lk s \<longrightarrow> pcs i = Crit)"
proof -
  have inv: "lock_inv lk (pcs, s)" using lock_reach_inv [OF assms] .
  have "holding i lk s \<and> \<not> sie (harts s i)" if c: "pcs i = Crit"
  proof -
    have "owns (pcs i)" "in_acquire (pcs i)" using c by (auto simp: in_acquire_def)
    with inv c have "locked (locks s lk) \<noteq> 0" "lcpu (locks s lk) = Some i"
      "hart_ok (harts s i)" "1 \<le> noff (harts s i)" unfolding lock_inv.simps by blast+
    then show ?thesis by (auto simp: holding_def hart_ok_def)
  qed
  moreover have "pcs i = Crit" if "holding i lk s"
    using inv that by (auto simp: holding_def)
  ultimately show ?thesis using inv by auto
qed

text \<open>Two harts on a fresh lock: hart 0 wins the swap while hart 1 spins.\<close>

definition idle_harts :: "unit lockst" where
  "idle_harts = \<lparr>locks = (\<lambda>_. \<lparr>locked = 0, lname = [], lcpu = None\<rparr>),
     harts = (\<lambda>_. \<lparr>noff = 0, intena = False, sie = True\<rparr>)\<rparr>"

lemma idle_won:
  "\<exists>s. lock_reach () (((\<lambda>_. Out)(0 := Spin, 0 := Got)), s)"
proof -
  let ?s = "initlock () [] idle_harts"
  have "lock_reach () (lock_start () [] idle_harts)"
    by (rule lock_reach.start) (simp add: idle_harts_def hart_ok_def)
  moreover have "noff (harts ?s 0) < 2 ^ 31 - 1" by (simp add: initlock_def idle_harts_def)
  then obtain t where t: "push_off 0 ?s = Inr t" using push_off_Inr by blast
  have lt: "locks t () = \<lparr>locked = 0, lname = [], lcpu = None\<rparr>"
    using push_off_hart(6) [OF t] by (simp add: initlock_def)
  have "lock_step () (lock_start () [] idle_harts) (((\<lambda>_. Out)(0 := Spin)), t)"
    unfolding lock_start_def by (intro lock_step.enter) (simp_all add: acquire_enter_Inr t holding_def lt)
  moreover have "lock_step () (((\<lambda>_. Out)(0 := Spin)), t)
      (((\<lambda>_. Out)(0 := Spin, 0 := Got)), snd (test_and_set () t))"
    by (intro lock_step.win) (simp_all add: test_and_set_def lt)
  ultimately show ?thesis by (blast intro: lock_reach.step)
qed

theorem acquire_mutual_exclusion_witness:
  "\<exists>pcs s. lock_reach () (pcs, s) \<and> owns (pcs 0) \<and> \<not> owns (pcs (Suc 0))"
proof -
  obtain s where s: "lock_reach () (((\<lambda>_. Out)(0 := Spin, 0 := Got)), s)" using idle_won by blast
  from acquire_mutual_exclusion [OF s, of 0 "Suc 0"] s show ?thesis by fastforce
qed

text \<open>
  C31: \<open>push_off\<close> and \<open>pop_off\<close> nest. As long as the nesting depth plus \<open>n\<close> fits the C \<open>int\<close>
  \<open>noff\<close>, \<open>n\<close> pushes succeed and leave interrupts off, and \<open>n\<close> pops after them succeed and
  give back the depth and the interrupt enable the hart had, on this hart and on no other. One
  push more than fits is a signed overflow.
\<close>
theorem push_pop_nested:
  assumes "hart_ok (harts s c)"
  shows "if noff (harts s c) + int n < 2 ^ 31 then
           (\<exists>t s'. push_n c n s = Inr t \<and> (n \<noteq> 0 \<longrightarrow> \<not> sie (harts t c)) \<and> pop_n c n t = Inr s' \<and>
              sie (harts s' c) = sie (harts s c) \<and> noff (harts s' c) = noff (harts s c) \<and>
              (\<forall>d. d \<noteq> c \<longrightarrow> harts s' d = harts s d) \<and> locks s' = locks s)
         else push_n c n s = Inl (Undef ''signed overflow'')"
proof (cases "noff (harts s c) + int n < 2 ^ 31")
  case True
  with pop_push_n [OF assms True] show ?thesis by (simp only: if_True) blast
next
  case False
  with assms show ?thesis by (simp add: hart_ok_def push_n_overflow)
qed

theorem push_pop_nested_witness:
  "\<exists>t s'. push_n 0 3 idle_harts = Inr t \<and> \<not> sie (harts t 0) \<and> pop_n 0 3 t = Inr s' \<and> sie (harts s' 0)"
proof -
  have "hart_ok (harts idle_harts 0)" "noff (harts idle_harts 0) + int 3 < 2 ^ 31" "sie (harts idle_harts 0)"
    by (simp_all add: idle_harts_def hart_ok_def)
  with push_pop_nested [of idle_harts 0 3] show ?thesis by auto
qed

end
