(* ===== verification/Sleeplock.thy ===== *)
theory Sleeplock
  imports Spinlock
begin

text \<open>
  kernel/sleeplock.c, run by one process. \<open>me\<close> is \<open>myproc()->pid\<close>. A lock that is taken
  makes \<open>acquiresleep\<close> call \<open>sleep\<close>, which is the outcome \<open>Block\<close>; \<open>releasesleep\<close> returns
  the channel it wakes.
\<close>

record sleeplock =
  slk :: bool
  slocked :: bool
  spid :: int

definition initsleeplock :: "sleeplock \<Rightarrow> sleeplock" where
  "initsleeplock l = l\<lparr>slk := False, slocked := False, spid := 0\<rparr>"

definition acquiresleep :: "int \<Rightarrow> chan \<Rightarrow> sleeplock \<Rightarrow> sleeplock res" where
  "acquiresleep me ch l =
     rbind (spin_acquire (slk l)) (\<lambda>h.
     if slocked l then Inl (Block ch)
     else
       rbind (spin_release h) (\<lambda>h.
       Inr (l\<lparr>slk := h, slocked := True, spid := me\<rparr>)))"

definition releasesleep :: "chan \<Rightarrow> sleeplock \<Rightarrow> (chan \<times> sleeplock) res" where
  "releasesleep ch l =
     rbind (spin_acquire (slk l)) (\<lambda>h.
     rbind (spin_release h) (\<lambda>h.
     Inr (ch, l\<lparr>slk := h, slocked := False, spid := 0\<rparr>)))"

definition holdingsleep :: "int \<Rightarrow> sleeplock \<Rightarrow> (bool \<times> sleeplock) res" where
  "holdingsleep me l =
     rbind (spin_acquire (slk l)) (\<lambda>h.
     rbind (spin_release h) (\<lambda>h.
     Inr (slocked l \<and> spid l = me, l\<lparr>slk := h\<rparr>)))"

section \<open>Properties\<close>

lemma slk_update_same [simp]: "\<not> slk l \<Longrightarrow> l\<lparr>slk := False\<rparr> = l"
  by (cases l) simp

lemma acquiresleep_free:
  "\<not> slk l \<Longrightarrow> \<not> slocked l \<Longrightarrow>
     acquiresleep me ch l = Inr (l\<lparr>slocked := True, spid := me\<rparr>)"
  by (cases l) (simp add: acquiresleep_def)

lemma acquiresleep_taken: "\<not> slk l \<Longrightarrow> slocked l \<Longrightarrow> acquiresleep me ch l = Inl (Block ch)"
  by (simp add: acquiresleep_def)

lemma acquiresleep_Inr_iff:
  "acquiresleep me ch l = Inr l' \<longleftrightarrow>
     \<not> slk l \<and> \<not> slocked l \<and> l' = l\<lparr>slocked := True, spid := me\<rparr>"
  by (cases l) (auto simp: acquiresleep_def split: if_splits)

lemma releasesleep_eq:
  "\<not> slk l \<Longrightarrow> releasesleep ch l = Inr (ch, l\<lparr>slocked := False, spid := 0\<rparr>)"
  by (cases l) (simp add: releasesleep_def)

lemma holdingsleep_eq: "\<not> slk l \<Longrightarrow> holdingsleep me l = Inr (slocked l \<and> spid l = me, l)"
  by (simp add: holdingsleep_def)

lemmas sleeplock_simps = acquiresleep_free acquiresleep_taken releasesleep_eq holdingsleep_eq

text \<open>A second \<open>acquiresleep\<close> blocks, whoever calls it: a sleep lock has one holder.\<close>

lemma acquiresleep_exclusive:
  assumes "acquiresleep me ch l = Inr l'"
  shows "acquiresleep you ch l' = Inl (Block ch)"
    and "holdingsleep you l' = Inr (you = me, l')"
  using assms by (auto simp: acquiresleep_Inr_iff acquiresleep_taken holdingsleep_eq)

lemma acquire_release_sleep:
  assumes "acquiresleep me ch l = Inr l'" and "spid l = 0"
  shows "releasesleep ch l' = Inr (ch, l)"
  using assms by (cases l) (auto simp: acquiresleep_Inr_iff releasesleep_eq)

end
