(* ===== verification/Proclist.thy ===== *)
theory Proclist
  imports Sleeplock
begin

text \<open>
  The process structure of kernel/proc.h and the linked lists of processes of kernel/proc.c
  (\<open>add_proc_to_list\<close>, \<open>remove_proc_from_list\<close>, \<open>initlists\<close>). A list is a head index and the
  \<open>next_index_in_list\<close> fields of the process table; the index \<open>-1\<close> ends it. Both
  operations walk the list hand over hand: they hold the spinlock of the list until the
  walk has moved on, and the \<open>stateLock\<close> of the nodes they look at. Every acquire and
  release is in the model, in the order of the source.

  A walk over a list that is not terminated by \<open>-1\<close> either indexes \<open>proc[-1]\<close> (\<open>Undef\<close>) or
  goes round a cycle. The walk is given \<open>NPROC\<close> units of fuel: a list of distinct
  processes ends within them (\<open>add_rest_eq\<close>, \<open>remove_rest_eq\<close>).

  What a client relies on is the locale \<open>proc_lists\<close>; it is interpreted on the two
  operations at the end.
\<close>

section \<open>Data\<close>

definition NPROC :: nat where "NPROC = 64"
definition NCPU :: nat where "NCPU = 8"
definition NOFILE :: nat where "NOFILE = 16"

datatype procstate = UNUSED | USED | SLEEPING | RUNNABLE | RUNNING | ZOMBIE

record kcontext =
  ra :: u64
  sp :: u64
  sregs :: "u64 list"

text \<open>
  \<open>struct proc\<close>. The spinlocks are in the one-hart view (is it held here?). A pointer to a
  process is its index, a pointer to a page its physical address (0 is null), \<open>ofile\<close> and
  \<open>cwd\<close> hold indices into the file and inode tables; \<open>pname\<close> is the C string in \<open>name[16]\<close>.
\<close>

record proc =
  plock :: bool
  stateLock :: bool
  state :: procstate
  chan :: chan
  killed :: bool
  xstate :: int
  pid :: int
  cpu_num :: int
  index_in_proc :: int
  next_index_in_list :: int
  parent :: "nat option"
  kstack :: u64
  sz :: u64
  pagetable :: nat
  trapframe :: nat
  pcontext :: kcontext
  ofile :: "nat \<Rightarrow> nat option"
  cwd :: "nat option"
  pname :: string

text \<open>An all-zero context, and an entry of \<open>proc[]\<close> as the loader leaves it: all zero.\<close>

definition zero_context :: kcontext where
  "zero_context = \<lparr>ra = 0, sp = 0, sregs = replicate 12 0\<rparr>"

definition bss_proc :: proc where
  "bss_proc = \<lparr>plock = False, stateLock = False, state = UNUSED, chan = NoChan, killed = False,
     xstate = 0, pid = 0, cpu_num = 0, index_in_proc = 0, next_index_in_list = 0, parent = None,
     kstack = 0, sz = 0, pagetable = 0, trapframe = 0, pcontext = zero_context,
     ofile = (\<lambda>_. None), cwd = None, pname = []\<rparr>"

text \<open>The lists of the program: three global ones and one per CPU (\<open>cpus[c].runnable\<close>).\<close>

datatype listid = UnusedL | ZombieL | SleepingL | RunnableL nat

record plist =
  llock :: bool
  first :: int

text \<open>\<open>proc[]\<close>, the lists, and the \<open>procCount\<close> field of each \<open>cpus[]\<close> entry.\<close>

record ptable =
  procs :: "nat \<Rightarrow> proc"
  lists :: "listid \<Rightarrow> plist"
  procCount :: "nat \<Rightarrow> u64"

text \<open>\<open>&proc[i]\<close> and \<open>&cpus[c].runnable\<close>: the array bounds.\<close>

definition proc_at :: "int \<Rightarrow> nat res" where
  "proc_at i = (if 0 \<le> i \<and> i < int NPROC then Inr (nat i) else Inl (Undef ''proc[]''))"

definition runnable_of :: "int \<Rightarrow> listid res" where
  "runnable_of c =
     (if 0 \<le> c \<and> c < int NCPU then Inr (RunnableL (nat c)) else Inl (Undef ''cpus[]''))"

section \<open>Field access\<close>

definition set_slock :: "nat \<Rightarrow> bool \<Rightarrow> 'a ptable_scheme \<Rightarrow> 'a ptable_scheme" where
  "set_slock i b s = s\<lparr>procs := (procs s)(i := (procs s i)\<lparr>stateLock := b\<rparr>)\<rparr>"

definition set_nxt :: "nat \<Rightarrow> int \<Rightarrow> 'a ptable_scheme \<Rightarrow> 'a ptable_scheme" where
  "set_nxt i n s = s\<lparr>procs := (procs s)(i := (procs s i)\<lparr>next_index_in_list := n\<rparr>)\<rparr>"

definition set_first :: "listid \<Rightarrow> int \<Rightarrow> 'a ptable_scheme \<Rightarrow> 'a ptable_scheme" where
  "set_first l i s = s\<lparr>lists := (lists s)(l := (lists s l)\<lparr>first := i\<rparr>)\<rparr>"

definition set_llock :: "listid \<Rightarrow> bool \<Rightarrow> 'a ptable_scheme \<Rightarrow> 'a ptable_scheme" where
  "set_llock l b s = s\<lparr>lists := (lists s)(l := (lists s l)\<lparr>llock := b\<rparr>)\<rparr>"

definition acquire_list :: "listid \<Rightarrow> 'a ptable_scheme \<Rightarrow> 'a ptable_scheme res" where
  "acquire_list l s = rbind (spin_acquire (llock (lists s l))) (\<lambda>h. Inr (set_llock l h s))"

definition release_list :: "listid \<Rightarrow> 'a ptable_scheme \<Rightarrow> 'a ptable_scheme res" where
  "release_list l s = rbind (spin_release (llock (lists s l))) (\<lambda>h. Inr (set_llock l h s))"

definition acquire_state :: "int \<Rightarrow> 'a ptable_scheme \<Rightarrow> 'a ptable_scheme res" where
  "acquire_state i s =
     rbind (proc_at i) (\<lambda>k.
     rbind (spin_acquire (stateLock (procs s k))) (\<lambda>h. Inr (set_slock k h s)))"

definition release_state :: "int \<Rightarrow> 'a ptable_scheme \<Rightarrow> 'a ptable_scheme res" where
  "release_state i s =
     rbind (proc_at i) (\<lambda>k.
     rbind (spin_release (stateLock (procs s k))) (\<lambda>h. Inr (set_slock k h s)))"

definition get_next :: "int \<Rightarrow> 'a ptable_scheme \<Rightarrow> int res" where
  "get_next i s = rbind (proc_at i) (\<lambda>k. Inr (next_index_in_list (procs s k)))"

definition put_next :: "int \<Rightarrow> int \<Rightarrow> 'a ptable_scheme \<Rightarrow> 'a ptable_scheme res" where
  "put_next i n s = rbind (proc_at i) (\<lambda>k. Inr (set_nxt k n s))"

section \<open>Operations\<close>

fun add_walk ::
  "nat \<Rightarrow> listid \<Rightarrow> int \<Rightarrow> int \<Rightarrow> bool \<Rightarrow> 'a ptable_scheme \<Rightarrow>
     (int \<times> bool \<times> 'a ptable_scheme) res" where
  "add_walk fuel l cur nxt canRelease s =
     (if nxt = -1 then Inr (cur, canRelease, s)
      else case fuel of
        0 \<Rightarrow> Inl Hang
      | Suc fuel \<Rightarrow>
          rbind (acquire_state nxt s) (\<lambda>s.
          rbind (release_state cur s) (\<lambda>s.
          rbind (get_next nxt s) (\<lambda>nxt'.
          if canRelease then
            rbind (release_list l s) (\<lambda>s. add_walk fuel l nxt nxt' False s)
          else add_walk fuel l nxt nxt' canRelease s))))"

declare add_walk.simps [simp del]

definition add_rest ::
  "nat \<Rightarrow> listid \<Rightarrow> int \<Rightarrow> int \<Rightarrow> int \<Rightarrow> bool \<Rightarrow> 'a ptable_scheme \<Rightarrow> 'a ptable_scheme res" where
  "add_rest fuel l indexInProc cur nxt canRelease s =
     rbind (add_walk fuel l cur nxt canRelease s) (\<lambda>(cur, canRelease, s).
     rbind (acquire_state indexInProc s) (\<lambda>s.
     rbind (put_next cur indexInProc s) (\<lambda>s.
     rbind (put_next indexInProc (-1) s) (\<lambda>s.
     rbind (release_state indexInProc s) (\<lambda>s.
     rbind (release_state cur s) (\<lambda>s.
     if canRelease then release_list l s else Inr s))))))"

definition add_proc_to_list :: "listid \<Rightarrow> int \<Rightarrow> 'a ptable_scheme \<Rightarrow> 'a ptable_scheme res" where
  "add_proc_to_list l indexInProc s =
     rbind (acquire_list l s) (\<lambda>s.
     if first (lists s l) = -1 then
       (let s = set_first l indexInProc s in
        rbind (acquire_state indexInProc s) (\<lambda>s.
        rbind (put_next (first (lists s l)) (-1) s) (\<lambda>s.
        rbind (release_state indexInProc s) (\<lambda>s.
        release_list l s))))
     else
       rbind (acquire_state (first (lists s l)) s) (\<lambda>s.
       let cur = first (lists s l) in
       rbind (get_next (first (lists s l)) s) (\<lambda>nxt.
       add_rest NPROC l indexInProc cur nxt True s)))"

fun remove_walk ::
  "nat \<Rightarrow> listid \<Rightarrow> int \<Rightarrow> int \<Rightarrow> int \<Rightarrow> int \<Rightarrow> bool \<Rightarrow> 'a ptable_scheme \<Rightarrow>
     (int \<times> int \<times> int \<times> bool \<times> 'a ptable_scheme) res" where
  "remove_walk fuel l indexInProc prev cur nxt canRelease s =
     (if nxt = indexInProc then Inr (prev, cur, nxt, canRelease, s)
      else case fuel of
        0 \<Rightarrow> Inl Hang
      | Suc fuel \<Rightarrow>
          rbind (acquire_state nxt s) (\<lambda>s.
          rbind (if prev \<noteq> -1 then release_state prev s else Inr s) (\<lambda>s.
          rbind (get_next nxt s) (\<lambda>nxt'.
          if canRelease then
            rbind (release_list l s) (\<lambda>s.
            remove_walk fuel l indexInProc cur nxt nxt' False s)
          else remove_walk fuel l indexInProc cur nxt nxt' canRelease s))))"

declare remove_walk.simps [simp del]

definition remove_rest ::
  "nat \<Rightarrow> listid \<Rightarrow> int \<Rightarrow> int \<Rightarrow> int \<Rightarrow> int \<Rightarrow> bool \<Rightarrow> 'a ptable_scheme \<Rightarrow>
     'a ptable_scheme res" where
  "remove_rest fuel l indexInProc prev cur nxt canRelease s =
     rbind (remove_walk fuel l indexInProc prev cur nxt canRelease s)
       (\<lambda>(prev, cur, nxt, canRelease, s).
     rbind (acquire_state nxt s) (\<lambda>s.
     rbind (get_next nxt s) (\<lambda>n.
     rbind (put_next cur n s) (\<lambda>s.
     rbind (put_next nxt (-1) s) (\<lambda>s.
     rbind (release_state nxt s) (\<lambda>s.
     rbind (release_state cur s) (\<lambda>s.
     rbind (if prev \<noteq> -1 then release_state prev s else Inr s) (\<lambda>s.
     if canRelease then release_list l s else Inr s))))))))"

definition remove_proc_from_list :: "listid \<Rightarrow> int \<Rightarrow> 'a ptable_scheme \<Rightarrow> 'a ptable_scheme res" where
  "remove_proc_from_list l indexInProc s =
     rbind (acquire_list l s) (\<lambda>s.
     if first (lists s l) = -1 then Inl (Panic ''Trying to remove from an empty list'')
     else if first (lists s l) = indexInProc then
       rbind (acquire_state indexInProc s) (\<lambda>s.
       rbind (get_next (first (lists s l)) s) (\<lambda>n.
       let s = set_first l n s in
       rbind (put_next indexInProc (-1) s) (\<lambda>s.
       rbind (release_state indexInProc s) (\<lambda>s.
       release_list l s))))
     else
       rbind (acquire_state (first (lists s l)) s) (\<lambda>s.
       let cur = first (lists s l) in
       rbind (get_next cur s) (\<lambda>nxt.
       remove_rest NPROC l indexInProc (-1) cur nxt True s)))"

definition initlists :: "'a ptable_scheme \<Rightarrow> 'a ptable_scheme" where
  "initlists s =
     s\<lparr>lists := (\<lambda>l. case l of
         RunnableL c \<Rightarrow> if c < NCPU then \<lparr>llock = False, first = -1\<rparr> else lists s l
       | _ \<Rightarrow> \<lparr>llock = False, first = -1\<rparr>),
       procCount := (\<lambda>c. if c < NCPU then 0 else procCount s c)\<rparr>"

section \<open>Lists as chains\<close>

definition nxt_of :: "'a ptable_scheme \<Rightarrow> nat \<Rightarrow> int" where
  "nxt_of s i = next_index_in_list (procs s i)"

fun chain :: "(nat \<Rightarrow> int) \<Rightarrow> int \<Rightarrow> nat list \<Rightarrow> bool" where
  "chain nx i [] \<longleftrightarrow> i = -1"
| "chain nx i (x # xs) \<longleftrightarrow> i = int x \<and> x < NPROC \<and> chain nx (nx x) xs"

definition slocks_free :: "'a ptable_scheme \<Rightarrow> bool" where
  "slocks_free s \<longleftrightarrow> (\<forall>i. \<not> stateLock (procs s i))"

named_theorems plist_acc

lemma proc_at_int [simp]: "proc_at (int i) = (if i < NPROC then Inr i else Inl (Undef ''proc[]''))"
  by (simp add: proc_at_def)

lemma proc_at_neg [simp]: "proc_at (-1) = Inl (Undef ''proc[]'')"
  by (simp add: proc_at_def)

lemma set_acc [plist_acc]:
  "procs (set_slock i b s) j = (if j = i then (procs s i)\<lparr>stateLock := b\<rparr> else procs s j)"
  "procs (set_nxt i n s) j = (if j = i then (procs s i)\<lparr>next_index_in_list := n\<rparr> else procs s j)"
  "procs (set_first l f s) = procs s"
  "procs (set_llock l b s) = procs s"
  "lists (set_slock i b s) = lists s"
  "lists (set_nxt i n s) = lists s"
  "lists (set_first l f s) m = (if m = l then (lists s l)\<lparr>first := f\<rparr> else lists s m)"
  "lists (set_llock l b s) m = (if m = l then (lists s l)\<lparr>llock := b\<rparr> else lists s m)"
  "procCount (set_slock i b s) = procCount s"
  "procCount (set_nxt i n s) = procCount s"
  "procCount (set_first l f s) = procCount s"
  "procCount (set_llock l b s) = procCount s"
  "ptable.more (set_slock i b s) = ptable.more s"
  "ptable.more (set_nxt i n s) = ptable.more s"
  "ptable.more (set_first l f s) = ptable.more s"
  "ptable.more (set_llock l b s) = ptable.more s"
  by (simp_all add: set_slock_def set_nxt_def set_first_def set_llock_def)

lemmas lock_defs = acquire_list_def release_list_def acquire_state_def release_state_def
  get_next_def put_next_def

lemma ptable_eqI:
  assumes "\<And>i. procs s i = procs t i" "\<And>l. lists s l = lists t l" "procCount s = procCount t"
    and "ptable.more s = ptable.more t"
  shows "s = t"
  using assms by (intro ptable.equality ext) auto

lemma move_slock:
  assumes "\<not> stateLock (procs s i)" "j \<noteq> i"
  shows "set_slock i False (set_slock j True (set_slock i True s)) = set_slock j True s"
  by (rule ptable_eqI) (use assms in \<open>auto simp: plist_acc\<close>)

lemma set_llock_commute:
  "set_llock l b (set_slock i c s) = set_slock i c (set_llock l b s)"
  "set_llock l b (set_llock l b' s) = set_llock l b s"
  by (rule ptable_eqI; simp add: plist_acc)+

lemma set_llock_same: "llock (lists s l) = b \<Longrightarrow> set_llock l b s = s"
  by (rule ptable_eqI) (auto simp: plist_acc)

lemma add_rest_eq:
  assumes "chain (nxt_of s) nxt ys" "nxt = nxt_of s cur" "distinct (cur # ys)"
    and "idx \<notin> set (cur # ys)" "idx < NPROC" "cur < NPROC"
    and "length ys \<le> fuel" "slocks_free s"
  shows "add_rest fuel l (int idx) (int cur) nxt can (set_slock cur True (set_llock l can s)) =
    Inr (set_nxt idx (-1) (set_nxt (last (cur # ys)) (int idx) (set_llock l False s)))"
  using assms
proof (induction ys arbitrary: cur nxt can fuel)
  case Nil
  then have "nxt = -1" "\<not> stateLock (procs s cur)" "\<not> stateLock (procs s idx)"
    by (simp_all add: slocks_free_def)
  with Nil.prems show ?case
    by (auto simp: add_rest_def add_walk.simps lock_defs plist_acc intro!: ptable_eqI)
next
  case (Cons y ys)
  from Cons.prems obtain f where f: "fuel = Suc f" by (cases fuel) auto
  have free: "\<not> stateLock (procs s cur)" "\<not> stateLock (procs s y)"
    using Cons.prems(8) by (simp_all add: slocks_free_def)
  have IH: "add_rest f l (int idx) (int y) (nxt_of s y) False (set_slock y True (set_llock l False s)) =
      Inr (set_nxt idx (-1) (set_nxt (last (y # ys)) (int idx) (set_llock l False s)))"
    by (rule Cons.IH) (use Cons.prems f in auto)
  have mv: "set_slock cur False (set_slock y True (set_slock cur True (set_llock l can s))) =
      set_slock y True (set_llock l can s)"
    by (rule move_slock) (use free Cons.prems in \<open>auto simp: plist_acc\<close>)
  have "add_rest fuel l (int idx) (int cur) nxt can (set_slock cur True (set_llock l can s)) =
        add_rest f l (int idx) (int y) (nxt_of s y) False (set_slock y True (set_llock l False s))"
    using Cons.prems free f
    by (auto simp: add_rest_def add_walk.simps [of "Suc f"] lock_defs plist_acc mv nxt_of_def
        set_llock_commute)
  with IH show ?case by simp
qed


text \<open>
  The net effect of the two operations, with every lock back in the state it was in:
  \<open>link_last\<close> for adding, \<open>unlink\<close> for removing.
\<close>

definition link_last :: "listid \<Rightarrow> nat list \<Rightarrow> nat \<Rightarrow> 'a ptable_scheme \<Rightarrow> 'a ptable_scheme" where
  "link_last l xs i s =
     (if xs = [] then set_nxt i (-1) (set_first l (int i) s)
      else set_nxt i (-1) (set_nxt (last xs) (int i) s))"

definition unlink :: "listid \<Rightarrow> nat list \<Rightarrow> nat \<Rightarrow> 'a ptable_scheme \<Rightarrow> 'a ptable_scheme" where
  "unlink l xs i s =
     (case takeWhile (\<lambda>x. x \<noteq> i) xs of
        [] \<Rightarrow> set_nxt i (-1) (set_first l (nxt_of s i) s)
      | ys \<Rightarrow> set_nxt i (-1) (set_nxt (last ys) (nxt_of s i) s))"

lemma add_proc_to_list_eq:
  assumes "chain (nxt_of s) (first (lists s l)) xs" "distinct xs" "i \<notin> set xs" "i < NPROC"
    and "length xs \<le> NPROC" "slocks_free s" "\<not> llock (lists s l)"
  shows "add_proc_to_list l (int i) s = Inr (link_last l xs i s)"
proof (cases xs)
  case Nil
  with assms have "first (lists s l) = -1" "\<not> stateLock (procs s i)"
    by (simp_all add: slocks_free_def)
  with assms Nil show ?thesis
    by (auto simp: add_proc_to_list_def lock_defs plist_acc link_last_def Let_def intro!: ptable_eqI)
next
  case (Cons x ys)
  with assms have x: "first (lists s l) = int x" "x < NPROC" "\<not> stateLock (procs s x)"
      "chain (nxt_of s) (nxt_of s x) ys"
    by (simp_all add: slocks_free_def)
  have "add_rest NPROC l (int i) (int x) (nxt_of s x) True (set_slock x True (set_llock l True s)) =
    Inr (set_nxt i (-1) (set_nxt (last (x # ys)) (int i) (set_llock l False s)))"
    by (rule add_rest_eq) (use assms Cons x in auto)
  with assms Cons x show ?thesis
    by (simp add: add_proc_to_list_def lock_defs plist_acc Let_def link_last_def
        nxt_of_def set_llock_same)
qed

text \<open>
  The state of the removal walk: the locks of the previous node (if any) and of the current
  one are held, and that of the list while \<open>can\<close>.
\<close>

definition prev_idx :: "nat option \<Rightarrow> int" where
  "prev_idx prev = (case prev of None \<Rightarrow> -1 | Some p \<Rightarrow> int p)"

definition walk_locks ::
  "nat option \<Rightarrow> nat \<Rightarrow> listid \<Rightarrow> bool \<Rightarrow> 'a ptable_scheme \<Rightarrow> 'a ptable_scheme" where
  "walk_locks prev cur l can s =
     (case prev of None \<Rightarrow> set_slock cur True (set_llock l can s)
      | Some p \<Rightarrow> set_slock p True (set_slock cur True (set_llock l can s)))"

lemma remove_rest_step:
  assumes y: "nxt_of s cur = int y" "y < NPROC" "y \<noteq> idx" "y \<noteq> cur"
    and free: "slocks_free s"
    and prev: "\<forall>p. prev = Some p \<longrightarrow> p < NPROC \<and> p \<noteq> cur \<and> p \<noteq> y"
  shows "remove_rest (Suc f) l (int idx) (prev_idx prev) (int cur) (nxt_of s cur) can
           (walk_locks prev cur l can s) =
         remove_rest f l (int idx) (prev_idx (Some cur)) (int y) (nxt_of s y) False
           (walk_locks (Some cur) y l False s)"
proof -
  have fr: "\<not> stateLock (procs s i)" for i
    using free by (simp add: slocks_free_def)
  have tw: "set_slock y True (set_slock cur True t) = set_slock cur True (set_slock y True t)"
    for t :: "'a ptable_scheme"
    by (rule ptable_eqI) (use y in \<open>simp_all add: plist_acc\<close>)
  have mv: "set_slock p False (set_slock y True (set_slock p True (set_slock cur True t))) =
      set_slock y True (set_slock cur True t)"
    if "prev = Some p" "\<not> stateLock (procs t p)" for p and t :: "'a ptable_scheme"
    by (rule ptable_eqI) (use that y prev in \<open>simp_all add: plist_acc\<close>)
  have ll: "set_llock l False (set_llock l can s) = set_llock l False s"
    by (simp add: set_llock_commute)
  show ?thesis
  proof (cases prev)
    case None
    then show ?thesis
      using y fr
      by (cases can)
        (simp_all add: remove_rest_def remove_walk.simps [of "Suc f"] lock_defs plist_acc
          nxt_of_def prev_idx_def walk_locks_def set_llock_commute tw)
  next
    case (Some p)
    with y fr prev mv [OF Some] show ?thesis
      by (cases can)
        (simp_all add: remove_rest_def remove_walk.simps [of "Suc f"] lock_defs plist_acc
          nxt_of_def prev_idx_def walk_locks_def set_llock_commute tw)
  qed
qed

lemma remove_finish:
  assumes "nxt_of s cur = int idx" "idx < NPROC" "cur < NPROC" "idx \<noteq> cur" "slocks_free s"
    and "\<forall>p. prev = Some p \<longrightarrow> p < NPROC \<and> p \<noteq> cur \<and> p \<noteq> idx"
  shows "remove_rest fuel l (int idx) (prev_idx prev) (int cur) (nxt_of s cur) can
           (walk_locks prev cur l can s) =
         Inr (set_nxt idx (-1) (set_nxt cur (nxt_of s idx) (set_llock l False s)))"
proof -
  have fr: "\<not> stateLock (procs s i)" for i
    using assms(5) by (simp add: slocks_free_def)
  show ?thesis
  proof (cases prev)
    case None
    with assms fr show ?thesis
      by (cases can)
        (auto simp: remove_rest_def remove_walk.simps lock_defs plist_acc nxt_of_def
          prev_idx_def walk_locks_def intro!: ptable_eqI)
  next
    case (Some p)
    with assms fr show ?thesis
      by (cases can)
        (auto simp: remove_rest_def remove_walk.simps lock_defs plist_acc nxt_of_def
          prev_idx_def walk_locks_def intro!: ptable_eqI)
  qed
qed

lemma remove_rest_eq:
  assumes "chain (nxt_of s) (nxt_of s cur) (bs @ idx # cs)" "distinct (cur # bs @ idx # cs)"
    and "cur < NPROC" "length bs \<le> fuel" "slocks_free s"
    and "\<forall>p. prev = Some p \<longrightarrow> p < NPROC \<and> p \<notin> set (cur # bs @ idx # cs)"
  shows "remove_rest fuel l (int idx) (prev_idx prev) (int cur) (nxt_of s cur) can
           (walk_locks prev cur l can s) =
    Inr (set_nxt idx (-1) (set_nxt (last (cur # bs)) (nxt_of s idx) (set_llock l False s)))"
  using assms
proof (induction bs arbitrary: prev cur can fuel)
  case Nil
  have "remove_rest fuel l (int idx) (prev_idx prev) (int cur) (nxt_of s cur) can
           (walk_locks prev cur l can s) =
         Inr (set_nxt idx (-1) (set_nxt cur (nxt_of s idx) (set_llock l False s)))"
    by (rule remove_finish) (use Nil in auto)
  then show ?case by simp
next
  case (Cons y bs)
  from Cons.prems obtain f where f: "fuel = Suc f" by (cases fuel) auto
  have IH: "remove_rest f l (int idx) (prev_idx (Some cur)) (int y) (nxt_of s y) False
      (walk_locks (Some cur) y l False s) =
    Inr (set_nxt idx (-1) (set_nxt (last (y # bs)) (nxt_of s idx) (set_llock l False s)))"
    by (rule Cons.IH) (use Cons.prems f in auto)
  have "remove_rest fuel l (int idx) (prev_idx prev) (int cur) (nxt_of s cur) can
           (walk_locks prev cur l can s) =
        remove_rest f l (int idx) (prev_idx (Some cur)) (int y) (nxt_of s y) False
           (walk_locks (Some cur) y l False s)"
    unfolding f by (rule remove_rest_step) (use Cons.prems in auto)
  with IH show ?case by simp
qed

lemma takeWhile_neq_split: "i \<notin> set bs \<Longrightarrow> takeWhile (\<lambda>x. x \<noteq> i) (bs @ i # cs) = bs"
  by (induction bs) auto

lemma remove_proc_from_list_eq:
  assumes "chain (nxt_of s) (first (lists s l)) xs" "distinct xs" "i \<in> set xs"
    and "length xs \<le> NPROC" "slocks_free s" "\<not> llock (lists s l)"
  shows "remove_proc_from_list l (int i) s = Inr (unlink l xs i s)"
proof -
  obtain bs cs where xs: "xs = bs @ i # cs" "i \<notin> set bs"
    using split_list_first [OF assms(3)] by auto
  have free: "\<not> stateLock (procs s i)" for i
    using assms(5) by (simp add: slocks_free_def)
  show ?thesis
  proof (cases bs)
    case Nil
    with assms xs free show ?thesis
      by (auto simp: remove_proc_from_list_def lock_defs plist_acc unlink_def Let_def nxt_of_def
          intro!: ptable_eqI)
  next
    case (Cons x ys)
    with assms xs have x: "first (lists s l) = int x" "x < NPROC" "x \<noteq> i"
        "chain (nxt_of s) (nxt_of s x) (ys @ i # cs)"
      by auto
    have "remove_rest NPROC l (int i) (prev_idx None) (int x) (nxt_of s x) True
        (walk_locks None x l True s) =
      Inr (set_nxt i (-1) (set_nxt (last (x # ys)) (nxt_of s i) (set_llock l False s)))"
      by (rule remove_rest_eq) (use assms xs Cons x in auto)
    moreover have "takeWhile (\<lambda>x. x \<noteq> i) xs = x # ys"
      using xs Cons takeWhile_neq_split by metis
    ultimately show ?thesis
      using assms x free
      by (simp add: remove_proc_from_list_def lock_defs plist_acc Let_def unlink_def
          set_llock_same nxt_of_def prev_idx_def walk_locks_def)
  qed
qed

text \<open>
  Removing from an empty list panics; removing a process that is not in a non-empty list
  walks to the end and then takes the lock of \<open>proc[-1]\<close>.
\<close>

lemma remove_empty:
  assumes "first (lists s l) = -1" "\<not> llock (lists s l)"
  shows "remove_proc_from_list l i s = Inl (Panic ''Trying to remove from an empty list'')"
  using assms by (simp add: remove_proc_from_list_def lock_defs plist_acc)

lemma remove_rest_absent:
  assumes "chain (nxt_of s) (nxt_of s cur) ys" "distinct (cur # ys)"
    and "idx \<notin> set ys" "cur < NPROC" "length ys < fuel" "slocks_free s"
    and "\<forall>p. prev = Some p \<longrightarrow> p < NPROC \<and> p \<notin> set (cur # ys)"
  shows "remove_rest fuel l (int idx) (prev_idx prev) (int cur) (nxt_of s cur) can
           (walk_locks prev cur l can s) = Inl (Undef ''proc[]'')"
  using assms
proof (induction ys arbitrary: prev cur can fuel)
  case Nil
  then obtain f where f: "fuel = Suc f" by (cases fuel) auto
  from Nil have "nxt_of s cur = -1" by simp
  with f show ?case
    by (simp add: remove_rest_def remove_walk.simps lock_defs)
next
  case (Cons y ys)
  from Cons.prems obtain f where f: "fuel = Suc f" by (cases fuel) auto
  have IH: "remove_rest f l (int idx) (prev_idx (Some cur)) (int y) (nxt_of s y) False
      (walk_locks (Some cur) y l False s) = Inl (Undef ''proc[]'')"
    by (rule Cons.IH) (use Cons.prems f in auto)
  have "remove_rest fuel l (int idx) (prev_idx prev) (int cur) (nxt_of s cur) can
           (walk_locks prev cur l can s) =
        remove_rest f l (int idx) (prev_idx (Some cur)) (int y) (nxt_of s y) False
           (walk_locks (Some cur) y l False s)"
    unfolding f by (rule remove_rest_step) (use Cons.prems in auto)
  with IH show ?case by simp
qed

lemma remove_absent:
  assumes "chain (nxt_of s) (first (lists s l)) xs" "distinct xs" "i \<notin> set xs" "xs \<noteq> []"
    and "length xs \<le> NPROC" "slocks_free s" "\<not> llock (lists s l)"
  shows "remove_proc_from_list l (int i) s = Inl (Undef ''proc[]'')"
proof -
  from assms(4) obtain x ys where xs: "xs = x # ys" by (cases xs) auto
  have x: "first (lists s l) = int x" "x < NPROC" "x \<noteq> i" "\<not> stateLock (procs s x)"
      "chain (nxt_of s) (nxt_of s x) ys"
    using assms xs by (auto simp: slocks_free_def)
  have "remove_rest NPROC l (int i) (prev_idx None) (int x) (nxt_of s x) True
        (walk_locks None x l True s) = Inl (Undef ''proc[]'')"
    by (rule remove_rest_absent) (use assms xs x in auto)
  with assms x show ?thesis
    by (simp add: remove_proc_from_list_def lock_defs plist_acc Let_def nxt_of_def
        prev_idx_def walk_locks_def)
qed


section \<open>The contents of the lists\<close>

text \<open>
  \<open>contents s l\<close> follows the \<open>next\<close> indices from the head. \<open>plists_ok\<close> is the invariant of the
  lists between two operations: every list is a chain of distinct processes, no process
  is in two lists, and no list lock or state lock is held.
\<close>

fun follow :: "(nat \<Rightarrow> int) \<Rightarrow> nat \<Rightarrow> int \<Rightarrow> nat list" where
  "follow nx 0 i = []"
| "follow nx (Suc n) i = (if i < 0 then [] else nat i # follow nx n (nx (nat i)))"

definition contents :: "'a ptable_scheme \<Rightarrow> listid \<Rightarrow> nat list" where
  "contents s l = follow (nxt_of s) NPROC (first (lists s l))"

definition all_lists :: "listid set" where
  "all_lists = {UnusedL, ZombieL, SleepingL} \<union> RunnableL ` {..<NCPU}"

definition plists_ok :: "'a ptable_scheme \<Rightarrow> bool" where
  "plists_ok s \<longleftrightarrow>
     (\<forall>l \<in> all_lists. chain (nxt_of s) (first (lists s l)) (contents s l) \<and>
        distinct (contents s l) \<and> \<not> llock (lists s l)) \<and>
     (\<forall>l \<in> all_lists. \<forall>m \<in> all_lists. l \<noteq> m \<longrightarrow> set (contents s l) \<inter> set (contents s m) = {}) \<and>
     slocks_free s"

lemma chain_follow:
  "chain nx i xs \<Longrightarrow> length xs \<le> n \<Longrightarrow> follow nx n i = xs"
proof (induction xs arbitrary: i n)
  case Nil
  then show ?case by (cases n) auto
next
  case (Cons x xs)
  then show ?case by (cases n) auto
qed

lemma chain_bound: "chain nx i xs \<Longrightarrow> x \<in> set xs \<Longrightarrow> x < NPROC"
  by (induction xs arbitrary: i) auto

lemma distinct_chain_length:
  assumes "chain nx i xs" "distinct xs"
  shows "length xs \<le> NPROC"
proof -
  have "set xs \<subseteq> {..<NPROC}" using chain_bound [OF assms(1)] by auto
  then have "card (set xs) \<le> card {..<NPROC}" by (intro card_mono) auto
  with assms(2) show ?thesis by (simp add: distinct_card)
qed

lemma contents_eqI:
  assumes "chain (nxt_of s) (first (lists s l)) xs" "distinct xs"
  shows "contents s l = xs"
  using assms distinct_chain_length chain_follow unfolding contents_def by blast

lemma chain_cong:
  "chain nx i xs \<Longrightarrow> (\<And>x. x \<in> set xs \<Longrightarrow> nx' x = nx x) \<Longrightarrow> chain nx' i xs"
  by (induction xs arbitrary: i) auto

lemma chain_append:
  "chain nx i (xs @ ys) \<longleftrightarrow>
     (if xs = [] then chain nx i ys
      else (\<exists>j. chain (nx(last xs := -1)) i xs \<and> nx (last xs) = j \<and> chain nx j ys))"
  if "distinct xs"
  using that
proof (induction xs arbitrary: i)
  case Nil
  then show ?case by simp
next
  case (Cons x xs)
  show ?case
  proof (cases "xs = []")
    case True
    then show ?thesis by auto
  next
    case False
    then have "last xs \<noteq> x" using Cons.prems by auto
    with Cons False show ?thesis by auto
  qed
qed

lemma chain_last_end:
  "chain nx i xs \<Longrightarrow> distinct xs \<Longrightarrow> xs \<noteq> [] \<Longrightarrow> chain (nx(last xs := -1)) i xs"
proof (induction xs arbitrary: i)
  case Nil
  then show ?case by simp
next
  case (Cons x xs)
  then show ?case by (cases "xs = []") auto
qed

lemma chain_snoc:
  assumes "chain nx i xs" "distinct xs" "k \<notin> set xs" "k < NPROC" "xs \<noteq> []"
  shows "chain (nx(last xs := int k, k := -1)) i (xs @ [k])"
proof -
  have k: "last xs \<noteq> k" using assms by auto
  have "chain ((nx(last xs := int k, k := -1))(last xs := -1)) i xs"
    using chain_last_end [OF assms(1,2,5)] by (rule chain_cong) (use assms in auto)
  with assms k show ?thesis
    by (simp add: chain_append)
qed

lemma chain_unlink:
  assumes "chain nx i (bs @ k # cs)" "distinct (bs @ k # cs)" "bs \<noteq> []"
  shows "chain (nx(last bs := nx k, k := -1)) i (bs @ cs)"
proof -
  have d: "distinct bs" "last bs \<noteq> k" "last bs \<notin> set cs" "k \<notin> set cs" "k \<notin> set bs"
    using assms(2,3) by (auto dest: last_in_set)
  from assms(1,3) d have *: "chain (nx(last bs := -1)) i bs" "chain nx (nx (last bs)) (k # cs)"
    by (simp_all add: chain_append)
  have "chain ((nx(last bs := nx k, k := -1))(last bs := -1)) i bs"
    using *(1) by (rule chain_cong) (use d in auto)
  moreover have "chain (nx(last bs := nx k, k := -1)) (nx k) cs"
    by (rule chain_cong [where nx = nx]) (use *(2) d in auto)
  ultimately show ?thesis
    using assms(3) d by (simp add: chain_append)
qed

lemma nxt_of_set [plist_acc]:
  "nxt_of (set_nxt i n s) = (nxt_of s)(i := n)"
  "nxt_of (set_first l f s) = nxt_of s"
  by (auto simp: nxt_of_def plist_acc)

lemma link_last_chain:
  assumes "chain (nxt_of s) (first (lists s l)) xs" "distinct xs" "i \<notin> set xs" "i < NPROC"
  shows "chain (nxt_of (link_last l xs i s)) (first (lists (link_last l xs i s) l)) (xs @ [i])"
  using assms chain_snoc [of "nxt_of s" "first (lists s l)" xs i]
  by (auto simp: link_last_def plist_acc)

lemma unlink_chain:
  assumes "chain (nxt_of s) (first (lists s l)) xs" "distinct xs" "i \<in> set xs"
  shows "chain (nxt_of (unlink l xs i s)) (first (lists (unlink l xs i s) l)) (remove1 i xs)"
proof -
  obtain bs cs where xs: "xs = bs @ i # cs" "i \<notin> set bs"
    using split_list_first [OF assms(3)] by auto
  have tw: "takeWhile (\<lambda>x. x \<noteq> i) xs = bs"
    using xs by (simp add: takeWhile_neq_split)
  have r: "remove1 i xs = bs @ cs"
    using xs by (simp add: remove1_append)
  show ?thesis
  proof (cases bs)
    case Nil
    have "chain ((nxt_of s)(i := -1)) (nxt_of s i) cs"
      by (rule chain_cong [where nx = "nxt_of s"]) (use assms xs Nil in auto)
    with Nil tw r show ?thesis
      by (simp add: unlink_def plist_acc)
  next
    case (Cons b bs')
    with chain_unlink [of "nxt_of s" "first (lists s l)" bs i cs] assms xs tw r
    show ?thesis by (simp add: unlink_def plist_acc)
  qed
qed

text \<open>Frame: the other fields of the process table are untouched.\<close>

definition same_rest :: "'a ptable_scheme \<Rightarrow> 'a ptable_scheme \<Rightarrow> bool" where
  "same_rest s t \<longleftrightarrow>
     (\<forall>i. (procs s i)\<lparr>next_index_in_list := 0\<rparr> = (procs t i)\<lparr>next_index_in_list := 0\<rparr>) \<and>
     procCount s = procCount t \<and> ptable.more s = ptable.more t"

lemma link_last_frame:
  "same_rest (link_last l xs i s) s"
  "m \<noteq> l \<Longrightarrow> lists (link_last l xs i s) m = lists s m"
  "llock (lists (link_last l xs i s) m) = llock (lists s m)"
  "slocks_free (link_last l xs i s) = slocks_free s"
  "j \<noteq> i \<Longrightarrow> j \<notin> set xs \<Longrightarrow> nxt_of (link_last l xs i s) j = nxt_of s j"
  by (auto simp: same_rest_def link_last_def plist_acc slocks_free_def nxt_of_def dest: last_in_set)

lemma unlink_cases:
  obtains "takeWhile (\<lambda>x. x \<noteq> i) xs = []"
    "unlink l xs i s = set_nxt i (-1) (set_first l (nxt_of s i) s)"
  | p where "p \<in> set xs" "unlink l xs i s = set_nxt i (-1) (set_nxt p (nxt_of s i) s)"
proof (cases "takeWhile (\<lambda>x. x \<noteq> i) xs")
  case Nil
  with that(1) show ?thesis by (simp add: unlink_def)
next
  case (Cons y ys)
  let ?p = "last (takeWhile (\<lambda>x. x \<noteq> i) xs)"
  have "?p \<in> set (takeWhile (\<lambda>x. x \<noteq> i) xs)"
    using Cons by (intro last_in_set) simp
  then have "?p \<in> set xs" by (auto dest: set_takeWhileD)
  moreover have "unlink l xs i s = set_nxt i (-1) (set_nxt ?p (nxt_of s i) s)"
    using Cons by (simp add: unlink_def)
  ultimately show ?thesis using that(2) by blast
qed

lemma unlink_frame:
  "same_rest (unlink l xs i s) s"
  "m \<noteq> l \<Longrightarrow> lists (unlink l xs i s) m = lists s m"
  "llock (lists (unlink l xs i s) m) = llock (lists s m)"
  "slocks_free (unlink l xs i s) = slocks_free s"
  "j \<noteq> i \<Longrightarrow> j \<notin> set xs \<Longrightarrow> nxt_of (unlink l xs i s) j = nxt_of s j"
  by (rule unlink_cases [of i xs l s];
      auto simp: same_rest_def plist_acc slocks_free_def nxt_of_def)+

section \<open>The interface\<close>

text \<open>
  What the rest of proc.c relies on. \<open>rest\<close> stands for every other part of the state, which
  the two operations leave alone.
\<close>

locale proc_lists =
  fixes add :: "'l \<Rightarrow> int \<Rightarrow> 's \<Rightarrow> 's res"
    and remove :: "'l \<Rightarrow> int \<Rightarrow> 's \<Rightarrow> 's res"
    and cont :: "'s \<Rightarrow> 'l \<Rightarrow> nat list"
    and ids :: "'l set"
    and ok :: "'s \<Rightarrow> bool"
    and same :: "'s \<Rightarrow> 's \<Rightarrow> bool"
  assumes add_ok:
    "ok s \<Longrightarrow> l \<in> ids \<Longrightarrow> i < NPROC \<Longrightarrow> \<forall>m \<in> ids. i \<notin> set (cont s m) \<Longrightarrow>
       \<exists>s'. add l (int i) s = Inr s' \<and> ok s' \<and> same s' s \<and>
            (\<forall>m \<in> ids. cont s' m = (if m = l then cont s l @ [i] else cont s m))"
  and remove_ok:
    "ok s \<Longrightarrow> l \<in> ids \<Longrightarrow> i \<in> set (cont s l) \<Longrightarrow>
       \<exists>s'. remove l (int i) s = Inr s' \<and> ok s' \<and> same s' s \<and>
            (\<forall>m \<in> ids. cont s' m = (if m = l then remove1 i (cont s l) else cont s m))"
  and ok_distinct: "ok s \<Longrightarrow> l \<in> ids \<Longrightarrow> distinct (cont s l)"
  and ok_disjoint: "ok s \<Longrightarrow> l \<in> ids \<Longrightarrow> m \<in> ids \<Longrightarrow> i \<in> set (cont s l) \<Longrightarrow>
       i \<in> set (cont s m) \<Longrightarrow> l = m"
  and ok_bound: "ok s \<Longrightarrow> l \<in> ids \<Longrightarrow> i \<in> set (cont s l) \<Longrightarrow> i < NPROC"
  and same_trans: "same s t \<Longrightarrow> same t u \<Longrightarrow> same s u"
begin

text \<open>
  Moving a process from one list to another, as \<open>wakeup\<close>, \<open>kill\<close> and \<open>freeproc\<close> do.
\<close>

lemma move_ok:
  assumes "ok s" "l \<in> ids" "m \<in> ids" "i \<in> set (cont s l)"
  shows "\<exists>s' s''. remove l (int i) s = Inr s' \<and> add m (int i) s' = Inr s'' \<and> ok s' \<and> ok s'' \<and>
           same s' s \<and> same s'' s \<and>
           (\<forall>k \<in> ids. set (cont s'' k) =
              (if k = m then insert i (set (cont s k)) else set (cont s k) - {i}))"
proof -
  obtain s' where s': "remove l (int i) s = Inr s'" "ok s'" "same s' s"
      "\<forall>k \<in> ids. cont s' k = (if k = l then remove1 i (cont s l) else cont s k)"
    using remove_ok [OF assms(1,2,4)] by blast
  have d: "distinct (cont s l)" using assms ok_distinct by blast
  have no: "\<forall>k \<in> ids. i \<notin> set (cont s' k)"
    using s'(4) d ok_disjoint [OF assms(1,2)] assms(4) by auto
  have i: "i < NPROC" using assms ok_bound by blast
  obtain s'' where s'': "add m (int i) s' = Inr s''" "ok s''" "same s'' s'"
      "\<forall>k \<in> ids. cont s'' k = (if k = m then cont s' m @ [i] else cont s' k)"
    using add_ok [OF s'(2) assms(3) i no] by blast
  have eq: "set (cont s'' k) =
      (if k = m then insert i (set (cont s k)) else set (cont s k) - {i})" if "k \<in> ids" for k
  proof -
    have "set (cont s' k) = set (cont s k) - {i}"
      using that s'(4) d ok_disjoint [OF assms(1,2) that assms(4)] by auto
    with that assms(3) s''(4) show ?thesis by auto
  qed
  show ?thesis
    using s' s'' eq same_trans by blast
qed

end

lemma in_all_lists [simp]:
  "UnusedL \<in> all_lists" "ZombieL \<in> all_lists" "SleepingL \<in> all_lists"
  "RunnableL c \<in> all_lists \<longleftrightarrow> c < NCPU"
  by (auto simp: all_lists_def)

lemma plists_okD:
  assumes "plists_ok s" "l \<in> all_lists"
  shows "chain (nxt_of s) (first (lists s l)) (contents s l)" "distinct (contents s l)"
    "\<not> llock (lists s l)" "slocks_free s"
    "m \<in> all_lists \<Longrightarrow> l \<noteq> m \<Longrightarrow> set (contents s l) \<inter> set (contents s m) = {}"
  using assms unfolding plists_ok_def by blast+

lemma plists_okI:
  assumes "\<And>l. l \<in> all_lists \<Longrightarrow> chain (nxt_of s) (first (lists s l)) (c l)"
    and "\<And>l. l \<in> all_lists \<Longrightarrow> distinct (c l)"
    and "\<And>l. l \<in> all_lists \<Longrightarrow> \<not> llock (lists s l)"
    and "\<And>l m. l \<in> all_lists \<Longrightarrow> m \<in> all_lists \<Longrightarrow> l \<noteq> m \<Longrightarrow> set (c l) \<inter> set (c m) = {}"
    and "slocks_free s"
  shows "plists_ok s" "l \<in> all_lists \<Longrightarrow> contents s l = c l"
proof -
  have c: "contents s l = c l" if "l \<in> all_lists" for l
    using contents_eqI assms(1,2) that by blast
  then show "l \<in> all_lists \<Longrightarrow> contents s l = c l" .
  show "plists_ok s"
    using assms by (simp add: plists_ok_def c)
qed

lemma add_contents:
  assumes "plists_ok s" "l \<in> all_lists" "i < NPROC" "\<forall>m \<in> all_lists. i \<notin> set (contents s m)"
  shows "\<exists>s'. add_proc_to_list l (int i) s = Inr s' \<and> plists_ok s' \<and> same_rest s' s \<and>
    (\<forall>m \<in> all_lists. contents s' m = (if m = l then contents s l @ [i] else contents s m))"
proof -
  let ?s = "link_last l (contents s l) i s"
  let ?c = "\<lambda>m. if m = l then contents s l @ [i] else contents s m"
  note ok = plists_okD [OF assms(1)]
  have i: "i \<notin> set (contents s l)" using assms by blast
  have "add_proc_to_list l (int i) s = Inr ?s"
    using ok assms i distinct_chain_length by (intro add_proc_to_list_eq) blast+
  moreover
  have ch: "chain (nxt_of ?s) (first (lists ?s m)) (?c m)" if "m \<in> all_lists" for m
  proof (cases "m = l")
    case True
    with ok assms(2,3) i show ?thesis by (simp add: link_last_chain)
  next
    case False
    have "chain (nxt_of ?s) (first (lists s m)) (contents s m)"
      using ok(1) [OF that]
      by (rule chain_cong)
        (rule link_last_frame(5); use assms that False ok(5) [OF assms(2) that] in auto)
    with False show ?thesis by (simp add: link_last_frame)
  qed
  have d: "distinct (?c m)" "\<not> llock (lists ?s m)" if "m \<in> all_lists" for m
    using ok(2,3) that i by (auto simp: link_last_frame)
  have dj: "set (?c k) \<inter> set (?c m) = {}" if "k \<in> all_lists" "m \<in> all_lists" "k \<noteq> m" for k m
    using ok(5) [OF that(1,2,3)] assms(4) that by auto
  have "slocks_free ?s"
    using ok(4) [OF assms(2)] by (simp add: link_last_frame)
  note r = plists_okI [of ?s ?c, OF ch d dj this]
  show ?thesis
    using calculation r link_last_frame(1) by blast
qed

lemma remove_contents:
  assumes "plists_ok s" "l \<in> all_lists" "i \<in> set (contents s l)"
  shows "\<exists>s'. remove_proc_from_list l (int i) s = Inr s' \<and> plists_ok s' \<and> same_rest s' s \<and>
    (\<forall>m \<in> all_lists. contents s' m = (if m = l then remove1 i (contents s l) else contents s m))"
proof -
  let ?s = "unlink l (contents s l) i s"
  let ?c = "\<lambda>m. if m = l then remove1 i (contents s l) else contents s m"
  note ok = plists_okD [OF assms(1)]
  have "remove_proc_from_list l (int i) s = Inr ?s"
    using ok assms distinct_chain_length by (intro remove_proc_from_list_eq) blast+
  moreover
  have ch: "chain (nxt_of ?s) (first (lists ?s m)) (?c m)" if "m \<in> all_lists" for m
  proof (cases "m = l")
    case True
    with ok assms(2,3) show ?thesis by (simp add: unlink_chain)
  next
    case False
    have "chain (nxt_of ?s) (first (lists s m)) (contents s m)"
      using ok(1) [OF that]
      by (rule chain_cong)
        (rule unlink_frame(5); use assms that False ok(5) [OF assms(2) that] in auto)
    with False show ?thesis by (simp add: unlink_frame)
  qed
  have d: "distinct (?c m)" "\<not> llock (lists ?s m)" if "m \<in> all_lists" for m
    using ok(2,3) that by (auto simp: unlink_frame)
  have dj: "set (?c k) \<inter> set (?c m) = {}" if "k \<in> all_lists" "m \<in> all_lists" "k \<noteq> m" for k m
  proof -
    have "set (?c j) \<subseteq> set (contents s j)" for j
      by (simp add: set_remove1_subset)
    with ok(5) [OF that(1,2,3)] show ?thesis by blast
  qed
  have "slocks_free ?s"
    using ok(4) [OF assms(2)] by (simp add: unlink_frame)
  note r = plists_okI [of ?s ?c, OF ch d dj this]
  show ?thesis
    using calculation r unlink_frame(1) by blast
qed

lemma same_rest_trans: "same_rest s t \<Longrightarrow> same_rest t u \<Longrightarrow> same_rest s u"
  by (simp add: same_rest_def)

interpretation pl: proc_lists add_proc_to_list remove_proc_from_list contents all_lists
  plists_ok same_rest
proof unfold_locales
  fix s :: "'a ptable_scheme" and l m :: listid and i :: nat
  show "plists_ok s \<Longrightarrow> l \<in> all_lists \<Longrightarrow> distinct (contents s l)"
    by (rule plists_okD)
  show "plists_ok s \<Longrightarrow> l \<in> all_lists \<Longrightarrow> m \<in> all_lists \<Longrightarrow> i \<in> set (contents s l) \<Longrightarrow>
      i \<in> set (contents s m) \<Longrightarrow> l = m"
    using plists_okD(5) [of s l m] by blast
  show "plists_ok s \<Longrightarrow> l \<in> all_lists \<Longrightarrow> i \<in> set (contents s l) \<Longrightarrow> i < NPROC"
    using plists_okD(1) [of s l] chain_bound by blast
qed (fact add_contents remove_contents same_rest_trans)+

lemma remove_not_in:
  assumes "plists_ok s" "l \<in> all_lists" "i \<notin> set (contents s l)"
  shows "remove_proc_from_list l (int i) s =
    Inl (if contents s l = [] then Panic ''Trying to remove from an empty list''
         else Undef ''proc[]'')"
proof (cases "contents s l = []")
  case True
  with plists_okD(1,3) [OF assms(1,2)] show ?thesis by (simp add: remove_empty)
next
  case False
  with plists_okD [OF assms(1,2)] assms distinct_chain_length show ?thesis
    by (auto intro!: remove_absent)
qed

section \<open>Properties\<close>

text \<open>The tables as \<open>initlists\<close> leaves them: every list is empty.\<close>

definition empty_lists :: "ptable" where
  "empty_lists = \<lparr>procs = (\<lambda>_. bss_proc),
     lists = (\<lambda>_. \<lparr>llock = False, first = -1\<rparr>), procCount = (\<lambda>_. 0)\<rparr>"

lemma empty_lists_ok: "plists_ok empty_lists" "l \<in> all_lists \<Longrightarrow> contents empty_lists l = []"
  using plists_okI [of empty_lists "\<lambda>_. []"] by (simp_all add: empty_lists_def slocks_free_def bss_proc_def)

text \<open>
  C15: \<open>add_proc_to_list\<close> on a process that is on no list terminates, appends the process at
  the end of that list, leaves every other list and every other field of the process table
  alone, and leaves the lists well formed with every lock of the hand-over-hand walk
  released.
\<close>
theorem add_proc_to_list_appends:
  assumes "plists_ok s" "l \<in> all_lists" "i < NPROC" "\<forall>m \<in> all_lists. i \<notin> set (contents s m)"
  shows "\<exists>s'. add_proc_to_list l (int i) s = Inr s' \<and> plists_ok s' \<and> same_rest s' s \<and>
    (\<forall>m \<in> all_lists. contents s' m = (if m = l then contents s l @ [i] else contents s m))"
  using assms by (rule pl.add_ok)

theorem add_proc_to_list_appends_witness:
  "\<exists>s'. add_proc_to_list SleepingL (int 7) empty_lists = Inr s' \<and> contents s' SleepingL = [7]"
  using add_proc_to_list_appends [of empty_lists SleepingL 7] empty_lists_ok
  by (auto simp: NPROC_def)

text \<open>
  C16: \<open>remove_proc_from_list\<close> on a member of the list terminates, takes out exactly that
  member and keeps the order of the others, whether it is the head, in the middle or at the
  end; every other list and field is left alone and every lock is released.
\<close>
theorem remove_proc_from_list_removes:
  assumes "plists_ok s" "l \<in> all_lists" "i \<in> set (contents s l)"
  shows "\<exists>s'. remove_proc_from_list l (int i) s = Inr s' \<and> plists_ok s' \<and> same_rest s' s \<and>
    (\<forall>m \<in> all_lists. contents s' m = (if m = l then remove1 i (contents s l) else contents s m))"
  using assms by (rule pl.remove_ok)

theorem remove_proc_from_list_removes_witness:
  "\<exists>(s :: ptable) s'. plists_ok s \<and> contents s ZombieL = [3] \<and>
     remove_proc_from_list ZombieL (int 3) s = Inr s' \<and> contents s' ZombieL = []"
proof -
  obtain s where s: "add_proc_to_list ZombieL (int 3) empty_lists = Inr s" "plists_ok s"
      "contents s ZombieL = [3]"
    using pl.add_ok [of empty_lists ZombieL 3] empty_lists_ok by (auto simp: NPROC_def)
  obtain s' where "remove_proc_from_list ZombieL (int 3) s = Inr s'" "contents s' ZombieL = []"
    using remove_proc_from_list_removes [of s ZombieL 3] s by auto
  with s show ?thesis by blast
qed

text \<open>
  C33: \<open>remove_proc_from_list\<close> never returns on a process that is not in the list: on an
  empty list it panics, and on a non-empty one its walk passes the end of the list and takes
  the lock of \<open>proc[-1]\<close>, outside the process table.
\<close>
theorem remove_proc_from_list_absent:
  assumes "plists_ok s" "l \<in> all_lists" "i \<notin> set (contents s l)"
  shows "remove_proc_from_list l (int i) s =
    Inl (if contents s l = [] then Panic ''Trying to remove from an empty list''
         else Undef ''proc[]'')"
  using assms by (rule remove_not_in)

theorem remove_proc_from_list_absent_witness:
  "remove_proc_from_list UnusedL (int 5) empty_lists =
     Inl (Panic ''Trying to remove from an empty list'')"
  using remove_proc_from_list_absent [of empty_lists UnusedL 5] empty_lists_ok by simp

end
