(* ===== verification/Cstring.thy ===== *)
theory Cstring
  imports Prelude
begin

text \<open>
  kernel/string.c. Memory is a function from addresses to bytes. An address is a natural
  number: the kernel runs on a direct map of physical RAM that ends at PHYSTOP
  (kernel/memlayout.h), far below \<open>2 ^ 64\<close>, so kernel pointer arithmetic does not wrap.
  Every loop of the source is a recursive function that reads and writes the current
  memory byte by byte, so overlapping arguments alias in the model as they do in C.

  Each routine is then characterised by a closed form, which is what the other theories
  use.
\<close>

type_synonym mem = "nat \<Rightarrow> u8"

section \<open>Definitions\<close>

function memset_loop :: "nat \<Rightarrow> u8 \<Rightarrow> nat \<Rightarrow> nat \<Rightarrow> mem \<Rightarrow> mem" where
  "memset_loop dst c i n m =
     (if i < n then memset_loop dst c (Suc i) n (m(dst + i := c)) else m)"
  by pat_completeness auto
termination
  by (relation "measure (\<lambda>(dst, c, i, n, m). n - i)") auto

declare memset_loop.simps [simp del]

definition memset :: "mem \<Rightarrow> nat \<Rightarrow> u8 \<Rightarrow> nat \<Rightarrow> mem" where
  "memset m dst c n = memset_loop dst c 0 n m"

fun memcmp :: "mem \<Rightarrow> nat \<Rightarrow> nat \<Rightarrow> nat \<Rightarrow> int" where
  "memcmp m s1 s2 0 = 0"
| "memcmp m s1 s2 (Suc n) =
     (if m s1 \<noteq> m s2 then uint (m s1) - uint (m s2)
      else memcmp m (s1 + 1) (s2 + 1) n)"

text \<open>The two copying loops of \<open>memmove\<close>: \<open>*--d = *--s\<close> and \<open>*d++ = *s++\<close>.\<close>

fun copy_down :: "nat \<Rightarrow> nat \<Rightarrow> nat \<Rightarrow> mem \<Rightarrow> mem" where
  "copy_down d s 0 m = m"
| "copy_down d s (Suc n) m = copy_down (d - 1) (s - 1) n (m(d - 1 := m (s - 1)))"

fun copy_up :: "nat \<Rightarrow> nat \<Rightarrow> nat \<Rightarrow> mem \<Rightarrow> mem" where
  "copy_up d s 0 m = m"
| "copy_up d s (Suc n) m = copy_up (d + 1) (s + 1) n (m(d := m s))"

definition memmove :: "mem \<Rightarrow> nat \<Rightarrow> nat \<Rightarrow> nat \<Rightarrow> mem" where
  "memmove m dst src n =
     (if n = 0 then m
      else if src < dst \<and> src + n > dst then copy_down (dst + n) (src + n) n m
      else copy_up dst src n m)"

definition memcpy :: "mem \<Rightarrow> nat \<Rightarrow> nat \<Rightarrow> nat \<Rightarrow> mem" where
  "memcpy m dst src n = memmove m dst src n"

fun strncmp :: "mem \<Rightarrow> nat \<Rightarrow> nat \<Rightarrow> nat \<Rightarrow> int" where
  "strncmp m p q 0 = 0"
| "strncmp m p q (Suc n) =
     (if m p \<noteq> 0 \<and> m p = m q then strncmp m (p + 1) (q + 1) n
      else uint (m p) - uint (m q))"

text \<open>
  \<open>while(n-- > 0 && (*s++ = *t++) != 0);\<close> ends either because \<open>n\<close> bytes were copied or
  just after copying a NUL; the second loop of \<open>strncpy\<close> then clears what is left.
  \<open>zero_fill\<close> is that second loop.
\<close>

fun zero_fill :: "nat \<Rightarrow> nat \<Rightarrow> mem \<Rightarrow> mem" where
  "zero_fill s 0 m = m"
| "zero_fill s (Suc n) m = zero_fill (s + 1) n (m(s := 0))"

fun strncpy_loop :: "nat \<Rightarrow> nat \<Rightarrow> nat \<Rightarrow> mem \<Rightarrow> mem" where
  "strncpy_loop s t 0 m = m"
| "strncpy_loop s t (Suc n) m =
     (let m' = m(s := m t) in
      if m' s \<noteq> 0 then strncpy_loop (s + 1) (t + 1) n m'
      else zero_fill (s + 1) n m')"

definition strncpy :: "mem \<Rightarrow> nat \<Rightarrow> nat \<Rightarrow> int \<Rightarrow> mem" where
  "strncpy m s t n = strncpy_loop s t (nat n) m"

text \<open>
  \<open>while(--n > 0 && (*s++ = *t++) != 0); *s = 0;\<close>: the argument of \<open>safestrcpy_loop\<close> is
  \<open>n\<close> after the first decrement, the number of bytes that may still be copied.
\<close>

fun safestrcpy_loop :: "nat \<Rightarrow> nat \<Rightarrow> nat \<Rightarrow> mem \<Rightarrow> mem" where
  "safestrcpy_loop s t 0 m = m(s := 0)"
| "safestrcpy_loop s t (Suc n) m =
     (let m' = m(s := m t) in
      if m' s \<noteq> 0 then safestrcpy_loop (s + 1) (t + 1) n m'
      else m'(s + 1 := 0))"

definition safestrcpy :: "mem \<Rightarrow> nat \<Rightarrow> nat \<Rightarrow> int \<Rightarrow> mem" where
  "safestrcpy m s t n = (if n \<le> 0 then m else safestrcpy_loop s t (nat n - 1) m)"

text \<open>
  The counter of \<open>strlen\<close> is a C \<open>int\<close>: a string with no NUL in its first \<open>2 ^ 31\<close> bytes takes
  it past its largest value, which is undefined.
\<close>

function strlen_from :: "mem \<Rightarrow> nat \<Rightarrow> nat \<Rightarrow> int res" where
  "strlen_from m s n =
     (if m (s + n) = 0 then Inr (int n)
      else if n \<ge> 2 ^ 31 - 1 then Inl (Undef ''signed overflow'')
      else strlen_from m s (Suc n))"
  by pat_completeness auto
termination
  by (relation "measure (\<lambda>(m, s, n). 2 ^ 31 - 1 - n)") auto

declare strlen_from.simps [simp del]

definition strlen :: "mem \<Rightarrow> nat \<Rightarrow> int res" where
  "strlen m s = strlen_from m s 0"

text \<open>
  Reference notions. \<open>bytes m a n\<close> is the block of \<open>n\<close> bytes at \<open>a\<close>; \<open>cstr m p n\<close> is the C
  string at \<open>p\<close>, looked at for at most \<open>n\<close> bytes.
\<close>

definition bytes :: "mem \<Rightarrow> nat \<Rightarrow> nat \<Rightarrow> u8 list" where
  "bytes m a n = map (\<lambda>i. m (a + i)) [0..<n]"

fun cstr :: "mem \<Rightarrow> nat \<Rightarrow> nat \<Rightarrow> u8 list" where
  "cstr m p 0 = []"
| "cstr m p (Suc n) = (if m p = 0 then [] else m p # cstr m (p + 1) n)"

section \<open>memset\<close>

lemma memset_loop_eq:
  "i \<le> n \<Longrightarrow> memset_loop dst c i n m a =
     (if dst + i \<le> a \<and> a < dst + n then c else m a)"
proof (induction dst c i n m rule: memset_loop.induct)
  case (1 dst c i n m)
  show ?case
  proof (cases "i < n")
    case True
    with "1.IH" have "memset_loop dst c (Suc i) n (m(dst + i := c)) a =
        (if dst + Suc i \<le> a \<and> a < dst + n then c else (m(dst + i := c)) a)"
      by (simp only: Suc_leI simp_thms)
    with True show ?thesis by (auto simp: memset_loop.simps [of dst c i n m])
  next
    case False
    with "1.prems" show ?thesis
      by (auto simp: memset_loop.simps)
  qed
qed

lemma memset_eq: "memset m dst c n = (\<lambda>a. if dst \<le> a \<and> a < dst + n then c else m a)"
  by (simp add: memset_def memset_loop_eq fun_eq_iff)

lemma bytes_length [simp]: "length (bytes m a n) = n"
  by (simp add: bytes_def)

lemma bytes_nth [simp]: "i < n \<Longrightarrow> bytes m a n ! i = m (a + i)"
  by (simp add: bytes_def)

lemma bytes_memset: "bytes (memset m a c n) a n = replicate n c"
  by (rule nth_equalityI) (simp_all add: memset_eq)

section \<open>memmove\<close>

lemma copy_up_eq:
  assumes "\<not> (src < dst \<and> src + n > dst)"
  shows "copy_up dst src n m a = (if dst \<le> a \<and> a < dst + n then m (src + (a - dst)) else m a)"
  using assms
proof (induction n arbitrary: dst src m)
  case 0
  then show ?case by auto
next
  case (Suc n)
  have "\<not> (src + 1 < dst + 1 \<and> src + 1 + n > dst + 1)"
    using Suc.prems by auto
  then have IH: "copy_up (dst + 1) (src + 1) n (m(dst := m src)) a =
      (if dst + 1 \<le> a \<and> a < dst + 1 + n then (m(dst := m src)) (src + 1 + (a - (dst + 1)))
       else (m(dst := m src)) a)"
    by (rule Suc.IH)
  have "src + 1 + (a - (dst + 1)) = src + (a - dst)" if "dst < a"
    using that by simp
  moreover have "src + (a - dst) \<noteq> dst" if "dst < a" "a < dst + Suc n"
    using that Suc.prems by auto
  ultimately show ?case
    using IH by (auto simp: not_less_eq_eq)
qed

lemma copy_down_eq:
  assumes "src < dst"
  shows "copy_down (dst + n) (src + n) n m a =
           (if dst \<le> a \<and> a < dst + n then m (src + (a - dst)) else m a)"
proof (induction n arbitrary: m)
  case 0
  then show ?case by auto
next
  case (Suc n)
  have IH: "copy_down (dst + n) (src + n) n (m(dst + n := m (src + n))) a =
      (if dst \<le> a \<and> a < dst + n then (m(dst + n := m (src + n))) (src + (a - dst))
       else (m(dst + n := m (src + n))) a)"
    by (rule Suc.IH)
  have "src + (a - dst) \<noteq> dst + n" if "dst \<le> a" "a < dst + n"
    using that assms by auto
  moreover have "a = dst + n" if "\<not> a < dst + n" "a < dst + Suc n"
    using that by simp
  ultimately show ?case
    using IH by auto
qed

lemma memmove_eq:
  "memmove m dst src n = (\<lambda>a. if dst \<le> a \<and> a < dst + n then m (src + (a - dst)) else m a)"
proof (cases "src < dst \<and> src + n > dst")
  case True
  then show ?thesis
    by (auto simp: memmove_def copy_down_eq fun_eq_iff)
next
  case False
  then show ?thesis
    by (auto simp: memmove_def copy_up_eq fun_eq_iff)
qed

lemma bytes_memmove: "bytes (memmove m dst src n) dst n = bytes m src n"
  by (rule nth_equalityI) (simp_all add: memmove_eq)

section \<open>Comparison\<close>

lemma uint_diff_zero [simp]: "uint (a :: u8) = uint b \<longleftrightarrow> a = b"
  by (auto intro: unsigned_word_eqI)

lemma uint_zero [simp]: "uint (a :: u8) = 0 \<longleftrightarrow> a = 0"
  by (simp add: uint_0_iff)

lemma memcmp_zero_iff: "memcmp m a b n = 0 \<longleftrightarrow> (\<forall>i < n. m (a + i) = m (b + i))"
proof (induction n arbitrary: a b)
  case 0
  then show ?case by simp
next
  case (Suc n)
  have "(\<forall>i < Suc n. m (a + i) = m (b + i)) \<longleftrightarrow>
        m a = m b \<and> (\<forall>i < n. m (a + 1 + i) = m (b + 1 + i))"
    by (simp add: All_less_Suc2)
  then show ?case
    by (simp add: Suc.IH)
qed

lemma strncmp_zero_iff: "strncmp m p q n = 0 \<longleftrightarrow> cstr m p n = cstr m q n"
proof (induction n arbitrary: p q)
  case 0
  then show ?case by simp
next
  case (Suc n)
  show ?case
    using Suc.IH [of "p + 1" "q + 1"] by auto
qed

section \<open>strncpy, safestrcpy, strlen\<close>

lemma zero_fill_eq: "zero_fill s n m = (\<lambda>a. if s \<le> a \<and> a < s + n then 0 else m a)"
  by (induction n arbitrary: s m) (auto simp: fun_eq_iff)

lemma cstr_cong:
  "(\<And>i. i < n \<Longrightarrow> m (p + i) = m' (p' + i)) \<Longrightarrow> cstr m p n = cstr m' p' n"
proof (induction n arbitrary: p p')
  case 0
  then show ?case by simp
next
  case (Suc n)
  have "cstr m (p + 1) n = cstr m' (p' + 1) n"
    by (rule Suc.IH) (use Suc.prems [of "Suc _"] in simp)
  with Suc.prems [of 0] show ?case by simp
qed

lemma length_cstr: "length (cstr m p n) \<le> n"
  by (induction n arbitrary: p) auto

lemma cstr_no_nul: "0 \<notin> set (cstr m p n)"
  by (induction n arbitrary: p) auto

text \<open>
  For source and destination that do not overlap, \<open>strncpy\<close> leaves in the \<open>n\<close> bytes at
  \<open>s\<close> the string at \<open>t\<close>, padded with NULs.
\<close>

lemma strncpy_loop_bytes:
  assumes "\<forall>i < n. \<forall>j < n. s + i \<noteq> t + j"
  shows "bytes (strncpy_loop s t n m) s n =
           cstr m t n @ replicate (n - length (cstr m t n)) 0"
    and "a < s \<or> s + n \<le> a \<Longrightarrow> strncpy_loop s t n m a = m a"
proof -
  have "bytes (strncpy_loop s t n m) s n =
          cstr m t n @ replicate (n - length (cstr m t n)) 0 \<and>
        (\<forall>a. a < s \<or> s + n \<le> a \<longrightarrow> strncpy_loop s t n m a = m a)"
    using assms
  proof (induction n arbitrary: s t m)
    case 0
    then show ?case by (simp add: bytes_def)
  next
    case (Suc n)
    let ?m = "m(s := m t)"
    have disj: "\<forall>i < n. \<forall>j < n. (s + 1) + i \<noteq> (t + 1) + j"
      using Suc.prems by auto
    have ne: "t + 1 + i \<noteq> s" if "i < n" for i
      using Suc.prems [rule_format, of 0 "Suc i"] that by simp
    have split: "bytes f s (Suc n) = f s # bytes f (s + 1) n" for f :: mem
      by (rule nth_equalityI) (auto simp: nth_Cons split: nat.split)
    show ?case
    proof (cases "m t = 0")
      case True
      have "bytes (zero_fill (s + 1) n ?m) (s + 1) n = replicate n 0"
        by (rule nth_equalityI) (simp_all add: zero_fill_eq)
      with True show ?thesis
        by (auto simp: split zero_fill_eq)
    next
      case False
      have cs: "cstr ?m (t + 1) n = cstr m (t + 1) n"
        by (rule cstr_cong) (use ne in auto)
      have "bytes (strncpy_loop (s + 1) (t + 1) n ?m) (s + 1) n =
              cstr ?m (t + 1) n @ replicate (n - length (cstr ?m (t + 1) n)) 0 \<and>
            (\<forall>a. a < s + 1 \<or> s + 1 + n \<le> a \<longrightarrow> strncpy_loop (s + 1) (t + 1) n ?m a = ?m a)"
        by (rule Suc.IH [OF disj])
      with False cs show ?thesis
        by (auto simp: split)
    qed
  qed
  then show "bytes (strncpy_loop s t n m) s n =
           cstr m t n @ replicate (n - length (cstr m t n)) 0"
    and "a < s \<or> s + n \<le> a \<Longrightarrow> strncpy_loop s t n m a = m a"
    by auto
qed

lemma safestrcpy_loop_cstr:
  assumes "\<forall>i \<le> n. \<forall>j \<le> n. s + i \<noteq> t + j"
  shows "cstr (safestrcpy_loop s t n m) s (Suc n) = cstr m t n"
    and "a < s \<or> s + n < a \<Longrightarrow> safestrcpy_loop s t n m a = m a"
proof -
  have "cstr (safestrcpy_loop s t n m) s (Suc n) = cstr m t n \<and>
        (\<forall>a. a < s \<or> s + n < a \<longrightarrow> safestrcpy_loop s t n m a = m a)"
    using assms
  proof (induction n arbitrary: s t m)
    case 0
    then show ?case by simp
  next
    case (Suc n)
    let ?m = "m(s := m t)"
    have disj: "\<forall>i \<le> n. \<forall>j \<le> n. (s + 1) + i \<noteq> (t + 1) + j"
      using Suc.prems by auto
    have ne: "t + 1 + i \<noteq> s" if "i < n" for i
      using Suc.prems [rule_format, of 0 "Suc i"] that by simp
    have cs: "cstr ?m (t + 1) n = cstr m (t + 1) n"
      by (rule cstr_cong) (use ne in auto)
    have "cstr (safestrcpy_loop (s + 1) (t + 1) n ?m) (s + 1) (Suc n) = cstr ?m (t + 1) n \<and>
        (\<forall>a. a < s + 1 \<or> s + 1 + n < a \<longrightarrow> safestrcpy_loop (s + 1) (t + 1) n ?m a = ?m a)"
      by (rule Suc.IH [OF disj])
    with cs show ?case
      by (auto simp del: cstr.simps simp: cstr.simps(2) [of _ s] cstr.simps(2) [of m t])
  qed
  then show "cstr (safestrcpy_loop s t n m) s (Suc n) = cstr m t n"
    and "a < s \<or> s + n < a \<Longrightarrow> safestrcpy_loop s t n m a = m a"
    by auto
qed

lemma strlen_from_ends:
  assumes "m (s + n + k) = 0" "\<forall>i < k. m (s + n + i) \<noteq> 0" "n + k < 2 ^ 31"
  shows "strlen_from m s n = Inr (int (n + k))"
  using assms
proof (induction k arbitrary: n)
  case 0
  then show ?case by (simp add: strlen_from.simps)
next
  case (Suc k)
  from Suc.prems(2) have "m (s + n) \<noteq> 0" by auto
  moreover have "strlen_from m s (Suc n) = Inr (int (Suc n + k))"
    by (rule Suc.IH) (use Suc.prems in \<open>auto simp: less_Suc_eq_0_disj\<close>)
  ultimately show ?case using Suc.prems(3) by (simp add: strlen_from.simps [of m s n])
qed

lemma strlen_from_overflow:
  "\<forall>i < 2 ^ 31. m (s + i) \<noteq> 0 \<Longrightarrow> n < 2 ^ 31 \<Longrightarrow> strlen_from m s n = Inl (Undef ''signed overflow'')"
proof (induction m s n rule: strlen_from.induct)
  case (1 m s n)
  then show ?case by (cases "n \<ge> 2 ^ 31 - 1") (auto simp: strlen_from.simps [of m s n])
qed

lemma length_cstr_eq:
  assumes "m (p + k) = 0" and "\<forall>i < k. m (p + i) \<noteq> 0" and "k \<le> n"
  shows "length (cstr m p n) = k"
  using assms
proof (induction k arbitrary: p n)
  case 0
  then show ?case by (cases n) auto
next
  case (Suc k)
  from Suc.prems obtain n' where n: "n = Suc n'" by (cases n) auto
  have "length (cstr m (p + 1) n') = k"
    by (rule Suc.IH) (use Suc.prems n in \<open>auto simp: less_Suc_eq_0_disj\<close>)
  with Suc.prems n show ?case by auto
qed

section \<open>Properties\<close>

text \<open>
  C34: \<open>memmove\<close> copies \<open>n\<close> bytes from \<open>src\<close> to \<open>dst\<close> and changes nothing else, whatever the
  overlap of the two ranges: byte \<open>dst + i\<close> of the result is byte \<open>src + i\<close> of the memory
  before the call.
\<close>
theorem memmove_overlap_safe:
  "memmove m dst src n = (\<lambda>a. if dst \<le> a \<and> a < dst + n then m (src + (a - dst)) else m a)"
  by (rule memmove_eq)

text \<open>
  C35: \<open>safestrcpy\<close> into a buffer that does not overlap its source: the buffer then holds the
  source cut to \<open>n - 1\<close> bytes and terminated by a NUL inside the buffer, bytes outside the
  \<open>n\<close> of the buffer keep their value, and with a size that is not positive nothing is
  written.
\<close>
theorem safestrcpy_bounded:
  assumes "\<forall>i < n. \<forall>j < n. s + i \<noteq> t + j"
  shows "(0 < n \<longrightarrow> cstr (safestrcpy m s t (int n)) s n = cstr m t (n - 1) \<and>
            length (cstr (safestrcpy m s t (int n)) s n) < n) \<and>
         (\<forall>a. a < s \<or> s + n \<le> a \<longrightarrow> safestrcpy m s t (int n) a = m a) \<and>
         safestrcpy m s t (- int n) = m"
proof -
  have eq: "safestrcpy m s t (int n) = safestrcpy_loop s t (n - 1) m" if "0 < n"
    using that by (simp add: safestrcpy_def)
  have *: "cstr (safestrcpy m s t (int n)) s n = cstr m t (n - 1)" if "0 < n"
    using safestrcpy_loop_cstr(1) [of "n - 1" s t m] assms that
    unfolding eq [OF that] by (simp add: Suc_diff_1 flip: less_Suc_eq_le)
  moreover have "length (cstr (safestrcpy m s t (int n)) s n) < n" if "0 < n"
    unfolding * [OF that] using length_cstr [of m t "n - 1"] that by linarith
  moreover have "safestrcpy m s t (int n) a = m a" if "a < s \<or> s + n \<le> a" for a
    using safestrcpy_loop_cstr(2) [of "n - 1" s t a m] assms that eq
    by (cases n) (auto simp: safestrcpy_def less_Suc_eq_le simp del: of_nat_Suc)
  moreover have "safestrcpy m s t (- int n) = m"
    by (simp add: safestrcpy_def)
  ultimately show ?thesis by blast
qed

theorem safestrcpy_bounded_witness:
  "cstr (safestrcpy (\<lambda>a. of_nat a) 100 1 (int 4)) 100 4 = cstr (\<lambda>a. of_nat a) 1 3"
  using safestrcpy_bounded [of 4 100 1 "\<lambda>a. of_nat a"] by simp

text \<open>
  C36: \<open>strlen\<close> returns the index of the first NUL of the string, if that fits its \<open>int\<close>
  counter; on a string of at least \<open>2 ^ 31\<close> bytes the counter overflows. In both cases the loop ends.
\<close>
theorem strlen_spec:
  "strlen m s =
     (if \<exists>i < 2 ^ 31. m (s + i) = 0 then Inr (int (LEAST i. m (s + i) = 0))
      else Inl (Undef ''signed overflow''))"
proof (cases "\<exists>i < 2 ^ 31. m (s + i) = 0")
  case True
  then obtain i where i: "i < 2 ^ 31" "m (s + i) = 0" by blast
  let ?k = "LEAST i. m (s + i) = 0"
  have "m (s + ?k) = 0" "?k \<le> i" using i(2) by (rule LeastI, rule Least_le)
  moreover have "\<forall>i < ?k. m (s + i) \<noteq> 0" by (auto dest: not_less_Least)
  ultimately have "strlen m s = Inr (int ?k)"
    using strlen_from_ends [of m s 0 ?k] i(1) by (simp add: strlen_def)
  with True show ?thesis by simp
next
  case False
  then show ?thesis using strlen_from_overflow [of m s 0] by (simp add: strlen_def)
qed

end
