(* ===== verification/Riscv.thy ===== *)
theory Riscv
  imports Cstring
begin

text \<open>
  The macros of kernel/riscv.h and kernel/memlayout.h on 64-bit words, and little-endian
  access to memory. Page-table entries and the pointers of the page allocator's free list
  live in memory, so they are read and written through \<open>load64\<close> and \<open>store64\<close>.
\<close>

section \<open>Constants and macros\<close>

definition PGSIZE :: nat where "PGSIZE = 4096"
definition KERNBASE :: nat where "KERNBASE = 0x80000000"
definition PHYSTOP :: nat where "PHYSTOP = KERNBASE + 128 * 1024 * 1024"
definition MAXVA :: u64 where "MAXVA = push_bit (9 + 9 + 9 + 12 - 1) 1"
definition TRAMPOLINE :: u64 where "TRAMPOLINE = MAXVA - 4096"
definition TRAPFRAME :: u64 where "TRAPFRAME = TRAMPOLINE - 4096"

definition KSTACK :: "u64 \<Rightarrow> u64" where
  "KSTACK p = TRAMPOLINE - (p + 1) * 2 * 4096"

definition PGROUNDUP :: "u64 \<Rightarrow> u64" where
  "PGROUNDUP sz = (sz + 4096 - 1) AND NOT (4096 - 1)"

definition PGROUNDDOWN :: "u64 \<Rightarrow> u64" where
  "PGROUNDDOWN a = a AND NOT (4096 - 1)"

definition PTE_V :: u64 where "PTE_V = push_bit 0 1"
definition PTE_R :: u64 where "PTE_R = push_bit 1 1"
definition PTE_W :: u64 where "PTE_W = push_bit 2 1"
definition PTE_X :: u64 where "PTE_X = push_bit 3 1"
definition PTE_U :: u64 where "PTE_U = push_bit 4 1"

definition PA2PTE :: "u64 \<Rightarrow> u64" where "PA2PTE pa = push_bit 10 (drop_bit 12 pa)"
definition PTE2PA :: "u64 \<Rightarrow> u64" where "PTE2PA pte = push_bit 12 (drop_bit 10 pte)"
definition PTE_FLAGS :: "u64 \<Rightarrow> u64" where "PTE_FLAGS pte = pte AND 0x3FF"

definition PXSHIFT :: "nat \<Rightarrow> nat" where "PXSHIFT level = 12 + 9 * level"
definition PX :: "nat \<Rightarrow> u64 \<Rightarrow> u64" where "PX level va = drop_bit (PXSHIFT level) va AND 0x1FF"

definition UART0 :: u64 where "UART0 = 0x10000000"
definition VIRTIO0 :: u64 where "VIRTIO0 = 0x10001000"
definition PLIC :: u64 where "PLIC = 0x0c000000"

definition MAKE_SATP :: "u64 \<Rightarrow> u64" where
  "MAKE_SATP pagetable = push_bit 60 8 OR drop_bit 12 pagetable"

lemmas riscv_consts =
  PGSIZE_def KERNBASE_def PHYSTOP_def MAXVA_def TRAMPOLINE_def TRAPFRAME_def
  PTE_V_def PTE_R_def PTE_W_def PTE_X_def PTE_U_def

section \<open>Little-endian memory access\<close>

definition le_load :: "mem \<Rightarrow> nat \<Rightarrow> nat \<Rightarrow> nat" where
  "le_load m a n = (\<Sum>i<n. unat (m (a + i)) * 256 ^ i)"

definition le_store :: "mem \<Rightarrow> nat \<Rightarrow> nat \<Rightarrow> nat \<Rightarrow> mem" where
  "le_store m a n v =
     (\<lambda>x. if a \<le> x \<and> x < a + n then of_nat (v div 256 ^ (x - a)) else m x)"

definition load64 :: "mem \<Rightarrow> nat \<Rightarrow> u64" where
  "load64 m a = of_nat (le_load m a 8)"

definition store64 :: "mem \<Rightarrow> nat \<Rightarrow> u64 \<Rightarrow> mem" where
  "store64 m a v = le_store m a 8 (unat v)"

lemma digit_sum: "(\<Sum>i<n. (v div b ^ i mod b) * b ^ i) = v mod (b ^ n)" for v b :: nat
proof (induction n)
  case 0
  then show ?case by simp
next
  case (Suc n)
  have "v mod b ^ Suc n = b ^ n * (v div b ^ n mod b) + v mod b ^ n"
    using mod_mult2_eq [of v "b ^ n" b] by (simp add: mult.commute)
  with Suc show ?case by (simp add: mult.commute)
qed

lemma le_load_store: "le_load (le_store m a n v) a n = v mod 256 ^ n"
proof -
  have "le_load (le_store m a n v) a n = (\<Sum>i<n. (v div 256 ^ i mod 256) * 256 ^ i)"
    by (simp add: le_load_def le_store_def unat_of_nat)
  then show ?thesis by (simp add: digit_sum)
qed

lemma le_load_cong: "(\<And>i. i < n \<Longrightarrow> m (a + i) = m' (a + i)) \<Longrightarrow> le_load m a n = le_load m' a n"
  by (simp add: le_load_def)

lemma le_load_store_other:
  "a + n \<le> b \<or> b + k \<le> a \<Longrightarrow> le_load (le_store m b k v) a n = le_load m a n"
  by (rule le_load_cong) (auto simp: le_store_def)

lemma load64_store64 [simp]: "load64 (store64 m a v) a = v"
proof -
  have "unat v < 256 ^ 8" using unsigned_less [of v] by simp
  then show ?thesis
    by (simp add: load64_def store64_def le_load_store)
qed

lemma load64_store64_other:
  "a + 8 \<le> b \<or> b + 8 \<le> a \<Longrightarrow> load64 (store64 m b v) a = load64 m a"
  by (simp add: load64_def store64_def le_load_store_other)

lemma load64_cong: "(\<And>i. i < 8 \<Longrightarrow> m (a + i) = m' (a + i)) \<Longrightarrow> load64 m a = load64 m' a"
  by (simp add: load64_def cong: le_load_cong)

lemma load64_memset_other:
  "a + 8 \<le> p \<or> p + n \<le> a \<Longrightarrow> load64 (memset m p c n) a = load64 m a"
  by (rule load64_cong) (auto simp: memset_eq)

lemma load64_memset_zero:
  "p \<le> a \<Longrightarrow> a + 8 \<le> p + n \<Longrightarrow> load64 (memset m p 0 n) a = 0"
  by (simp add: load64_def le_load_def memset_eq)

lemma store64_other: "x < a \<or> a + 8 \<le> x \<Longrightarrow> store64 m a v x = m x"
  by (auto simp: store64_def le_store_def)

section \<open>Rounding\<close>

lemma mask12: "(4096 - 1 :: u64) = mask 12"
  by (simp add: mask_eq_exp_minus_1)

lemma PGROUNDDOWN_shift: "PGROUNDDOWN a = push_bit 12 (drop_bit 12 a)"
  unfolding PGROUNDDOWN_def mask12
  by (rule bit_word_eqI) (auto simp: bit_simps)

lemma take_bit_unat64 [simp]: "take_bit 64 (unat (a :: u64)) = unat a"
proof -
  have "unat a < 2 ^ 64" using unsigned_less [where 'a = nat, of a] by simp
  then show ?thesis by (simp add: take_bit_nat_eq_self)
qed

lemma unat_shift_pair: "unat (push_bit n (drop_bit n (a :: u64))) = unat a div 2 ^ n * 2 ^ n"
proof -
  have "unat a div 2 ^ n * 2 ^ n \<le> unat a" by simp
  also have "unat a < 2 ^ 64" using unsigned_less [of a] by simp
  finally have lt: "unat a div 2 ^ n * 2 ^ n < 2 ^ 64" .
  have "unat (push_bit n (drop_bit n a)) = take_bit 64 (push_bit n (drop_bit n (unat a)))"
    by (simp add: unsigned_push_bit_eq unsigned_drop_bit_eq)
  also have "\<dots> = unat a div 2 ^ n * 2 ^ n"
    using lt by (simp add: take_bit_eq_mod push_bit_eq_mult drop_bit_eq_div)
  finally show ?thesis .
qed

lemma unat_PGROUNDDOWN: "unat (PGROUNDDOWN a) = unat a div PGSIZE * PGSIZE"
  using unat_shift_pair [of 12 a] by (simp add: PGROUNDDOWN_shift PGSIZE_def)

lemma PGROUNDDOWN_le: "PGROUNDDOWN a \<le> a"
  by (simp add: word_le_nat_alt unat_PGROUNDDOWN)

lemma PGROUNDDOWN_aligned: "unat (PGROUNDDOWN a) mod PGSIZE = 0"
  by (simp add: unat_PGROUNDDOWN)

lemma unat_off: "unat (a - PGROUNDDOWN a) = unat a mod PGSIZE"
  by (simp add: unat_sub_le [OF PGROUNDDOWN_le] unat_PGROUNDDOWN minus_div_mult_eq_mod)

lemma PGROUNDUP_alt: "PGROUNDUP sz = PGROUNDDOWN (sz + 4095)"
  by (simp add: PGROUNDUP_def PGROUNDDOWN_def add.commute)

lemma unat_PGROUNDUP:
  assumes "unat sz + 4095 < 2 ^ 64"
  shows "unat (PGROUNDUP sz) = (unat sz + 4095) div PGSIZE * PGSIZE"
proof -
  have "unat (sz + 4095) = unat sz + 4095"
    using assms by (subst unat_add_lem [THEN iffD1]) auto
  then show ?thesis by (simp add: PGROUNDUP_alt unat_PGROUNDDOWN)
qed

lemma PGROUNDUP_ge: "unat sz + 4095 < 2 ^ 64 \<Longrightarrow> unat sz \<le> unat (PGROUNDUP sz)"
  by (simp add: unat_PGROUNDUP PGSIZE_def)

section \<open>Page-table entries\<close>

text \<open>
  A physical page address survives being packed into an entry with any flags: the flags
  are the low 10 bits, the page number the bits above.
\<close>

lemma PTE2PA_pack:
  assumes "unat pa mod PGSIZE = 0" "unat pa < 2 ^ 56" "flags AND NOT 0x3FF = 0"
  shows "PTE2PA (PA2PTE pa OR flags) = pa"
proof (rule bit_word_eqI)
  fix n assume n: "n < LENGTH(64)"
  have "take_bit 12 (unat pa) = 0"
    using assms(1) by (simp add: take_bit_eq_mod PGSIZE_def)
  then have "take_bit 12 pa = 0"
    by (metis unat_eq_zero unsigned_take_bit_eq)
  then have lo: "bit pa k = False" if "k < 12" for k
    by (metis bit_0_eq bit_take_bit_iff bot_apply bot_bool_def that)
  have "take_bit 56 (unat pa) = unat pa"
    using assms(2) by (simp add: take_bit_nat_eq_self)
  then have "take_bit 56 pa = pa"
    by (metis unsigned_take_bit_eq unsigned_word_eqI)
  then have hi: "bit pa k = False" if "56 \<le> k" for k
    by (metis bit_take_bit_iff leD that)
  have m: "(0x3FF :: u64) = mask 10"
    by (simp add: mask_eq_exp_minus_1)
  have fl: "bit flags k = False" if "10 \<le> k" for k
  proof -
    have "\<not> bit (flags AND NOT (mask 10)) k"
      using assms(3) by (simp add: m)
    with that show ?thesis
      by (cases "k < 64") (auto simp: bit_simps dest: bit_imp_le_length)
  qed
  show "bit (PTE2PA (PA2PTE pa OR flags)) n = bit pa n"
  proof (cases "n < 12")
    case True
    with lo show ?thesis by (simp add: PTE2PA_def bit_simps)
  next
    case False
    then have "10 + (n - 12) = n - 2" "12 + (n - 12) = n" by auto
    with n False hi [of n] fl [of "n - 2"] show ?thesis
      by (cases "56 \<le> n") (auto simp: PTE2PA_def PA2PTE_def bit_simps)
  qed
qed

lemma flags_of_pack:
  assumes "flags AND NOT 0x3FF = 0"
  shows "(PA2PTE pa OR flags) AND 0x3FF = flags"
proof (rule bit_word_eqI)
  fix n assume n: "n < LENGTH(64)"
  have m: "(0x3FF :: u64) = mask 10"
    by (simp add: mask_eq_exp_minus_1)
  have "\<not> bit (flags AND NOT (mask 10)) n"
    using assms by (simp add: m)
  with n show "bit ((PA2PTE pa OR flags) AND 0x3FF) n = bit flags n"
    unfolding m by (auto simp: PA2PTE_def bit_simps)
qed

lemma PX_lt: "unat (PX l va) < 512"
proof -
  have "PX l va \<le> 0x1FF" by (simp add: PX_def word_and_le1)
  then have "unat (PX l va) \<le> unat (0x1FF :: u64)" by (simp only: word_le_nat_alt)
  then show ?thesis by simp
qed

text \<open>
  The three indices and the page offset determine a virtual address below \<open>MAXVA\<close>: two
  pages with the same indices are the same page.
\<close>

lemma unat_PX: "unat (PX l va) = unat va div 2 ^ (12 + 9 * l) mod 512"
proof -
  have m: "(0x1FF :: u64) = mask 9"
    by (simp add: mask_eq_exp_minus_1)
  have "unat (PX l va) = take_bit 9 (drop_bit (12 + 9 * l) (unat va))"
    by (simp add: PX_def PXSHIFT_def m unsigned_drop_bit_eq unsigned_take_bit_eq
        flip: take_bit_eq_mask)
  then show ?thesis
    by (simp add: take_bit_eq_mod drop_bit_eq_div)
qed

lemma unat_MAXVA: "unat MAXVA = 2 ^ 38"
  by (simp add: MAXVA_def)

lemma page_index:
  assumes "va < MAXVA"
  shows "unat va div PGSIZE =
    unat (PX 2 va) * 2 ^ 18 + unat (PX 1 va) * 2 ^ 9 + unat (PX 0 va)"
proof -
  let ?q = "unat va div 4096"
  have "unat va < 2 ^ 38"
    using assms unat_MAXVA by (simp add: word_less_nat_alt)
  then have q: "?q < 2 ^ 26" by (simp add: less_mult_imp_div_less)
  have "?q = ?q div 512 * 512 + ?q mod 512"
    and "?q div 512 = ?q div 512 div 512 * 512 + ?q div 512 mod 512"
    by (simp_all only: div_mult_mod_eq)
  then have "?q = ?q div 512 div 512 * 262144 + ?q div 512 mod 512 * 512 + ?q mod 512"
    by linarith
  then have "?q = ?q div 262144 * 262144 + ?q div 512 mod 512 * 512 + ?q mod 512"
    by (simp only: div_mult2_eq [of ?q 512 512, simplified])
  moreover have "?q div 262144 mod 512 = ?q div 262144"
    using q by (simp add: less_mult_imp_div_less)
  ultimately show ?thesis
    by (simp add: PGSIZE_def unat_PX div_mult2_eq [symmetric])
qed

lemma same_indices_same_page:
  assumes "va < MAXVA" "vb < MAXVA" "PX 2 va = PX 2 vb" "PX 1 va = PX 1 vb" "PX 0 va = PX 0 vb"
  shows "PGROUNDDOWN va = PGROUNDDOWN vb"
proof -
  have "unat va div PGSIZE = unat vb div PGSIZE"
    using assms by (simp add: page_index)
  then have "unat (PGROUNDDOWN va) = unat (PGROUNDDOWN vb)"
    by (simp add: unat_PGROUNDDOWN)
  then show ?thesis by (rule unsigned_word_eqI)
qed

end
