(* ===== verification/Kalloc.thy ===== *)
theory Kalloc
  imports Riscv Spinlock "HOL-Library.Multiset"
begin

text \<open>
  The physical page allocator, kernel/kalloc.c. Free pages form a linked list that lives in
  the free pages themselves: the first eight bytes of a free page hold the address of the
  next one. \<open>kmem\<close> is the C variable of that name together with the memory it manages;
  \<open>kend\<close> is the linker symbol \<open>end\<close>, the first address after the kernel image.

  The invariant \<open>kmem_ok\<close> says that the list starting at \<open>freelist\<close> is a null-terminated
  list of distinct, aligned pages of managed memory; \<open>pages\<close> is its abstraction to an HOL
  list. The locale \<open>page_allocator\<close> is the contract that the page-table code relies on.
\<close>

section \<open>Definitions\<close>

record kmem =
  kmlock :: bool
  freelist :: nat
  kend :: nat
  ram :: mem

definition kfree :: "nat \<Rightarrow> kmem \<Rightarrow> kmem res" where
  "kfree pa k =
     (if pa mod PGSIZE \<noteq> 0 \<or> pa < kend k \<or> pa \<ge> PHYSTOP then Inl (Panic ''kfree'')
      else
        let k = k\<lparr>ram := memset (ram k) pa 1 PGSIZE\<rparr> in
        rbind (spin_acquire (kmlock k)) (\<lambda>h.
        let k = k\<lparr>ram := store64 (ram k) pa (of_nat (freelist k)), freelist := pa\<rparr> in
        rbind (spin_release h) (\<lambda>h.
        Inr (k\<lparr>kmlock := h\<rparr>))))"

definition kalloc :: "kmem \<Rightarrow> (nat \<times> kmem) res" where
  "kalloc k =
     rbind (spin_acquire (kmlock k)) (\<lambda>h.
     let r = freelist k;
         k = (if r \<noteq> 0 then k\<lparr>freelist := unat (load64 (ram k) r)\<rparr> else k) in
     rbind (spin_release h) (\<lambda>h.
     let k = k\<lparr>kmlock := h\<rparr> in
     Inr (r, if r \<noteq> 0 then k\<lparr>ram := memset (ram k) r 5 PGSIZE\<rparr> else k)))"

function freerange_loop :: "nat \<Rightarrow> nat \<Rightarrow> kmem \<Rightarrow> kmem res" where
  "freerange_loop p pa_end k =
     (if p + PGSIZE \<le> pa_end
      then rbind (kfree p k) (freerange_loop (p + PGSIZE) pa_end)
      else Inr k)"
  by pat_completeness auto
termination
  by (relation "measure (\<lambda>(p, pa_end, k). pa_end - p)") (auto simp: PGSIZE_def)

declare freerange_loop.simps [simp del]

definition freerange :: "nat \<Rightarrow> nat \<Rightarrow> kmem \<Rightarrow> kmem res" where
  "freerange pa_start pa_end k =
     freerange_loop (unat (PGROUNDUP (of_nat pa_start))) pa_end k"

definition kinit :: "kmem \<Rightarrow> kmem res" where
  "kinit k = freerange (kend k) PHYSTOP (k\<lparr>kmlock := False\<rparr>)"

section \<open>The free list\<close>

text \<open>\<open>run_list m p ps\<close>: following \<open>next\<close> from \<open>p\<close> meets exactly the pages \<open>ps\<close>, then null.\<close>

fun run_list :: "mem \<Rightarrow> nat \<Rightarrow> nat list \<Rightarrow> bool" where
  "run_list m p [] \<longleftrightarrow> p = 0"
| "run_list m p (q # qs) \<longleftrightarrow> p = q \<and> q \<noteq> 0 \<and> run_list m (unat (load64 m q)) qs"

text \<open>A page that \<open>kfree\<close> accepts.\<close>

definition managed :: "nat \<Rightarrow> nat \<Rightarrow> bool" where
  "managed e pa \<longleftrightarrow> pa mod PGSIZE = 0 \<and> e \<le> pa \<and> pa < PHYSTOP"

definition kmem_ok :: "kmem \<Rightarrow> nat list \<Rightarrow> bool" where
  "kmem_ok k ps \<longleftrightarrow> \<not> kmlock k \<and> 0 < kend k \<and> run_list (ram k) (freelist k) ps \<and>
     distinct ps \<and> (\<forall>p \<in> set ps. managed (kend k) p)"

lemma run_list_unique: "run_list m p ps \<Longrightarrow> run_list m p qs \<Longrightarrow> ps = qs"
proof (induction ps arbitrary: p qs)
  case Nil
  then show ?case by (cases qs) auto
next
  case (Cons a ps)
  then show ?case by (cases qs) auto
qed

lemma run_list_cong:
  "(\<And>q. q \<in> set ps \<Longrightarrow> load64 m' q = load64 m q) \<Longrightarrow> run_list m' p ps = run_list m p ps"
  by (induction ps arbitrary: p) auto

lemma managed_apart:
  assumes "managed e p" "managed e q" "p \<noteq> q"
  shows "p + PGSIZE \<le> q \<or> q + PGSIZE \<le> p"
proof -
  obtain i j where ij: "p = PGSIZE * i" "q = PGSIZE * j"
    using assms(1,2) unfolding managed_def by (auto elim!: dvdE simp: mod_eq_0_iff_dvd)
  then have "i \<noteq> j" using assms(3) by auto
  then have "Suc i \<le> j \<or> Suc j \<le> i" by auto
  then have "PGSIZE * Suc i \<le> PGSIZE * j \<or> PGSIZE * Suc j \<le> PGSIZE * i"
    by (meson mult_le_mono2)
  with ij show ?thesis by auto
qed

lemma managed_word: "managed e p \<Longrightarrow> unat (of_nat p :: u64) = p"
  by (rule unat_of_nat_small) (simp add: managed_def PHYSTOP_def KERNBASE_def)

text \<open>Memory outside one page.\<close>

definition same_outside :: "nat \<Rightarrow> mem \<Rightarrow> mem \<Rightarrow> bool" where
  "same_outside p m m' \<longleftrightarrow> (\<forall>a. a < p \<or> p + PGSIZE \<le> a \<longrightarrow> m' a = m a)"

lemma same_outside_memset: "same_outside p m (memset m p c PGSIZE)"
  by (auto simp: same_outside_def memset_eq)

lemma same_outside_load64:
  "same_outside p m m' \<Longrightarrow> a + 8 \<le> p \<or> p + PGSIZE \<le> a \<Longrightarrow> load64 m' a = load64 m a"
  by (rule load64_cong) (auto simp: same_outside_def)

lemma run_list_outside:
  assumes "same_outside p m m'" "managed e p" "\<forall>q \<in> set ps. managed e q" "p \<notin> set ps"
  shows "run_list m' a ps = run_list m a ps"
proof (rule run_list_cong)
  fix q assume "q \<in> set ps"
  with assms have "q + PGSIZE \<le> p \<or> p + PGSIZE \<le> q"
    by (intro managed_apart [of e]) auto
  with assms(1) show "load64 m' q = load64 m q"
    by (intro same_outside_load64) (auto simp: PGSIZE_def)
qed

section \<open>Operations\<close>

lemma kfree_panic: "\<not> managed (kend k) pa \<Longrightarrow> kfree pa k = Inl (Panic ''kfree'')"
  by (auto simp: kfree_def managed_def)

lemma kfree_eq:
  "managed (kend k) pa \<Longrightarrow> \<not> kmlock k \<Longrightarrow>
     kfree pa k = Inr (k\<lparr>kmlock := False, freelist := pa,
       ram := store64 (memset (ram k) pa 1 PGSIZE) pa (of_nat (freelist k))\<rparr>)"
  by (auto simp: kfree_def managed_def Let_def)

lemma kalloc_eq:
  "\<not> kmlock k \<Longrightarrow>
     kalloc k = Inr (if freelist k = 0 then (0, k\<lparr>kmlock := False\<rparr>) else
       (freelist k, k\<lparr>kmlock := False, freelist := unat (load64 (ram k) (freelist k)),
         ram := memset (ram k) (freelist k) 5 PGSIZE\<rparr>))"
  by (auto simp: kalloc_def Let_def)

lemma run_list_head: "run_list m p ps \<Longrightarrow> p = 0 \<longleftrightarrow> ps = []"
  by (cases ps) auto

lemma kfree_ok:
  assumes "kmem_ok k ps" "managed (kend k) pa" "pa \<notin> set ps"
  obtains k' where "kfree pa k = Inr k'" "kmem_ok k' (pa # ps)" "kend k' = kend k"
    "same_outside pa (ram k) (ram k')"
proof -
  let ?m = "store64 (memset (ram k) pa 1 PGSIZE) pa (of_nat (freelist k))"
  let ?k = "k\<lparr>kmlock := False, freelist := pa, ram := ?m\<rparr>"
  have k: "\<not> kmlock k" "0 < kend k" "run_list (ram k) (freelist k) ps" "distinct ps"
      "\<forall>p \<in> set ps. managed (kend k) p"
    using assms(1) by (auto simp: kmem_ok_def)
  have fl: "unat (of_nat (freelist k) :: u64) = freelist k"
    using k(3,5) managed_word by (cases ps) auto
  have out: "same_outside pa (ram k) ?m"
    by (auto simp: same_outside_def memset_eq store64_other PGSIZE_def)
  have "run_list ?m (freelist k) ps"
    using run_list_outside [OF out assms(2) k(5) assms(3)] k(3) by simp
  moreover have "pa \<noteq> 0" using assms(2) k(2) by (simp add: managed_def)
  ultimately have "kmem_ok ?k (pa # ps)"
    using k assms(2,3) fl by (simp add: kmem_ok_def)
  then show ?thesis
    using that [of ?k] kfree_eq [OF assms(2) k(1)] out by simp
qed

text \<open>Freeing a page of the list again links it to the old head, in front of it: a cycle.\<close>

lemma run_list_append:
  "run_list m p (xs @ ys) \<Longrightarrow> \<exists>q. run_list m q ys"
  by (induction xs arbitrary: p) auto

lemma run_list_cycle:
  assumes "run_list m p (p # xs)" "p \<in> set xs"
  shows False
proof -
  obtain as bs where xs: "xs = as @ p # bs" using split_list [OF assms(2)] by blast
  then obtain q where "run_list m q (p # bs)" using run_list_append [of m p "p # as" "p # bs"] assms(1) by auto
  then have "run_list m p (p # bs)" by simp
  from run_list_unique [OF assms(1) this] xs show False by (auto dest: arg_cong [of _ _ length])
qed

lemma run_list_until:
  assumes "run_list m f (xs @ pa # ys)" "same_outside pa m m'" "managed e pa" "\<forall>q \<in> set xs. managed e q"
    "pa \<notin> set xs" "run_list m' f qs"
  shows "pa \<in> set qs"
  using assms(1,4-6)
proof (induction xs arbitrary: f qs)
  case Nil
  then show ?case by (cases qs) auto
next
  case (Cons x xs)
  have f: "f = x" "x \<noteq> 0" using Cons.prems(1) by auto
  obtain rs where q: "qs = x # rs" "run_list m' (unat (load64 m' x)) rs"
    using Cons.prems(4) f by (cases qs) auto
  have "x + PGSIZE \<le> pa \<or> pa + PGSIZE \<le> x"
    using Cons.prems assms(3) by (intro managed_apart [of e]) auto
  then have "load64 m' x = load64 m x"
    by (intro same_outside_load64 [OF assms(2)]) (auto simp: PGSIZE_def)
  with Cons.IH [of "unat (load64 m x)" rs] Cons.prems q show ?case by auto
qed

lemma kfree_twice:
  assumes k: "kmem_ok k ps" and pa: "pa \<in> set ps" and so: "same_outside pa (ram k) m'"
    and ld: "unat (load64 m' pa) = freelist k"
  shows "\<not> run_list m' pa qs"
proof
  assume r: "run_list m' pa qs"
  have kk: "run_list (ram k) (freelist k) ps" "distinct ps" "\<forall>p \<in> set ps. managed (kend k) p" "0 < kend k"
    using k by (auto simp: kmem_ok_def)
  obtain xs ys where ps: "ps = xs @ pa # ys" "pa \<notin> set xs" using split_list_first [OF pa] by blast
  have "pa \<noteq> 0" using kk(3,4) pa by (auto simp: managed_def)
  then obtain rs where q: "qs = pa # rs" "run_list m' (freelist k) rs"
    using r ld by (cases qs) auto
  have "pa \<in> set rs"
    using run_list_until [of "ram k" "freelist k" xs pa ys m' "kend k" rs] kk ps so q(2) by auto
  with run_list_cycle [of m' pa rs] r q(1) show False by simp
qed

lemma kalloc_nil:
  "kmem_ok k [] \<Longrightarrow> kalloc k = Inr (0, k)"
  by (cases k) (simp add: kmem_ok_def kalloc_eq)

lemma kalloc_cons:
  assumes "kmem_ok k (p # ps)"
  obtains k' where "kalloc k = Inr (p, k')" "kmem_ok k' ps" "kend k' = kend k"
    "same_outside p (ram k) (ram k')" "bytes (ram k') p PGSIZE = replicate PGSIZE 5"
proof -
  let ?m = "memset (ram k) p 5 PGSIZE"
  let ?k = "k\<lparr>kmlock := False, freelist := unat (load64 (ram k) p), ram := ?m\<rparr>"
  have k: "\<not> kmlock k" "0 < kend k" "freelist k = p" "p \<noteq> 0"
      "run_list (ram k) (unat (load64 (ram k) p)) ps" "p \<notin> set ps" "distinct ps"
      "managed (kend k) p" "\<forall>p \<in> set ps. managed (kend k) p"
    using assms by (auto simp: kmem_ok_def)
  have "kmem_ok ?k ps"
    using run_list_outside [OF same_outside_memset k(8,9,6)] k
    by (simp add: kmem_ok_def)
  then show ?thesis
    using that [of ?k] k kalloc_eq [of k] same_outside_memset [of p "ram k"]
    by (simp add: bytes_memset)
qed

section \<open>The contract\<close>

text \<open>
  An allocator hands out pages of a pool and takes them back. \<open>inv s ps\<close>: the pool of \<open>s\<close>
  is \<open>ps\<close>; \<open>owned s p\<close>: \<open>p\<close> is a page the allocator manages.
\<close>

locale page_allocator =
  fixes alloc :: "'s \<Rightarrow> (nat \<times> 's) res"
    and free :: "nat \<Rightarrow> 's \<Rightarrow> 's res"
    and inv :: "'s \<Rightarrow> nat list \<Rightarrow> bool"
    and owned :: "'s \<Rightarrow> nat \<Rightarrow> bool"
  assumes alloc_empty: "inv s [] \<Longrightarrow> alloc s = Inr (0, s)"
    and alloc_page: "inv s (p # ps) \<Longrightarrow>
      \<exists>s'. alloc s = Inr (p, s') \<and> inv s' ps \<and> owned s' = owned s"
    and free_page: "inv s ps \<Longrightarrow> owned s p \<Longrightarrow> p \<notin> set ps \<Longrightarrow>
      \<exists>s'. free p s = Inr s' \<and> inv s' (p # ps) \<and> owned s' = owned s"
    and pool: "inv s ps \<Longrightarrow> distinct ps \<and> 0 \<notin> set ps \<and> (\<forall>p \<in> set ps. owned s p)"
begin

lemma alloc_not_null:
  assumes "inv s ps" "alloc s = Inr (p, s')"
  shows "p = 0 \<longleftrightarrow> ps = []"
  using assms alloc_empty [of s] alloc_page [of s] pool [OF assms(1)] by (cases ps) force+

lemma alloc_free:
  assumes "inv s (p # ps)"
  shows "\<exists>s' s''. alloc s = Inr (p, s') \<and> free p s' = Inr s'' \<and> inv s'' (p # ps)"
proof -
  obtain s' where s': "alloc s = Inr (p, s')" "inv s' ps" "owned s' = owned s"
    using alloc_page [OF assms] by blast
  moreover have "owned s p" "p \<notin> set ps"
    using pool [OF assms] by auto
  ultimately show ?thesis
    using free_page [of s' ps p] by auto
qed

text \<open>Successive allocations never hand out the same page.\<close>

fun alloc_n :: "nat \<Rightarrow> 's \<Rightarrow> (nat list \<times> 's) res" where
  "alloc_n 0 s = Inr ([], s)"
| "alloc_n (Suc n) s =
     rbind (alloc s) (\<lambda>(p, s). rbind (alloc_n n s) (\<lambda>(ps, s). Inr (p # ps, s)))"

lemma alloc_n_take:
  assumes "inv s ps" "n \<le> length ps"
  shows "\<exists>s'. alloc_n n s = Inr (take n ps, s') \<and> inv s' (drop n ps)"
  using assms
proof (induction n arbitrary: s ps)
  case 0
  then show ?case by simp
next
  case (Suc n)
  then obtain p qs where ps: "ps = p # qs" by (cases ps) auto
  with Suc.prems obtain s' where s': "alloc s = Inr (p, s')" "inv s' qs"
    using alloc_page by blast
  with Suc.IH [OF s'(2)] Suc.prems ps show ?case by auto
qed

lemma alloc_n_distinct:
  assumes "inv s ps" "n \<le> length ps" "alloc_n n s = Inr (qs, s')"
  shows "distinct qs \<and> length qs = n \<and> 0 \<notin> set qs"
  using alloc_n_take [OF assms(1,2)] assms(2,3) pool [OF assms(1)]
  by (auto dest: in_set_takeD)

end

interpretation km: page_allocator kalloc kfree kmem_ok "\<lambda>k. managed (kend k)"
proof
  fix s p ps
  show "kmem_ok s [] \<Longrightarrow> kalloc s = Inr (0, s)"
    by (rule kalloc_nil)
  show "kmem_ok s (p # ps) \<Longrightarrow>
      \<exists>s'. kalloc s = Inr (p, s') \<and> kmem_ok s' ps \<and> managed (kend s') = managed (kend s)"
    by (erule kalloc_cons) auto
  show "kmem_ok s ps \<Longrightarrow> managed (kend s) p \<Longrightarrow> p \<notin> set ps \<Longrightarrow>
      \<exists>s'. kfree p s = Inr s' \<and> kmem_ok s' (p # ps) \<and> managed (kend s') = managed (kend s)"
    by (erule (2) kfree_ok) auto
  show "kmem_ok s ps \<Longrightarrow> distinct ps \<and> 0 \<notin> set ps \<and> (\<forall>p\<in>set ps. managed (kend s) p)"
    by (auto simp: kmem_ok_def managed_def)
qed

section \<open>Initialisation\<close>

text \<open>\<open>page_range p e\<close>: the pages that fit between \<open>p\<close> and \<open>e\<close>, last first.\<close>

definition page_range :: "nat \<Rightarrow> nat \<Rightarrow> nat list" where
  "page_range p e = rev (map (\<lambda>i. p + i * PGSIZE) [0..<(e - p) div PGSIZE])"

lemma page_range_nil: "\<not> p + PGSIZE \<le> e \<Longrightarrow> page_range p e = []"
  by (auto simp: page_range_def div_eq_0_iff PGSIZE_def)

lemma page_range_cons:
  assumes "p + PGSIZE \<le> e"
  shows "page_range p e = page_range (p + PGSIZE) e @ [p]"
proof -
  have "(e - p) div PGSIZE = Suc ((e - (p + PGSIZE)) div PGSIZE)"
    using assms by (simp add: PGSIZE_def div_if)
  then show ?thesis
    by (simp add: page_range_def upt_conv_Cons map_Suc_upt [symmetric] o_def algebra_simps
        del: upt_Suc)
qed

lemma freerange_loop_ok:
  assumes "kmem_ok k ps" "p mod PGSIZE = 0" "kend k \<le> p" "e \<le> PHYSTOP" "\<forall>q \<in> set ps. q < p"
  shows "\<exists>k'. freerange_loop p e k = Inr k' \<and> kmem_ok k' (page_range p e @ ps) \<and>
    kend k' = kend k"
  using assms
proof (induction p e k arbitrary: ps rule: freerange_loop.induct)
  case (1 p e k)
  show ?case
  proof (cases "p + PGSIZE \<le> e")
    case False
    then show ?thesis
      using "1.prems" by (simp add: freerange_loop.simps page_range_nil)
  next
    case True
    then have "managed (kend k) p"
      using "1.prems" by (simp add: managed_def PGSIZE_def)
    then obtain k' where k': "kfree p k = Inr k'" "kmem_ok k' (p # ps)" "kend k' = kend k"
      using "1.prems" kfree_ok [of k ps p] by blast
    have *: "(p + PGSIZE) mod PGSIZE = 0" "kend k' \<le> p + PGSIZE"
        "\<forall>q \<in> set (p # ps). q < p + PGSIZE"
      using "1.prems" k' by (auto simp: PGSIZE_def)
    from "1.IH" [OF True k'(1,2) *(1,2) "1.prems"(4) *(3)]
    show ?thesis
      using True k' by (simp add: freerange_loop.simps [of p e k] page_range_cons)
  qed
qed

lemma kinit_ok:
  assumes "0 < kend k" "kend k + PGSIZE \<le> PHYSTOP" "freelist k = 0"
  shows "\<exists>k'. kinit k = Inr k' \<and> kend k' = kend k \<and>
    kmem_ok k' (page_range (unat (PGROUNDUP (of_nat (kend k)))) PHYSTOP)"
proof -
  let ?e = "of_nat (kend k) :: u64"
  let ?k = "k\<lparr>kmlock := False\<rparr>"
  have "unat ?e = kend k" "unat ?e + 4095 < 2 ^ 64"
    using assms(2) by (simp_all add: unat_of_nat_small PHYSTOP_def KERNBASE_def PGSIZE_def)
  then have "unat (PGROUNDUP ?e) mod PGSIZE = 0" "kend ?k \<le> unat (PGROUNDUP ?e)"
    using PGROUNDUP_ge [of ?e] by (simp_all add: unat_PGROUNDUP)
  moreover have "kmem_ok ?k []"
    using assms by (simp add: kmem_ok_def)
  ultimately show ?thesis
    using freerange_loop_ok [of ?k "[]" "unat (PGROUNDUP ?e)" PHYSTOP]
    by (auto simp: kinit_def freerange_def)
qed

section \<open>Clients of the allocator\<close>

text \<open>
  Every history of the allocator after \<open>kinit\<close>: pages are allocated, written by whoever
  holds them, and freed by whoever holds them. The list is the pages now held.
\<close>

inductive pool_reach :: "kmem \<Rightarrow> kmem \<Rightarrow> nat list \<Rightarrow> bool" for k0 :: kmem where
  boot: "kinit k0 = Inr k \<Longrightarrow> pool_reach k0 k []"
| get: "pool_reach k0 k hs \<Longrightarrow> kalloc k = Inr (p, k') \<Longrightarrow> p \<noteq> 0 \<Longrightarrow> pool_reach k0 k' (p # hs)"
| fill: "pool_reach k0 k hs \<Longrightarrow> p \<in> set hs \<Longrightarrow> same_outside p (ram k) m \<Longrightarrow>
     pool_reach k0 (k\<lparr>ram := m\<rparr>) hs"
| put: "pool_reach k0 k hs \<Longrightarrow> p \<in> set hs \<Longrightarrow> kfree p k = Inr k' \<Longrightarrow>
     pool_reach k0 k' (remove1 p hs)"

definition pool :: "kmem \<Rightarrow> nat list" where
  "pool k = page_range (unat (PGROUNDUP (of_nat (kend k)))) PHYSTOP"

lemma distinct_pool: "distinct (pool k)"
  by (auto simp: pool_def page_range_def distinct_map PGSIZE_def inj_on_def)

lemma pool_mset_distinct:
  "mset ps + mset hs = mset (pool k) \<Longrightarrow> distinct (ps @ hs)"
  using distinct_pool [of k] by (metis mset_append mset_eq_imp_distinct_iff)

lemma pool_reach_inv:
  assumes "pool_reach k0 k hs" "0 < kend k0" "kend k0 + PGSIZE \<le> PHYSTOP" "freelist k0 = 0"
  shows "kend k = kend k0 \<and> (\<exists>ps. kmem_ok k ps \<and> mset ps + mset hs = mset (pool k0) \<and>
    (\<forall>p \<in> set hs. managed (kend k0) p))"
  using assms(1)
proof (induction rule: pool_reach.induct)
  case (boot k)
  with kinit_ok [OF assms(2-4)] show ?case by (auto simp: pool_def)
next
  case (get k hs p k')
  then obtain ps where ps: "kend k = kend k0" "kmem_ok k ps"
      "mset ps + mset hs = mset (pool k0)" "\<forall>p \<in> set hs. managed (kend k0) p"
    by blast
  show ?case
  proof (cases ps)
    case Nil
    with get.hyps ps kalloc_nil show ?thesis by simp
  next
    case (Cons q qs)
    then obtain k'' where "kalloc k = Inr (q, k'')" "kmem_ok k'' qs" "kend k'' = kend k"
      using ps(2) kalloc_cons by blast
    moreover have "managed (kend k0) q" using ps(1,2) Cons by (simp add: kmem_ok_def)
    ultimately show ?thesis
      using get.hyps(2) ps Cons by (intro conjI exI [of _ qs]) auto
  qed
next
  case (fill k hs p m)
  then obtain ps where ps: "kend k = kend k0" "kmem_ok k ps"
      "mset ps + mset hs = mset (pool k0)" "\<forall>p \<in> set hs. managed (kend k0) p"
    by blast
  have "p \<notin> set ps" using pool_mset_distinct [OF ps(3)] fill.hyps(2) by auto
  then have "run_list m (freelist k) ps = run_list (ram k) (freelist k) ps"
    using run_list_outside [OF fill.hyps(3), of "kend k0" ps] ps fill.hyps(2)
    by (simp add: kmem_ok_def)
  then have "kmem_ok (k\<lparr>ram := m\<rparr>) ps" using ps(2) by (simp add: kmem_ok_def)
  then show ?case using ps by auto
next
  case (put k hs p k')
  then obtain ps where ps: "kend k = kend k0" "kmem_ok k ps"
      "mset ps + mset hs = mset (pool k0)" "\<forall>p \<in> set hs. managed (kend k0) p"
    by blast
  have "p \<notin> set ps" using pool_mset_distinct [OF ps(3)] put.hyps(2) by auto
  moreover have "managed (kend k) p" using ps put.hyps(2) by simp
  ultimately obtain k'' where "kfree p k = Inr k''" "kmem_ok k'' (p # ps)" "kend k'' = kend k"
    using kfree_ok [OF ps(2)] by blast
  moreover have "mset (p # ps) + mset (remove1 p hs) = mset (pool k0)"
    using put.hyps(2) by (simp add: ps(3) [symmetric])
  ultimately show ?case
    using ps put.hyps(2,3)
    by (intro conjI exI [of _ "p # ps"]) (auto dest: set_remove1_subset [THEN subsetD])
qed

section \<open>Properties\<close>

text \<open>
  C17: No page is ever lost or handed out twice. After \<open>kinit\<close>, in every history of
  allocations, frees of held pages and writes of holders to their own pages, the free list
  is intact, and the free pages and the held pages together are exactly the pages between
  the end of the kernel and \<open>PHYSTOP\<close>, each once.
\<close>
theorem kalloc_no_double_use:
  assumes "pool_reach k0 k hs" "0 < kend k0" "kend k0 + PGSIZE \<le> PHYSTOP" "freelist k0 = 0"
  shows "\<exists>ps. kmem_ok k ps \<and> distinct (ps @ hs) \<and> set (ps @ hs) = set (pool k0)"
proof -
  obtain ps where ps: "kmem_ok k ps" "mset ps + mset hs = mset (pool k0)"
    using pool_reach_inv [OF assms] by blast
  then have "set (ps @ hs) = set (pool k0)"
    by (metis mset_append set_mset_mset)
  with ps pool_mset_distinct show ?thesis by blast
qed

definition bss_kmem :: kmem where
  "bss_kmem = \<lparr>kmlock = False, freelist = 0, kend = KERNBASE, ram = (\<lambda>_. 0)\<rparr>"

theorem kalloc_no_double_use_witness:
  "\<exists>k p k' ps. pool_reach bss_kmem k [] \<and> kalloc k = Inr (p, k') \<and> pool_reach bss_kmem k' [p] \<and>
     distinct (ps @ [p]) \<and> set (ps @ [p]) = set (pool bss_kmem)"
proof -
  have b: "0 < kend bss_kmem" "kend bss_kmem + PGSIZE \<le> PHYSTOP" "freelist bss_kmem = 0"
    by (simp_all add: bss_kmem_def PHYSTOP_def KERNBASE_def PGSIZE_def)
  obtain k where k: "kinit bss_kmem = Inr k" "kmem_ok k (pool bss_kmem)"
    using kinit_ok [OF b] by (auto simp: pool_def)
  have "length (pool bss_kmem) = 32768"
    by (simp add: pool_def page_range_def bss_kmem_def KERNBASE_def PHYSTOP_def PGSIZE_def
        PGROUNDUP_def)
  then obtain p ps where "pool bss_kmem = p # ps" by (cases "pool bss_kmem") auto
  with k obtain k' where k': "kalloc k = Inr (p, k')" "p \<noteq> 0"
    using kalloc_cons by (metis kmem_ok_def run_list.simps(2))
  have r: "pool_reach bss_kmem k []" using k(1) by (rule pool_reach.boot)
  then have r': "pool_reach bss_kmem k' [p]" using k' by (rule pool_reach.get)
  show ?thesis using kalloc_no_double_use [OF r' b] r r' k' by blast
qed

text \<open>
  C32: \<open>kfree\<close> on a sound free list, for every address. A page-aligned address of managed memory
  that is not free already goes to the front of the list: the rest of the list is intact, the
  page is filled with 1s behind its link, and no byte outside the page changes. Freeing a page that is on the
  list is not noticed and destroys the list: it no longer ends. Every other
  address panics.
\<close>
theorem kfree_every_address:
  assumes "kmem_ok k ps"
  shows "if \<not> managed (kend k) pa then kfree pa k = Inl (Panic ''kfree'')
     else \<exists>k'. kfree pa k = Inr k' \<and> freelist k' = pa \<and> \<not> kmlock k' \<and> kend k' = kend k \<and>
       same_outside pa (ram k) (ram k') \<and> bytes (ram k') (pa + 8) (PGSIZE - 8) = replicate (PGSIZE - 8) 1 \<and>
       (if pa \<notin> set ps then kmem_ok k' (pa # ps) else \<forall>qs. \<not> run_list (ram k') pa qs)"
proof (cases "managed (kend k) pa")
  case True
  have k: "\<not> kmlock k" using assms by (simp add: kmem_ok_def)
  let ?m = "store64 (memset (ram k) pa 1 PGSIZE) pa (of_nat (freelist k))"
  let ?k = "k\<lparr>kmlock := False, freelist := pa, ram := ?m\<rparr>"
  have eq: "kfree pa k = Inr ?k" by (rule kfree_eq [OF True k])
  have fl: "unat (load64 ?m pa) = freelist k"
    using assms managed_word by (cases ps) (auto simp: kmem_ok_def)
  have b: "bytes ?m (pa + 8) (PGSIZE - 8) = replicate (PGSIZE - 8) 1"
    by (rule nth_equalityI) (simp_all add: store64_other memset_eq PGSIZE_def)
  have so: "same_outside pa (ram k) ?m"
    by (auto simp: same_outside_def memset_eq store64_other PGSIZE_def)
  have "kmem_ok ?k (pa # ps)" if "pa \<notin> set ps"
    using kfree_ok [OF assms True that] eq by auto
  moreover have "\<forall>qs. \<not> run_list ?m pa qs" if "pa \<in> set ps"
    using kfree_twice [OF assms that so] fl by simp
  ultimately show ?thesis using True eq b so by auto
qed (simp add: kfree_panic)

theorem kfree_every_address_witness:
  "\<exists>k'. kfree KERNBASE bss_kmem = Inr k' \<and> kmem_ok k' [KERNBASE] \<and> kfree (KERNBASE + 8) bss_kmem = Inl (Panic ''kfree'')"
proof -
  have b: "kmem_ok bss_kmem []" by (simp add: kmem_ok_def bss_kmem_def KERNBASE_def)
  have m: "managed (kend bss_kmem) KERNBASE" "\<not> managed (kend bss_kmem) (KERNBASE + 8)"
    by (simp_all add: managed_def bss_kmem_def KERNBASE_def PHYSTOP_def PGSIZE_def)
  show ?thesis
    using kfree_every_address [OF b, of KERNBASE] kfree_every_address [OF b, of "KERNBASE + 8"] m by auto
qed

end
