(* ===== verification/Vm.thy ===== *)
theory Vm
  imports Kalloc
begin

text \<open>
  Sv39 page tables, kernel/vm.c, and \<open>proc_mapstacks\<close> of kernel/proc.c, which \<open>kvmmake\<close>
  calls. A page table is a three-level tree of 4096-byte pages in the allocator's memory;
  a \<open>pagetable_t\<close> is the physical address of its root page. Entries are read and written
  in memory, pages come from \<open>kalloc\<close>. Virtual addresses, physical addresses that go into
  entries and permission bits are 64-bit words.

  The kernel-side buffer of \<open>copyout\<close>, \<open>copyin\<close> and \<open>copyinstr\<close> is a C object of its own (a
  variable, a struct, a kernel stack), not a user page: it is passed and returned by value
  as a list of bytes.
\<close>

section \<open>Definitions\<close>

fun walk_levels :: "nat \<Rightarrow> nat \<Rightarrow> u64 \<Rightarrow> bool \<Rightarrow> kmem \<Rightarrow> (nat \<times> kmem) res" where
  "walk_levels 0 pagetable va alloc k = Inr (pagetable + 8 * unat (PX 0 va), k)"
| "walk_levels (Suc level) pagetable va alloc k =
     (let pte = pagetable + 8 * unat (PX (Suc level) va) in
      if load64 (ram k) pte AND PTE_V \<noteq> 0
      then walk_levels level (unat (PTE2PA (load64 (ram k) pte))) va alloc k
      else if \<not> alloc then Inr (0, k)
      else
        rbind (kalloc k) (\<lambda>(p, k).
        if p = 0 then Inr (0, k)
        else
          let k = k\<lparr>ram := memset (ram k) p 0 PGSIZE\<rparr>;
              k = k\<lparr>ram := store64 (ram k) pte (PA2PTE (of_nat p) OR PTE_V)\<rparr> in
          walk_levels level p va alloc k))"

definition walk :: "nat \<Rightarrow> u64 \<Rightarrow> bool \<Rightarrow> kmem \<Rightarrow> (nat \<times> kmem) res" where
  "walk pagetable va alloc k =
     (if va \<ge> MAXVA then Inl (Panic ''walk'') else walk_levels 2 pagetable va alloc k)"

definition walkaddr :: "nat \<Rightarrow> u64 \<Rightarrow> kmem \<Rightarrow> u64 res" where
  "walkaddr pagetable va k =
     (if va \<ge> MAXVA then Inr 0
      else
        rbind (walk pagetable va False k) (\<lambda>(pte, k).
        if pte = 0 then Inr 0
        else if load64 (ram k) pte AND PTE_V = 0 then Inr 0
        else if load64 (ram k) pte AND PTE_U = 0 then Inr 0
        else Inr (PTE2PA (load64 (ram k) pte))))"

lemma walk_MAXVA: "walk pagetable va alloc k = Inr x \<Longrightarrow> va < MAXVA"
  by (auto simp: walk_def not_le split: if_splits)

lemma next_page:
  assumes "va < MAXVA"
  shows "unat (va + 4096) = unat va + 4096"
proof -
  have "unat va < 2 ^ 38"
    using assms unat_MAXVA by (simp add: word_less_nat_alt)
  then show ?thesis by (subst unat_add_lem [THEN iffD1]) auto
qed

lemma next_page_measure:
  "va < MAXVA \<Longrightarrow> 2 ^ 39 - unat (va + 4096) < 2 ^ 39 - unat va"
  using next_page [of va] unat_MAXVA by (simp add: word_less_nat_alt)

function mappages_loop :: "nat \<Rightarrow> u64 \<Rightarrow> u64 \<Rightarrow> u64 \<Rightarrow> u64 \<Rightarrow> kmem \<Rightarrow> (int \<times> kmem) res" where
  "mappages_loop pagetable a lasta pa perm k =
     rbind (walk pagetable a True k) (\<lambda>(pte, k).
     if pte = 0 then Inr (-1, k)
     else if load64 (ram k) pte AND PTE_V \<noteq> 0 then Inl (Panic ''mappages: remap'')
     else
       let k = k\<lparr>ram := store64 (ram k) pte (PA2PTE pa OR perm OR PTE_V)\<rparr> in
       if a = lasta then Inr (0, k)
       else mappages_loop pagetable (a + 4096) lasta (pa + 4096) perm k)"
  by pat_completeness auto
termination
  by (relation "measure (\<lambda>(pagetable, a, lasta, pa, perm, k). 2 ^ 39 - unat a)")
    (auto dest!: walk_MAXVA intro: next_page_measure simp del: power_numeral)

declare mappages_loop.simps [simp del]

definition mappages :: "nat \<Rightarrow> u64 \<Rightarrow> u64 \<Rightarrow> u64 \<Rightarrow> u64 \<Rightarrow> kmem \<Rightarrow> (int \<times> kmem) res" where
  "mappages pagetable va len pa perm k =
     (if len = 0 then Inl (Panic ''mappages: size'')
      else mappages_loop pagetable (PGROUNDDOWN va) (PGROUNDDOWN (va + len - 1)) pa perm k)"

lemma mappages_MAXVA:
  assumes "mappages pagetable va len pa perm k = Inr x"
  shows "va < MAXVA"
proof -
  have "PGROUNDDOWN va < MAXVA"
    using assms
    by (auto simp: mappages_def mappages_loop.simps [of _ "PGROUNDDOWN va"] split: if_splits
        dest: walk_MAXVA)
  then have "unat va div 4096 < 2 ^ 26"
    by (simp add: word_less_nat_alt unat_MAXVA unat_PGROUNDDOWN PGSIZE_def)
  then have "unat va < 2 ^ 38"
    by (simp add: div_less_iff_less_mult)
  then show ?thesis
    by (simp add: word_less_nat_alt unat_MAXVA)
qed

definition kvmmap :: "nat \<Rightarrow> u64 \<Rightarrow> u64 \<Rightarrow> u64 \<Rightarrow> u64 \<Rightarrow> kmem \<Rightarrow> kmem res" where
  "kvmmap kpgtbl va pa sz perm k =
     rbind (mappages kpgtbl va sz pa perm k) (\<lambda>(r, k).
     if r \<noteq> 0 then Inl (Panic ''kvmmap'') else Inr k)"

definition proc_mapstacks :: "nat \<Rightarrow> nat \<Rightarrow> kmem \<Rightarrow> kmem res" where
  "proc_mapstacks nproc kpgtbl k =
     for_each (\<lambda>p k.
       rbind (kalloc k) (\<lambda>(pa, k).
       if pa = 0 then Inl (Panic ''kalloc'')
       else kvmmap kpgtbl (KSTACK (of_nat p)) (of_nat pa) 4096 (PTE_R OR PTE_W) k))
     [0..<nproc] k"

definition kvmmake :: "u64 \<Rightarrow> u64 \<Rightarrow> nat \<Rightarrow> kmem \<Rightarrow> (nat \<times> kmem) res" where
  "kvmmake etext trampoline nproc k =
     rbind (kalloc k) (\<lambda>(kpgtbl, k).
     if kpgtbl = 0 then Inl (Undef ''null page'')
     else
       let k = k\<lparr>ram := memset (ram k) kpgtbl 0 PGSIZE\<rparr> in
       rbind (kvmmap kpgtbl UART0 UART0 4096 (PTE_R OR PTE_W) k) (\<lambda>k.
       rbind (kvmmap kpgtbl VIRTIO0 VIRTIO0 4096 (PTE_R OR PTE_W) k) (\<lambda>k.
       rbind (kvmmap kpgtbl PLIC PLIC 0x400000 (PTE_R OR PTE_W) k) (\<lambda>k.
       rbind (kvmmap kpgtbl (of_nat KERNBASE) (of_nat KERNBASE) (etext - of_nat KERNBASE)
          (PTE_R OR PTE_X) k) (\<lambda>k.
       rbind (kvmmap kpgtbl etext etext (of_nat PHYSTOP - etext) (PTE_R OR PTE_W) k) (\<lambda>k.
       rbind (kvmmap kpgtbl TRAMPOLINE trampoline 4096 (PTE_R OR PTE_X) k) (\<lambda>k.
       rbind (proc_mapstacks nproc kpgtbl k) (\<lambda>k.
       Inr (kpgtbl, k)))))))))"

text \<open>\<open>kvminithart\<close> writes this value to the register \<open>satp\<close>.\<close>

definition kvminithart :: "nat \<Rightarrow> u64" where
  "kvminithart kernel_pagetable = MAKE_SATP (of_nat kernel_pagetable)"

function uvmunmap_loop :: "nat \<Rightarrow> u64 \<Rightarrow> u64 \<Rightarrow> bool \<Rightarrow> kmem \<Rightarrow> kmem res" where
  "uvmunmap_loop pagetable a lim do_free k =
     (if a < lim then
        rbind (walk pagetable a False k) (\<lambda>(pte, k).
        if pte = 0 then Inl (Panic ''uvmunmap: walk'')
        else if load64 (ram k) pte AND PTE_V = 0 then Inl (Panic ''uvmunmap: not mapped'')
        else if PTE_FLAGS (load64 (ram k) pte) = PTE_V then Inl (Panic ''uvmunmap: not a leaf'')
        else
          rbind (if do_free then kfree (unat (PTE2PA (load64 (ram k) pte))) k else Inr k) (\<lambda>k.
          uvmunmap_loop pagetable (a + 4096) lim do_free (k\<lparr>ram := store64 (ram k) pte 0\<rparr>)))
      else Inr k)"
  by pat_completeness auto
termination
  by (relation "measure (\<lambda>(pagetable, a, lim, do_free, k). 2 ^ 39 - unat a)")
    (auto dest!: walk_MAXVA intro: next_page_measure simp del: power_numeral)

declare uvmunmap_loop.simps [simp del]

definition uvmunmap :: "nat \<Rightarrow> u64 \<Rightarrow> u64 \<Rightarrow> bool \<Rightarrow> kmem \<Rightarrow> kmem res" where
  "uvmunmap pagetable va npages do_free k =
     (if va mod 4096 \<noteq> 0 then Inl (Panic ''uvmunmap: not aligned'')
      else uvmunmap_loop pagetable va (va + npages * 4096) do_free k)"

definition uvmcreate :: "kmem \<Rightarrow> (nat \<times> kmem) res" where
  "uvmcreate k =
     rbind (kalloc k) (\<lambda>(pagetable, k).
     if pagetable = 0 then Inr (0, k)
     else Inr (pagetable, k\<lparr>ram := memset (ram k) pagetable 0 PGSIZE\<rparr>))"

text \<open>The bytes \<open>bs\<close> written at \<open>a\<close>: what \<open>memmove\<close> from a buffer that holds \<open>bs\<close> does.\<close>

definition put_bytes :: "mem \<Rightarrow> nat \<Rightarrow> u8 list \<Rightarrow> mem" where
  "put_bytes m a bs = (\<lambda>x. if a \<le> x \<and> x < a + length bs then bs ! (x - a) else m x)"

definition uvminit :: "nat \<Rightarrow> u8 list \<Rightarrow> kmem \<Rightarrow> kmem res" where
  "uvminit pagetable src k =
     (if length src \<ge> PGSIZE then Inl (Panic ''inituvm: more than a page'')
      else
        rbind (kalloc k) (\<lambda>(m, k).
        if m = 0 then Inl (Undef ''null page'')
        else
          let k = k\<lparr>ram := memset (ram k) m 0 PGSIZE\<rparr> in
          rbind (mappages pagetable 0 4096 (of_nat m) (PTE_W OR PTE_R OR PTE_X OR PTE_U) k)
            (\<lambda>(r, k). Inr (k\<lparr>ram := put_bytes (ram k) m src\<rparr>))))"

text \<open>\<open>int npages = \<dots>\<close> truncates to 32 bits; the call sign-extends it to 64.\<close>

definition uvmdealloc :: "nat \<Rightarrow> u64 \<Rightarrow> u64 \<Rightarrow> kmem \<Rightarrow> (u64 \<times> kmem) res" where
  "uvmdealloc pagetable oldsz newsz k =
     (if newsz \<ge> oldsz then Inr (oldsz, k)
      else if PGROUNDUP newsz < PGROUNDUP oldsz then
        let npages = ucast ((PGROUNDUP oldsz - PGROUNDUP newsz) div 4096) :: 32 word in
        rbind (uvmunmap pagetable (PGROUNDUP newsz) (scast npages) True k) (\<lambda>k.
        Inr (newsz, k))
      else Inr (newsz, k))"

function uvmalloc_loop :: "nat \<Rightarrow> u64 \<Rightarrow> u64 \<Rightarrow> u64 \<Rightarrow> kmem \<Rightarrow> (u64 \<times> kmem) res" where
  "uvmalloc_loop pagetable a oldsz newsz k =
     (if a < newsz then
        rbind (kalloc k) (\<lambda>(m, k).
        if m = 0 then rbind (uvmdealloc pagetable a oldsz k) (\<lambda>(_, k). Inr (0, k))
        else
          let k = k\<lparr>ram := memset (ram k) m 0 PGSIZE\<rparr> in
          rbind (mappages pagetable a 4096 (of_nat m) (PTE_W OR PTE_X OR PTE_R OR PTE_U) k)
            (\<lambda>(r, k).
             if r \<noteq> 0 then
               rbind (kfree m k) (\<lambda>k.
               rbind (uvmdealloc pagetable a oldsz k) (\<lambda>(_, k). Inr (0, k)))
             else uvmalloc_loop pagetable (a + 4096) oldsz newsz k))
      else Inr (newsz, k))"
  by pat_completeness auto
termination
  by (relation "measure (\<lambda>(pagetable, a, oldsz, newsz, k). 2 ^ 39 - unat a)")
    (auto dest!: mappages_MAXVA intro: next_page_measure simp del: power_numeral)

declare uvmalloc_loop.simps [simp del]

definition uvmalloc :: "nat \<Rightarrow> u64 \<Rightarrow> u64 \<Rightarrow> kmem \<Rightarrow> (u64 \<times> kmem) res" where
  "uvmalloc pagetable oldsz newsz k =
     (if newsz < oldsz then Inr (oldsz, k)
      else uvmalloc_loop pagetable (PGROUNDUP oldsz) (PGROUNDUP oldsz) newsz k)"

text \<open>
  \<open>freewalk\<close> recurses into every entry that is valid and not a leaf. Physical page numbers in
  entries have 44 bits, so a recursion deeper than \<open>2 ^ 44\<close> has come back to a page that it is
  still visiting, whose first remaining child it takes again, and so on without end: the
  depth \<open>2 ^ 44\<close> is fuel enough for every recursion that ends.
\<close>

primrec freewalk_depth :: "nat \<Rightarrow> nat \<Rightarrow> kmem \<Rightarrow> kmem res" where
  "freewalk_depth 0 pagetable k = Inl Hang"
| "freewalk_depth (Suc d) pagetable k =
     rbind (for_each (\<lambda>i k.
       let pte = load64 (ram k) (pagetable + 8 * i) in
       if pte AND PTE_V \<noteq> 0 \<and> pte AND (PTE_R OR PTE_W OR PTE_X) = 0 then
         rbind (freewalk_depth d (unat (PTE2PA pte)) k) (\<lambda>k.
         Inr (k\<lparr>ram := store64 (ram k) (pagetable + 8 * i) 0\<rparr>))
       else if pte AND PTE_V \<noteq> 0 then Inl (Panic ''freewalk: leaf'')
       else Inr k) [0..<512] k)
     (kfree pagetable)"

definition freewalk :: "nat \<Rightarrow> kmem \<Rightarrow> kmem res" where
  "freewalk pagetable k = freewalk_depth (2 ^ 44) pagetable k"

definition uvmfree :: "nat \<Rightarrow> u64 \<Rightarrow> kmem \<Rightarrow> kmem res" where
  "uvmfree pagetable sz k =
     rbind (if sz > 0 then uvmunmap pagetable 0 (PGROUNDUP sz div 4096) True k else Inr k)
       (freewalk pagetable)"

function uvmcopy_loop :: "nat \<Rightarrow> nat \<Rightarrow> u64 \<Rightarrow> u64 \<Rightarrow> kmem \<Rightarrow> (int \<times> kmem) res" where
  "uvmcopy_loop old new i sz k =
     (if i < sz then
        rbind (walk old i False k) (\<lambda>(pte, k).
        if pte = 0 then Inl (Panic ''uvmcopy: pte should exist'')
        else if load64 (ram k) pte AND PTE_V = 0 then Inl (Panic ''uvmcopy: page not present'')
        else
          let pa = PTE2PA (load64 (ram k) pte); flags = PTE_FLAGS (load64 (ram k) pte) in
          rbind (kalloc k) (\<lambda>(m, k).
          if m = 0 then rbind (uvmunmap new 0 (i div 4096) True k) (\<lambda>k. Inr (-1, k))
          else
            let k = k\<lparr>ram := memmove (ram k) m (unat pa) PGSIZE\<rparr> in
            rbind (mappages new i 4096 (of_nat m) flags k) (\<lambda>(r, k).
            if r \<noteq> 0 then
              rbind (kfree m k) (\<lambda>k.
              rbind (uvmunmap new 0 (i div 4096) True k) (\<lambda>k. Inr (-1, k)))
            else uvmcopy_loop old new (i + 4096) sz k)))
      else Inr (0, k))"
  by pat_completeness auto
termination
  by (relation "measure (\<lambda>(old, new, i, sz, k). 2 ^ 39 - unat i)")
    (auto dest!: walk_MAXVA intro: next_page_measure simp del: power_numeral)

declare uvmcopy_loop.simps [simp del]

definition uvmcopy :: "nat \<Rightarrow> nat \<Rightarrow> u64 \<Rightarrow> kmem \<Rightarrow> (int \<times> kmem) res" where
  "uvmcopy old new sz k = uvmcopy_loop old new 0 sz k"

definition uvmclear :: "nat \<Rightarrow> u64 \<Rightarrow> kmem \<Rightarrow> kmem res" where
  "uvmclear pagetable va k =
     rbind (walk pagetable va False k) (\<lambda>(pte, k).
     if pte = 0 then Inl (Panic ''uvmclear'')
     else Inr (k\<lparr>ram := store64 (ram k) pte (load64 (ram k) pte AND NOT PTE_U)\<rparr>))"

text \<open>\<open>n = PGSIZE - (va - va0); if(n > len) n = len;\<close> of the three copying loops.\<close>

definition chunk :: "u64 \<Rightarrow> nat \<Rightarrow> nat" where
  "chunk va len = min (unat (4096 - (va - PGROUNDDOWN va))) len"

lemma unat_chunk_space: "unat (4096 - (va - PGROUNDDOWN va)) = 4096 - unat va mod PGSIZE"
proof -
  have "unat (va - PGROUNDDOWN va) \<le> 4096"
    by (simp add: unat_off PGSIZE_def less_imp_le)
  then have "va - PGROUNDDOWN va \<le> 4096" by (simp add: word_le_nat_alt)
  then show ?thesis by (simp add: unat_sub_le unat_off)
qed

lemma chunk_eq: "chunk va len = min (4096 - unat va mod PGSIZE) len"
  by (simp add: chunk_def unat_chunk_space)

lemma chunk_pos: "0 < len \<Longrightarrow> 0 < chunk va len"
  by (simp add: chunk_eq PGSIZE_def)

function copyout :: "nat \<Rightarrow> u64 \<Rightarrow> u8 list \<Rightarrow> kmem \<Rightarrow> (int \<times> kmem) res" where
  "copyout pagetable dstva src k =
     (if src \<noteq> [] then
        let va0 = PGROUNDDOWN dstva in
        rbind (walkaddr pagetable va0 k) (\<lambda>pa0.
        if pa0 = 0 then Inr (-1, k)
        else
          let n = chunk dstva (length src);
              k = k\<lparr>ram := put_bytes (ram k) (unat (pa0 + (dstva - va0))) (take n src)\<rparr> in
          copyout pagetable (va0 + 4096) (drop n src) k)
      else Inr (0, k))"
  by pat_completeness auto
termination
  by (relation "measure (\<lambda>(pagetable, dstva, src, k). length src)") (auto simp: chunk_pos)

declare copyout.simps [simp del]

function copyin :: "nat \<Rightarrow> u64 \<Rightarrow> nat \<Rightarrow> kmem \<Rightarrow> (int \<times> u8 list) res" where
  "copyin pagetable srcva len k =
     (if len > 0 then
        let va0 = PGROUNDDOWN srcva in
        rbind (walkaddr pagetable va0 k) (\<lambda>pa0.
        if pa0 = 0 then Inr (-1, [])
        else
          let n = chunk srcva len;
              bs = bytes (ram k) (unat (pa0 + (srcva - va0))) n in
          rbind (copyin pagetable (va0 + 4096) (len - n) k) (\<lambda>(r, rest).
          Inr (r, bs @ rest)))
      else Inr (0, []))"
  by pat_completeness auto
termination
  by (relation "measure (\<lambda>(pagetable, srcva, len, k). len)") (auto simp: chunk_pos)

declare copyin.simps [simp del]

text \<open>The inner loop of \<open>copyinstr\<close>: did it meet a NUL, and the bytes it stored in \<open>dst\<close>.\<close>

fun copyinstr_page :: "mem \<Rightarrow> nat \<Rightarrow> nat \<Rightarrow> bool \<times> u8 list" where
  "copyinstr_page m p 0 = (False, [])"
| "copyinstr_page m p (Suc n) =
     (if m p = 0 then (True, [0])
      else let (got_null, bs) = copyinstr_page m (p + 1) n in (got_null, m p # bs))"

function copyinstr :: "nat \<Rightarrow> u64 \<Rightarrow> nat \<Rightarrow> kmem \<Rightarrow> (int \<times> u8 list) res" where
  "copyinstr pagetable srcva n_max k =
     (if n_max > 0 then
        let va0 = PGROUNDDOWN srcva in
        rbind (walkaddr pagetable va0 k) (\<lambda>pa0.
        if pa0 = 0 then Inr (-1, [])
        else
          let n = chunk srcva n_max;
              (got_null, bs) = copyinstr_page (ram k) (unat (pa0 + (srcva - va0))) n in
          if got_null then Inr (0, bs)
          else
            rbind (copyinstr pagetable (va0 + 4096) (n_max - n) k) (\<lambda>(r, rest).
            Inr (r, bs @ rest)))
      else Inr (-1, []))"
  by pat_completeness auto
termination
  by (relation "measure (\<lambda>(pagetable, srcva, n_max, k). n_max)") (auto simp: chunk_pos)

declare copyinstr.simps [simp del]

end
