(* ===== verification/Sched.thy ===== *)
theory Sched
  imports Proclist Vm
begin

text \<open>
  The process table and the scheduler of kernel/proc.c. The state adds to the process lists
  the \<open>cpus[]\<close> entries, the process identifiers, the two global locks and the page
  allocator. \<open>c\<close> is always the hart that executes, \<open>cpuid()\<close>.

  \<open>swtch\<close> saves and loads registers and transfers control, so a C function that calls
  \<open>sched\<close> is split there: \<open>yield_out\<close> and \<open>sleep_out\<close> run up to the switch, \<open>yield_in\<close> and
  \<open>sleep_in\<close> are what follows it; \<open>scheduler_pick\<close> and \<open>scheduler_back\<close> are the two halves of
  the scheduler's loop body.

  What the C code takes from elsewhere is in \<open>kparams\<close>: the addresses of the trampoline
  page and of \<open>forkret\<close>, and the build flag BLNCFLG.
\<close>

section \<open>State\<close>

record kparams =
  trampoline :: u64
  forkret_addr :: u64
  blncflg :: bool

record cpu =
  cproc :: "nat option"
  cintena :: bool

record sstate = ptable +
  cpus :: "nat \<Rightarrow> cpu"
  initproc :: "nat option"
  nextpid :: int
  pid_lock :: bool
  wait_lock :: bool
  other_lock :: bool
  km :: kmem

text \<open>
  \<open>other_lock\<close> is the spinlock that a caller of \<open>sleep\<close> in another component holds and passes
  as \<open>lk\<close>; \<open>WaitLk\<close> and \<open>OtherLk\<close> name the locks that are passed to \<open>sleep\<close>.
\<close>

datatype lkid = WaitLk | OtherLk

definition set_proc :: "nat \<Rightarrow> (proc \<Rightarrow> proc) \<Rightarrow> 'a ptable_scheme \<Rightarrow> 'a ptable_scheme" where
  "set_proc i f s = s\<lparr>procs := (procs s)(i := f (procs s i))\<rparr>"

definition acquire_proc :: "nat \<Rightarrow> 'a ptable_scheme \<Rightarrow> 'a ptable_scheme res" where
  "acquire_proc i s =
     rbind (spin_acquire (plock (procs s i))) (\<lambda>h. Inr (set_proc i (plock_update (\<lambda>_. h)) s))"

definition release_proc :: "nat \<Rightarrow> 'a ptable_scheme \<Rightarrow> 'a ptable_scheme res" where
  "release_proc i s =
     rbind (spin_release (plock (procs s i))) (\<lambda>h. Inr (set_proc i (plock_update (\<lambda>_. h)) s))"

definition acquire_lk :: "lkid \<Rightarrow> 'a sstate_scheme \<Rightarrow> 'a sstate_scheme res" where
  "acquire_lk lk s =
     (case lk of
        WaitLk \<Rightarrow> rbind (spin_acquire (wait_lock s)) (\<lambda>h. Inr (s\<lparr>wait_lock := h\<rparr>))
      | OtherLk \<Rightarrow> rbind (spin_acquire (other_lock s)) (\<lambda>h. Inr (s\<lparr>other_lock := h\<rparr>)))"

definition release_lk :: "lkid \<Rightarrow> 'a sstate_scheme \<Rightarrow> 'a sstate_scheme res" where
  "release_lk lk s =
     (case lk of
        WaitLk \<Rightarrow> rbind (spin_release (wait_lock s)) (\<lambda>h. Inr (s\<lparr>wait_lock := h\<rparr>))
      | OtherLk \<Rightarrow> rbind (spin_release (other_lock s)) (\<lambda>h. Inr (s\<lparr>other_lock := h\<rparr>)))"

text \<open>
  \<open>mycpu()->noff\<close>: every held spinlock is one \<open>push_off\<close>. Interrupts are on exactly when no
  spinlock is held (\<open>push_off\<close> and \<open>pop_off\<close> of kernel/spinlock.c).
\<close>

definition num :: "bool \<Rightarrow> nat" where
  "num b = (if b then 1 else 0)"

definition lists_held :: "'a ptable_scheme \<Rightarrow> nat" where
  "lists_held s =
     num (llock (lists s UnusedL)) + num (llock (lists s ZombieL)) +
     num (llock (lists s SleepingL)) + sum_list (map (\<lambda>c. num (llock (lists s (RunnableL c)))) [0..<NCPU])"

definition noff_count :: "'a sstate_scheme \<Rightarrow> nat" where
  "noff_count s =
     sum_list (map (\<lambda>i. num (plock (procs s i)) + num (stateLock (procs s i))) [0..<NPROC]) +
     lists_held s + num (pid_lock s) + num (wait_lock s) + num (other_lock s)"

definition intr_get :: "'a sstate_scheme \<Rightarrow> bool" where
  "intr_get s \<longleftrightarrow> noff_count s = 0"

definition myproc :: "nat \<Rightarrow> 'a sstate_scheme \<Rightarrow> nat option" where
  "myproc c s = cproc (cpus s c)"

text \<open>\<open>p = myproc()\<close> in a function that then dereferences \<open>p\<close>.\<close>

definition curproc :: "nat \<Rightarrow> 'a sstate_scheme \<Rightarrow> nat res" where
  "curproc c s = (case myproc c s of None \<Rightarrow> Inl (Undef ''myproc()'') | Some p \<Rightarrow> Inr p)"

section \<open>CPU numbers\<close>

definition setcpu :: "nat \<Rightarrow> int \<Rightarrow> 'a sstate_scheme \<Rightarrow> (int \<times> 'a sstate_scheme) res" where
  "setcpu c cpuNum s =
     rbind (curproc c s) (\<lambda>p. Inr (cpuNum, set_proc p (cpu_num_update (\<lambda>_. cpuNum)) s))"

definition getcpu :: "nat \<Rightarrow> 'a sstate_scheme \<Rightarrow> int res" where
  "getcpu c s = rbind (curproc c s) (\<lambda>p. Inr (cpu_num (procs s p)))"

definition cpu_at :: "int \<Rightarrow> nat res" where
  "cpu_at c = (if 0 \<le> c \<and> c < int NCPU then Inr (nat c) else Inl (Undef ''cpus[]''))"

definition cpu_process_count :: "int \<Rightarrow> 'a ptable_scheme \<Rightarrow> int res" where
  "cpu_process_count cpunum s =
     rbind (cpu_at cpunum) (\<lambda>c. Inr (sint (ucast (procCount s c) :: 32 word)))"

definition leastUsedCpu :: "'a ptable_scheme \<Rightarrow> int" where
  "leastUsedCpu s =
     int (unat (fold (\<lambda>i m. if m > procCount s i then procCount s i else m) [0..<NCPU] (of_nat NPROC)))"

text \<open>
  \<open>do{}while(cas(&cpus[n].procCount, cpus[n].procCount, cpus[n].procCount+1))\<close>: the
  compare-and-swap of one hart succeeds at once.
\<close>

definition count_up :: "int \<Rightarrow> 'a ptable_scheme \<Rightarrow> 'a ptable_scheme res" where
  "count_up n s =
     rbind (cpu_at n) (\<lambda>c. Inr (s\<lparr>procCount := (procCount s)(c := procCount s c + 1)\<rparr>))"

section \<open>Initialisation and process identifiers\<close>

definition procinit :: "'a sstate_scheme \<Rightarrow> 'a sstate_scheme res" where
  "procinit s =
     for_each (\<lambda>i s.
       let s = set_proc i (\<lambda>p. p\<lparr>plock := False, kstack := KSTACK (of_nat i), cpu_num := 0,
                 index_in_proc := int i\<rparr>) s in
       add_proc_to_list UnusedL (index_in_proc (procs s i)) s)
     [0..<NPROC] ((initlists s)\<lparr>pid_lock := False, wait_lock := False\<rparr>)"

definition allocpid :: "'a sstate_scheme \<Rightarrow> (int \<times> 'a sstate_scheme) res" where
  "allocpid s =
     rbind (spin_acquire (pid_lock s)) (\<lambda>h.
     let pid = nextpid s in
     if nextpid s \<ge> 2 ^ 31 - 1 then Inl (Undef ''signed overflow'')
     else
       let s = s\<lparr>nextpid := nextpid s + 1\<rparr> in
       rbind (spin_release h) (\<lambda>h. Inr (pid, s\<lparr>pid_lock := h\<rparr>)))"

section \<open>Page tables of processes\<close>

definition proc_pagetable :: "kparams \<Rightarrow> proc \<Rightarrow> kmem \<Rightarrow> (nat \<times> kmem) res" where
  "proc_pagetable K p k =
     rbind (uvmcreate k) (\<lambda>(pt, k).
     if pt = 0 then Inr (0, k)
     else
       rbind (mappages pt TRAMPOLINE 4096 (trampoline K) (PTE_R OR PTE_X) k) (\<lambda>(r, k).
       if r < 0 then rbind (uvmfree pt 0 k) (\<lambda>k. Inr (0, k))
       else
         rbind (mappages pt TRAPFRAME 4096 (of_nat (trapframe p)) (PTE_R OR PTE_W) k)
           (\<lambda>(r, k).
            if r < 0 then
              rbind (uvmunmap pt TRAMPOLINE 1 False k) (\<lambda>k.
              rbind (uvmfree pt 0 k) (\<lambda>k. Inr (0, k)))
            else Inr (pt, k))))"

definition proc_freepagetable :: "nat \<Rightarrow> u64 \<Rightarrow> kmem \<Rightarrow> kmem res" where
  "proc_freepagetable pt n k =
     rbind (uvmunmap pt TRAMPOLINE 1 False k) (\<lambda>k.
     rbind (uvmunmap pt TRAPFRAME 1 False k) (\<lambda>k.
     uvmfree pt n k))"

section \<open>Allocating and freeing a process\<close>

definition freeproc :: "nat \<Rightarrow> 'a sstate_scheme \<Rightarrow> 'a sstate_scheme res" where
  "freeproc i s =
     rbind (if trapframe (procs s i) \<noteq> 0
            then rbind (kfree (trapframe (procs s i)) (km s)) (\<lambda>k. Inr (s\<lparr>km := k\<rparr>))
            else Inr s) (\<lambda>s.
     let s = set_proc i (trapframe_update (\<lambda>_. 0)) s in
     rbind (if pagetable (procs s i) \<noteq> 0
            then rbind (proc_freepagetable (pagetable (procs s i)) (sz (procs s i)) (km s))
                   (\<lambda>k. Inr (s\<lparr>km := k\<rparr>))
            else Inr s) (\<lambda>s.
     rbind (remove_proc_from_list ZombieL (index_in_proc (procs s i)) s) (\<lambda>s.
     let s = set_proc i (\<lambda>p. p\<lparr>pagetable := 0, sz := 0, pid := 0, parent := None, pname := '''',
                chan := NoChan, killed := False, xstate := 0, state := UNUSED\<rparr>) s in
     add_proc_to_list UnusedL (index_in_proc (procs s i)) s)))"

definition allocproc :: "kparams \<Rightarrow> 'a sstate_scheme \<Rightarrow> (nat option \<times> 'a sstate_scheme) res" where
  "allocproc K s =
     rbind (acquire_list UnusedL s) (\<lambda>s.
     let firstUnused = first (lists s UnusedL) in
     if firstUnused \<ge> 0 then
       rbind (proc_at firstUnused) (\<lambda>p.
       rbind (acquire_proc p s) (\<lambda>s.
       rbind (release_list UnusedL s) (\<lambda>s.
       rbind (allocpid s) (\<lambda>(n, s).
       let s = set_proc p (pid_update (\<lambda>_. n)) s in
       rbind (remove_proc_from_list UnusedL firstUnused s) (\<lambda>s.
       let s = set_proc p (state_update (\<lambda>_. USED)) s in
       rbind (kalloc (km s)) (\<lambda>(t, k).
       let s = set_proc p (trapframe_update (\<lambda>_. t)) (s\<lparr>km := k\<rparr>) in
       if t = 0 then
         rbind (freeproc p s) (\<lambda>s.
         rbind (release_proc p s) (\<lambda>s. Inr (None, s)))
       else
         rbind (proc_pagetable K (procs s p) (km s)) (\<lambda>(g, k).
         let s = set_proc p (pagetable_update (\<lambda>_. g)) (s\<lparr>km := k\<rparr>) in
         if g = 0 then
           rbind (freeproc p s) (\<lambda>s.
           rbind (release_proc p s) (\<lambda>s. Inr (None, s)))
         else
           Inr (Some p, set_proc p (\<lambda>q. q\<lparr>pcontext :=
             zero_context\<lparr>ra := forkret_addr K, sp := kstack q + 4096\<rparr>\<rparr>) s))))))))
     else
       rbind (release_list UnusedL s) (\<lambda>s. Inr (None, s)))"

text \<open>\<open>growproc\<close>: the local \<open>sz\<close> is a 32-bit \<open>uint\<close>; the sum with \<open>n\<close> is computed in 32 bits.\<close>

definition growproc :: "nat \<Rightarrow> int \<Rightarrow> 'a sstate_scheme \<Rightarrow> (int \<times> 'a sstate_scheme) res" where
  "growproc c n s =
     rbind (curproc c s) (\<lambda>p.
     let sz0 = ucast (sz (procs s p)) :: u32; pt = pagetable (procs s p) in
     if n > 0 then
       rbind (uvmalloc pt (ucast sz0) (ucast (sz0 + of_int n)) (km s)) (\<lambda>(r, k).
       let s = s\<lparr>km := k\<rparr>; sz1 = ucast r :: u32 in
       if sz1 = 0 then Inr (-1, s)
       else Inr (0, set_proc p (sz_update (\<lambda>_. ucast sz1)) s))
     else if n < 0 then
       rbind (uvmdealloc pt (ucast sz0) (ucast (sz0 + of_int n)) (km s)) (\<lambda>(r, k).
       Inr (0, set_proc p (sz_update (\<lambda>_. ucast (ucast r :: u32))) (s\<lparr>km := k\<rparr>)))
     else Inr (0, set_proc p (sz_update (\<lambda>_. ucast sz0)) s))"

section \<open>Sleeping and waking\<close>

text \<open>The address of a process, as a sleep channel.\<close>

definition proc_chan :: "nat option \<Rightarrow> chan" where
  "proc_chan p = (case p of None \<Rightarrow> NoChan | Some i \<Rightarrow> ProcChan i)"

text \<open>Where a process that becomes runnable is queued, in \<open>fork\<close> and \<open>wakeup\<close>, under BLNCFLG.\<close>

definition balance :: "nat \<Rightarrow> 'a ptable_scheme \<Rightarrow> 'a ptable_scheme res" where
  "balance i s =
     (let newCpu = leastUsedCpu s in
      rbind (count_up newCpu s) (\<lambda>s.
      let s = set_proc i (cpu_num_update (\<lambda>_. newCpu)) s in
      rbind (runnable_of newCpu) (\<lambda>l.
      add_proc_to_list l (index_in_proc (procs s i)) s)))"

definition wakeup_one :: "bool \<Rightarrow> chan \<Rightarrow> nat \<Rightarrow> 'a ptable_scheme \<Rightarrow> 'a ptable_scheme res" where
  "wakeup_one blnc ch i s =
     rbind (acquire_proc i s) (\<lambda>s.
     rbind
       (if state (procs s i) = SLEEPING \<and> chan (procs s i) = ch then
          let s = set_proc i (state_update (\<lambda>_. RUNNABLE)) s in
          rbind (remove_proc_from_list SleepingL (index_in_proc (procs s i)) s) (\<lambda>s.
          if blnc then balance i s
          else add_proc_to_list (RunnableL 0) (index_in_proc (procs s i)) s)
        else Inr s)
     (release_proc i))"

definition wakeup :: "kparams \<Rightarrow> nat \<Rightarrow> chan \<Rightarrow> 'a sstate_scheme \<Rightarrow> 'a sstate_scheme res" where
  "wakeup K c ch s =
     for_each (\<lambda>i s. if Some i \<noteq> myproc c s then wakeup_one (blncflg K) ch i s else Inr s)
     [0..<NPROC] s"

definition kill_one :: "nat \<Rightarrow> 'a ptable_scheme \<Rightarrow> 'a ptable_scheme res" where
  "kill_one i s =
     (let s = set_proc i (killed_update (\<lambda>_. True)) s in
      if state (procs s i) = SLEEPING then
        rbind (remove_proc_from_list SleepingL (index_in_proc (procs s i)) s) (\<lambda>s.
        let s = set_proc i (state_update (\<lambda>_. RUNNABLE)) s in
        rbind (runnable_of (cpu_num (procs s i))) (\<lambda>l.
        add_proc_to_list l (index_in_proc (procs s i)) s))
      else Inr s)"

fun kill_loop :: "nat list \<Rightarrow> int \<Rightarrow> 'a ptable_scheme \<Rightarrow> (int \<times> 'a ptable_scheme) res" where
  "kill_loop [] n s = Inr (-1, s)"
| "kill_loop (i # is) n s =
     rbind (acquire_proc i s) (\<lambda>s.
     if pid (procs s i) = n then
       rbind (kill_one i s) (\<lambda>s.
       rbind (release_proc i s) (\<lambda>s. Inr (0, s)))
     else
       rbind (release_proc i s) (kill_loop is n))"

definition kill :: "int \<Rightarrow> 'a ptable_scheme \<Rightarrow> (int \<times> 'a ptable_scheme) res" where
  "kill n s = kill_loop [0..<NPROC] n s"

text \<open>
  The end of \<open>fork\<close>, from \<open>release(&np->lock)\<close> on: the child gets its parent and becomes
  runnable, on the CPU of its parent unless BLNCFLG is set.
\<close>

definition fork_publish :: "kparams \<Rightarrow> nat \<Rightarrow> nat \<Rightarrow> 'a sstate_scheme \<Rightarrow> 'a sstate_scheme res" where
  "fork_publish K p np s =
     rbind (release_proc np s) (\<lambda>s.
     rbind (acquire_lk WaitLk s) (\<lambda>s.
     let s = set_proc np (parent_update (\<lambda>_. Some p)) s in
     rbind (release_lk WaitLk s) (\<lambda>s.
     rbind (acquire_proc np s) (\<lambda>s.
     let s = set_proc np (state_update (\<lambda>_. RUNNABLE)) s in
     rbind (if blncflg K then balance np s
            else rbind (runnable_of (cpu_num (procs s p))) (\<lambda>l.
                 add_proc_to_list l (index_in_proc (procs s np)) s))
     (release_proc np)))))"

text \<open>The end of \<open>userinit\<close>, from \<open>p->state = RUNNABLE\<close> on.\<close>

definition userinit_publish :: "nat \<Rightarrow> 'a sstate_scheme \<Rightarrow> 'a sstate_scheme res" where
  "userinit_publish p s =
     (let s = set_proc p (state_update (\<lambda>_. RUNNABLE)) s in
      rbind (add_proc_to_list (RunnableL 0) (index_in_proc (procs s p)) s) (release_proc p))"

section \<open>Switching\<close>

text \<open>
  \<open>sched\<close> up to \<open>swtch\<close>; the value is \<open>intena\<close>, which the code restores after the switch.
\<close>

definition sched :: "nat \<Rightarrow> 'a sstate_scheme \<Rightarrow> bool res" where
  "sched c s =
     rbind (curproc c s) (\<lambda>p.
     if \<not> plock (procs s p) then Inl (Panic ''sched p->lock'')
     else if noff_count s \<noteq> 1 then Inl (Panic ''sched locks'')
     else if state (procs s p) = RUNNING then Inl (Panic ''sched running'')
     else if intr_get s then Inl (Panic ''sched interruptible'')
     else Inr (cintena (cpus s c)))"

definition set_hart :: "nat \<Rightarrow> (cpu \<Rightarrow> cpu) \<Rightarrow> 'a sstate_scheme \<Rightarrow> 'a sstate_scheme" where
  "set_hart c f s = s\<lparr>cpus := (cpus s)(c := f (cpus s c))\<rparr>"

definition sched_in :: "nat \<Rightarrow> bool \<Rightarrow> 'a sstate_scheme \<Rightarrow> 'a sstate_scheme" where
  "sched_in c ie s = set_hart c (cintena_update (\<lambda>_. ie)) s"

definition yield_out :: "nat \<Rightarrow> 'a sstate_scheme \<Rightarrow> (bool \<times> 'a sstate_scheme) res" where
  "yield_out c s =
     rbind (curproc c s) (\<lambda>p.
     rbind (acquire_proc p s) (\<lambda>s.
     let s = set_proc p (state_update (\<lambda>_. RUNNABLE)) s in
     rbind (runnable_of (cpu_num (procs s p))) (\<lambda>l.
     rbind (add_proc_to_list l (index_in_proc (procs s p)) s) (\<lambda>s.
     rbind (sched c s) (\<lambda>ie. Inr (ie, s))))))"

definition yield_in :: "nat \<Rightarrow> nat \<Rightarrow> bool \<Rightarrow> 'a sstate_scheme \<Rightarrow> 'a sstate_scheme res" where
  "yield_in c p ie s = release_proc p (sched_in c ie s)"

definition sleep_out :: "nat \<Rightarrow> chan \<Rightarrow> lkid \<Rightarrow> 'a sstate_scheme \<Rightarrow> (bool \<times> 'a sstate_scheme) res" where
  "sleep_out c ch lk s =
     rbind (curproc c s) (\<lambda>p.
     rbind (acquire_proc p s) (\<lambda>s.
     rbind (add_proc_to_list SleepingL (index_in_proc (procs s p)) s) (\<lambda>s.
     rbind (release_lk lk s) (\<lambda>s.
     let s = set_proc p (\<lambda>q. q\<lparr>chan := ch, state := SLEEPING\<rparr>) s in
     rbind (sched c s) (\<lambda>ie. Inr (ie, s))))))"

definition sleep_in :: "nat \<Rightarrow> nat \<Rightarrow> bool \<Rightarrow> lkid \<Rightarrow> 'a sstate_scheme \<Rightarrow> 'a sstate_scheme res" where
  "sleep_in c p ie lk s =
     (let s = set_proc p (chan_update (\<lambda>_. NoChan)) (sched_in c ie s) in
      rbind (release_proc p s) (acquire_lk lk))"

text \<open>The scheduler's loop body, before and after \<open>swtch\<close>.\<close>

definition scheduler_pick :: "nat \<Rightarrow> 'a sstate_scheme \<Rightarrow> (nat option \<times> 'a sstate_scheme) res" where
  "scheduler_pick c s =
     rbind (acquire_list (RunnableL c) s) (\<lambda>s.
     let firstRunnable = first (lists s (RunnableL c)) in
     if firstRunnable \<ge> 0 then
       rbind (proc_at firstRunnable) (\<lambda>p.
       rbind (acquire_proc p s) (\<lambda>s.
       rbind (release_list (RunnableL c) s) (\<lambda>s.
       let s = set_hart c (cproc_update (\<lambda>_. Some p)) (set_proc p (state_update (\<lambda>_. RUNNING)) s) in
       rbind (remove_proc_from_list (RunnableL c) (index_in_proc (procs s p)) s) (\<lambda>s.
       Inr (Some p, s)))))
     else
       rbind (release_list (RunnableL c) s) (\<lambda>s. Inr (None, s)))"

definition scheduler_back :: "nat \<Rightarrow> nat \<Rightarrow> 'a sstate_scheme \<Rightarrow> 'a sstate_scheme res" where
  "scheduler_back c p s = release_proc p (set_hart c (cproc_update (\<lambda>_. None)) s)"

section \<open>Exit and wait\<close>

definition reparent :: "kparams \<Rightarrow> nat \<Rightarrow> nat \<Rightarrow> 'a sstate_scheme \<Rightarrow> 'a sstate_scheme res" where
  "reparent K c p s =
     for_each (\<lambda>i s.
       if parent (procs s i) = Some p then
         let s = set_proc i (parent_update (\<lambda>_. initproc s)) s in
         wakeup K c (proc_chan (initproc s)) s
       else Inr s) [0..<NPROC] s"

text \<open>\<open>exit\<close> from \<open>acquire(&wait_lock)\<close> to the switch; the files are closed before.\<close>

definition exit_rest :: "kparams \<Rightarrow> nat \<Rightarrow> nat \<Rightarrow> int \<Rightarrow> 'a sstate_scheme \<Rightarrow> 'a sstate_scheme res" where
  "exit_rest K c p status s =
     rbind (acquire_lk WaitLk s) (\<lambda>s.
     rbind (reparent K c p s) (\<lambda>s.
     rbind (wakeup K c (proc_chan (parent (procs s p))) s) (\<lambda>s.
     rbind (acquire_proc p s) (\<lambda>s.
     let s = set_proc p (\<lambda>q. q\<lparr>xstate := status, state := ZOMBIE\<rparr>) s in
     rbind (add_proc_to_list ZombieL (index_in_proc (procs s p)) s) (\<lambda>s.
     rbind (release_lk WaitLk s) (\<lambda>s.
     rbind (sched c s) (\<lambda>_. Inr s)))))))"

text \<open>
  One scan of the table in \<open>wait\<close>, with \<open>wait_lock\<close> held: \<open>Inl r\<close> is the return value of
  \<open>wait\<close>, \<open>Inr havekids\<close> the end of the scan. The exit status goes to user memory as four
  little-endian bytes.
\<close>

definition int_bytes :: "int \<Rightarrow> u8 list" where
  "int_bytes n = map (\<lambda>i. ucast (drop_bit (8 * i) (of_int n :: u32))) [0..<4]"

fun wait_scan ::
  "nat list \<Rightarrow> nat \<Rightarrow> u64 \<Rightarrow> bool \<Rightarrow> 'a sstate_scheme \<Rightarrow> ((int + bool) \<times> 'a sstate_scheme) res" where
  "wait_scan [] p addr havekids s = Inr (Inr havekids, s)"
| "wait_scan (i # is) p addr havekids s =
     (if parent (procs s i) = Some p then
        rbind (acquire_proc i s) (\<lambda>s.
        if state (procs s i) = ZOMBIE then
          let n = pid (procs s i) in
          rbind (if addr \<noteq> 0
                 then rbind (copyout (pagetable (procs s p)) addr (int_bytes (xstate (procs s i))) (km s))
                        (\<lambda>(r, k). Inr (r, s\<lparr>km := k\<rparr>))
                 else Inr (0, s)) (\<lambda>(r, s).
          if r < 0 then
            rbind (release_proc i s) (\<lambda>s.
            rbind (release_lk WaitLk s) (\<lambda>s. Inr (Inl (-1), s)))
          else
            rbind (freeproc i s) (\<lambda>s.
            rbind (release_proc i s) (\<lambda>s.
            rbind (release_lk WaitLk s) (\<lambda>s. Inr (Inl n, s)))))
        else
          rbind (release_proc i s) (wait_scan is p addr True))
      else wait_scan is p addr havekids s)"

text \<open>
  The body of the \<open>for(;;)\<close> loop of \<open>wait\<close>: \<open>Inl r\<close> when it returns \<open>r\<close>, \<open>Inr ie\<close> when it goes
  to sleep (and, once woken, continues with \<open>sleep_in\<close> and the body again).
\<close>

definition wait_body :: "nat \<Rightarrow> u64 \<Rightarrow> 'a sstate_scheme \<Rightarrow> ((int + bool) \<times> 'a sstate_scheme) res" where
  "wait_body c addr s =
     rbind (curproc c s) (\<lambda>p.
     rbind (wait_scan [0..<NPROC] p addr False s) (\<lambda>(r, s).
     case r of
       Inl n \<Rightarrow> Inr (Inl n, s)
     | Inr havekids \<Rightarrow>
         if \<not> havekids \<or> killed (procs s p) then
           rbind (release_lk WaitLk s) (\<lambda>s. Inr (Inl (-1), s))
         else
           rbind (sleep_out c (ProcChan p) WaitLk s) (\<lambda>(ie, s). Inr (Inr ie, s))))"

definition wait_start :: "nat \<Rightarrow> u64 \<Rightarrow> 'a sstate_scheme \<Rightarrow> ((int + bool) \<times> 'a sstate_scheme) res" where
  "wait_start c addr s = rbind (acquire_lk WaitLk s) (wait_body c addr)"

definition wait_resume ::
  "nat \<Rightarrow> nat \<Rightarrow> bool \<Rightarrow> u64 \<Rightarrow> 'a sstate_scheme \<Rightarrow> ((int + bool) \<times> 'a sstate_scheme) res" where
  "wait_resume c p ie addr s = rbind (sleep_in c p ie WaitLk s) (wait_body c addr)"

section \<open>Copying to and from the current process\<close>

text \<open>
  A buffer address is a user address or the address of a kernel page, as the flag
  \<open>user_dst\<close> says.
\<close>

datatype uaddr = User u64 | Kernel nat

definition either_copyout :: "nat \<Rightarrow> uaddr \<Rightarrow> u8 list \<Rightarrow> kmem \<Rightarrow> (int \<times> kmem) res" where
  "either_copyout pt dst src k =
     (case dst of
        User va \<Rightarrow> copyout pt va src k
      | Kernel a \<Rightarrow> Inr (0, k\<lparr>ram := put_bytes (ram k) a src\<rparr>))"

definition either_copyin :: "nat \<Rightarrow> uaddr \<Rightarrow> nat \<Rightarrow> kmem \<Rightarrow> (int \<times> u8 list) res" where
  "either_copyin pt src len k =
     (case src of
        User va \<Rightarrow> copyin pt va len k
      | Kernel a \<Rightarrow> Inr (0, bytes (ram k) a len))"

definition uaddr_plus :: "uaddr \<Rightarrow> nat \<Rightarrow> uaddr" where
  "uaddr_plus u n = (case u of User va \<Rightarrow> User (va + of_nat n) | Kernel a \<Rightarrow> Kernel (a + n))"

section \<open>procdump\<close>

definition state_name :: "procstate \<Rightarrow> string" where
  "state_name st =
     (case st of
        UNUSED \<Rightarrow> ''unused'' | SLEEPING \<Rightarrow> ''sleep '' | RUNNABLE \<Rightarrow> ''runble''
      | RUNNING \<Rightarrow> ''run   '' | ZOMBIE \<Rightarrow> ''zombie'' | USED \<Rightarrow> ''???'')"

text \<open>The lines that \<open>procdump\<close> prints, as the arguments of each \<open>printf\<close>.\<close>

definition procdump :: "'a ptable_scheme \<Rightarrow> (int \<times> string \<times> string) list" where
  "procdump s =
     map (\<lambda>i. (pid (procs s i), state_name (state (procs s i)), pname (procs s i)))
       (filter (\<lambda>i. state (procs s i) \<noteq> UNUSED) [0..<NPROC])"

end
