(* ===== verification/Scheduling.thy ===== *)
theory Scheduling
  imports Sched
begin

text \<open>
  Correctness of the process table and the scheduler. \<open>rep s V Q R\<close> relates a state to the
  abstract view of it: the process table \<open>V\<close> without its link fields, and the queues \<open>Q\<close>, one
  HOL list of process indices per process list; \<open>R\<close> holds the remaining fields. Each list
  operation of the code is a queue operation on \<open>Q\<close>.

  The invariant \<open>kinv\<close> says where every process is: an unused process on the unused list,
  a sleeping one on the sleeping list, and so on, each on exactly one list; a running one
  on no list and on exactly one CPU. It also covers process identifiers and the parent
  relation.
\<close>

section \<open>The abstract view\<close>

definition core :: "proc \<Rightarrow> proc" where
  "core p = p\<lparr>next_index_in_list := 0\<rparr>"

definition view :: "'a ptable_scheme \<Rightarrow> nat \<Rightarrow> proc" where
  "view s i = core (procs s i)"

lemma core_sel [simp]:
  "plock (core p) = plock p" "stateLock (core p) = stateLock p" "state (core p) = state p"
  "chan (core p) = chan p" "killed (core p) = killed p" "xstate (core p) = xstate p"
  "pid (core p) = pid p" "cpu_num (core p) = cpu_num p" "index_in_proc (core p) = index_in_proc p"
  "parent (core p) = parent p" "kstack (core p) = kstack p" "sz (core p) = sz p"
  "pagetable (core p) = pagetable p" "trapframe (core p) = trapframe p"
  "ofile (core p) = ofile p" "cwd (core p) = cwd p" "pname (core p) = pname p"
  "next_index_in_list (core p) = 0" "pcontext (core p) = pcontext p"
  by (simp_all add: core_def)

text \<open>An update of a process that leaves its link field and its list lock alone.\<close>

definition safe :: "(proc \<Rightarrow> proc) \<Rightarrow> bool" where
  "safe f \<longleftrightarrow> (\<forall>p. core (f p) = f (core p) \<and> stateLock (f p) = stateLock p \<and>
     next_index_in_list (f p) = next_index_in_list p)"

definition rep ::
  "'a sstate_scheme \<Rightarrow> (nat \<Rightarrow> proc) \<Rightarrow> (listid \<Rightarrow> nat list) \<Rightarrow> 'a sstate_scheme \<Rightarrow> bool" where
  "rep s V Q R \<longleftrightarrow> plists_ok s \<and> view s = V \<and> (\<forall>l \<in> all_lists. contents s l = Q l) \<and>
     ptable.more s = ptable.more R \<and> procCount s = procCount R"

lemma more_fields:
  assumes "ptable.more s = ptable.more R"
  shows "cpus s = cpus R" "initproc s = initproc R" "nextpid s = nextpid R"
    "pid_lock s = pid_lock R" "wait_lock s = wait_lock R" "other_lock s = other_lock R"
    "km s = km R" "sstate.more s = sstate.more R"
  using assms by (cases s; cases R; simp)+

lemma repD:
  assumes "rep s V Q R"
  shows "plists_ok s" "core (procs s i) = V i" "l \<in> all_lists \<Longrightarrow> contents s l = Q l"
    "cpus s = cpus R" "initproc s = initproc R" "nextpid s = nextpid R"
    "pid_lock s = pid_lock R" "wait_lock s = wait_lock R" "other_lock s = other_lock R"
    "km s = km R" "procCount s = procCount R"
  using assms more_fields [of s R] by (auto simp: rep_def view_def fun_eq_iff)

lemma rep_sel:
  assumes "rep s V Q R"
  shows "plock (procs s i) = plock (V i)" "stateLock (procs s i) = stateLock (V i)"
    "state (procs s i) = state (V i)" "chan (procs s i) = chan (V i)"
    "killed (procs s i) = killed (V i)" "xstate (procs s i) = xstate (V i)"
    "pid (procs s i) = pid (V i)" "cpu_num (procs s i) = cpu_num (V i)"
    "index_in_proc (procs s i) = index_in_proc (V i)" "parent (procs s i) = parent (V i)"
    "kstack (procs s i) = kstack (V i)" "sz (procs s i) = sz (V i)"
    "pagetable (procs s i) = pagetable (V i)" "trapframe (procs s i) = trapframe (V i)"
    "ofile (procs s i) = ofile (V i)" "cwd (procs s i) = cwd (V i)" "pname (procs s i) = pname (V i)"
  using repD(2) [OF assms, of i] by (auto simp: core_def dest: sym)

lemma rep_self: "plists_ok s \<Longrightarrow> rep s (view s) (contents s) s"
  by (simp add: rep_def)

section \<open>Operations on the view\<close>

lemma rep_add:
  assumes "rep s V Q R" "l \<in> all_lists" "i < NPROC" "\<forall>m \<in> all_lists. i \<notin> set (Q m)"
  shows "okres B (add_proc_to_list l (int i) s) (\<lambda>s'. rep s' V (Q(l := Q l @ [i])) R)"
proof -
  have "\<forall>m \<in> all_lists. i \<notin> set (contents s m)" using assms(1,4) by (simp add: rep_def)
  from pl.add_ok [OF repD(1) [OF assms(1)] assms(2,3) this]
  obtain s' where "add_proc_to_list l (int i) s = Inr s'" "plists_ok s'" "same_rest s' s"
      "\<forall>m \<in> all_lists. contents s' m = (if m = l then contents s l @ [i] else contents s m)"
    by blast
  with assms(1,2) show ?thesis
    by (auto simp: rep_def same_rest_def view_def core_def fun_eq_iff)
qed

lemma rep_remove:
  assumes "rep s V Q R" "l \<in> all_lists" "i \<in> set (Q l)"
  shows "okres B (remove_proc_from_list l (int i) s) (\<lambda>s'. rep s' V (Q(l := remove1 i (Q l))) R)"
proof -
  have "i \<in> set (contents s l)" using assms by (simp add: rep_def)
  from pl.remove_ok [OF repD(1) [OF assms(1)] assms(2) this]
  obtain s' where "remove_proc_from_list l (int i) s = Inr s'" "plists_ok s'" "same_rest s' s"
      "\<forall>m \<in> all_lists. contents s' m = (if m = l then remove1 i (contents s l) else contents s m)"
    by blast
  with assms(1,2) show ?thesis
    by (auto simp: rep_def same_rest_def view_def core_def fun_eq_iff)
qed

lemma procs_set_proc [simp]:
  "procs (set_proc i f s) j = (if j = i then f (procs s i) else procs s j)"
  "lists (set_proc i f s) = lists s"
  "procCount (set_proc i f s) = procCount s"
  "ptable.more (set_proc i f s) = ptable.more s"
  by (simp_all add: set_proc_def)

lemma nxt_of_set_proc:
  "(\<And>p. next_index_in_list (f p) = next_index_in_list p) \<Longrightarrow> nxt_of (set_proc i f s) = nxt_of s"
  by (auto simp: nxt_of_def)

lemma contents_cong:
  "nxt_of s = nxt_of t \<Longrightarrow> lists s = lists t \<Longrightarrow> contents s = contents t"
  by (rule ext) (simp add: contents_def)

lemma plists_ok_cong:
  "nxt_of s = nxt_of t \<Longrightarrow> lists s = lists t \<Longrightarrow> slocks_free s = slocks_free t \<Longrightarrow>
     plists_ok s = plists_ok t"
  using contents_cong [of s t] by (simp add: plists_ok_def)

lemma rep_set:
  assumes "rep s V Q R" "safe f"
  shows "rep (set_proc i f s) (V(i := f (V i))) Q R"
proof -
  have "nxt_of (set_proc i f s) = nxt_of s"
    using assms(2) by (intro nxt_of_set_proc) (simp add: safe_def)
  moreover have "slocks_free (set_proc i f s) = slocks_free s"
    using assms(2) by (auto simp: slocks_free_def safe_def)
  moreover have "view (set_proc i f s) = V(i := f (V i))"
    using assms by (auto simp: rep_def view_def safe_def fun_eq_iff)
  ultimately show ?thesis
    using assms(1) plists_ok_cong [of "set_proc i f s" s] contents_cong [of "set_proc i f s" s]
    by (simp add: rep_def)
qed

lemma safe_updates [simp, intro]:
  "safe (plock_update g)" "safe (state_update h)" "safe (chan_update g1)" "safe (killed_update g2)"
  "safe (pid_update g3)" "safe (cpu_num_update g4)" "safe (parent_update g5)"
  "safe (sz_update g6)" "safe (pagetable_update g7)" "safe (trapframe_update g8)"
  "safe (\<lambda>q. q\<lparr>chan := c1, state := st1\<rparr>)" "safe (\<lambda>q. q\<lparr>xstate := x2, state := st2\<rparr>)"
  "safe (\<lambda>q. q\<lparr>pcontext := pc (kstack q)\<rparr>)"
  "safe (\<lambda>p. p\<lparr>pagetable := a1, sz := a2, pid := a3, parent := a4, pname := a5,
     chan := a6, killed := a7, xstate := a8, state := a9\<rparr>)"
  by (simp_all add: safe_def core_def)

lemma rep_acquire:
  assumes "rep s V Q R" "\<not> plock (V i)"
  shows "okres B (acquire_proc i s) (\<lambda>s'. rep s' (V(i := (V i)\<lparr>plock := True\<rparr>)) Q R)"
proof -
  have "rep (set_proc i (plock_update (\<lambda>_. True)) s) (V(i := (V i)\<lparr>plock := True\<rparr>)) Q R"
    by (rule rep_set [OF assms(1)]) simp
  with assms rep_sel(1) [OF assms(1)] show ?thesis by (simp add: acquire_proc_def)
qed

lemma rep_release:
  assumes "rep s V Q R" "plock (V i)"
  shows "okres B (release_proc i s) (\<lambda>s'. rep s' (V(i := (V i)\<lparr>plock := False\<rparr>)) Q R)"
proof -
  have "rep (set_proc i (plock_update (\<lambda>_. False)) s) (V(i := (V i)\<lparr>plock := False\<rparr>)) Q R"
    by (rule rep_set [OF assms(1)]) simp
  with assms rep_sel(1) [OF assms(1)] show ?thesis by (simp add: release_proc_def)
qed

section \<open>Where a process is queued\<close>

definition on_lists :: "(listid \<Rightarrow> nat list) \<Rightarrow> nat \<Rightarrow> listid set" where
  "on_lists Q i = {l \<in> all_lists. i \<in> set (Q l)}"

definition fits :: "procstate \<Rightarrow> listid set \<Rightarrow> bool" where
  "fits st L =
     (case st of
        UNUSED \<Rightarrow> L = {UnusedL}
      | ZOMBIE \<Rightarrow> L = {ZombieL}
      | SLEEPING \<Rightarrow> L = {SleepingL}
      | RUNNABLE \<Rightarrow> (\<exists>c < NCPU. L = {RunnableL c})
      | RUNNING \<Rightarrow> L = {}
      | USED \<Rightarrow> L = {})"

lemma fits_simps [simp]:
  "fits UNUSED L \<longleftrightarrow> L = {UnusedL}" "fits ZOMBIE L \<longleftrightarrow> L = {ZombieL}"
  "fits SLEEPING L \<longleftrightarrow> L = {SleepingL}" "fits RUNNABLE L \<longleftrightarrow> (\<exists>c < NCPU. L = {RunnableL c})"
  "fits RUNNING L \<longleftrightarrow> L = {}" "fits USED L \<longleftrightarrow> L = {}"
  by (simp_all add: fits_def)

lemma on_lists_add:
  "l \<in> all_lists \<Longrightarrow>
     on_lists (Q(l := Q l @ [i])) j = (if j = i then insert l (on_lists Q j) else on_lists Q j)"
  by (auto simp: on_lists_def)

lemma on_lists_remove:
  "distinct (Q l) \<Longrightarrow>
     on_lists (Q(l := remove1 i (Q l))) j = (if j = i then on_lists Q j - {l} else on_lists Q j)"
  by (auto simp: on_lists_def)

lemma on_lists_empty: "on_lists Q i = {} \<longleftrightarrow> (\<forall>m \<in> all_lists. i \<notin> set (Q m))"
  by (auto simp: on_lists_def)

lemma on_lists_mem: "on_lists Q i = {l} \<Longrightarrow> l \<in> all_lists \<and> i \<in> set (Q l)"
  by (auto simp: on_lists_def)

lemma rep_distinct: "rep s V Q R \<Longrightarrow> l \<in> all_lists \<Longrightarrow> distinct (Q l)"
  using plists_okD(2) [of s l] by (simp add: rep_def)

text \<open>Adding and removing, in terms of \<open>on_lists\<close>.\<close>

lemma rep_add_on:
  assumes "rep s V Q R" "l \<in> all_lists" "i < NPROC" "on_lists Q i = {}" "index_in_proc (V i) = int i"
  shows "okres B (add_proc_to_list l (index_in_proc (procs s i)) s)
    (\<lambda>s'. rep s' V (Q(l := Q l @ [i])) R)"
  using rep_add [OF assms(1-3)] assms(4,5) rep_sel(9) [OF assms(1), of i]
  by (simp add: on_lists_empty)

lemma rep_remove_on:
  assumes "rep s V Q R" "on_lists Q i = {l}" "index_in_proc (V i) = int i"
  shows "okres B (remove_proc_from_list l (index_in_proc (procs s i)) s)
    (\<lambda>s'. rep s' V (Q(l := remove1 i (Q l))) R)"
  using rep_remove [OF assms(1)] on_lists_mem [OF assms(2)] assms(3) rep_sel(9) [OF assms(1), of i]
  by simp

section \<open>The invariant\<close>

definition placement :: "(nat \<Rightarrow> proc) \<Rightarrow> (listid \<Rightarrow> nat list) \<Rightarrow> bool" where
  "placement V Q \<longleftrightarrow> (\<forall>i < NPROC. index_in_proc (V i) = int i \<and>
     0 \<le> cpu_num (V i) \<and> cpu_num (V i) < int NCPU \<and> fits (state (V i)) (on_lists Q i))"

definition running :: "(nat \<Rightarrow> proc) \<Rightarrow> (nat \<Rightarrow> cpu) \<Rightarrow> bool" where
  "running V C \<longleftrightarrow>
     (\<forall>c i. cproc (C c) = Some i \<longrightarrow> c < NCPU \<and> i < NPROC \<and> state (V i) = RUNNING) \<and>
     (\<forall>c d i. cproc (C c) = Some i \<longrightarrow> cproc (C d) = Some i \<longrightarrow> c = d) \<and>
     (\<forall>i < NPROC. state (V i) = RUNNING \<longrightarrow> (\<exists>c. cproc (C c) = Some i))"

definition pids :: "(nat \<Rightarrow> proc) \<Rightarrow> int \<Rightarrow> bool" where
  "pids V n \<longleftrightarrow> 0 < n \<and>
     (\<forall>i < NPROC. if state (V i) = UNUSED then pid (V i) = 0 else 0 < pid (V i) \<and> pid (V i) < n) \<and>
     (\<forall>i < NPROC. \<forall>j < NPROC. state (V i) \<noteq> UNUSED \<longrightarrow> pid (V i) = pid (V j) \<longrightarrow> i = j)"

definition alive :: "procstate \<Rightarrow> bool" where
  "alive st \<longleftrightarrow> st \<noteq> UNUSED \<and> st \<noteq> ZOMBIE"

definition family :: "(nat \<Rightarrow> proc) \<Rightarrow> nat option \<Rightarrow> bool" where
  "family V ini \<longleftrightarrow>
     (\<forall>j. ini = Some j \<longrightarrow> j < NPROC \<and> alive (state (V j))) \<and>
     (\<forall>i < NPROC. \<forall>j. parent (V i) = Some j \<longrightarrow> j < NPROC \<and> alive (state (V j))) \<and>
     (\<forall>i < NPROC. state (V i) = UNUSED \<longrightarrow> parent (V i) = None)"

definition table_inv :: "(nat \<Rightarrow> proc) \<Rightarrow> (listid \<Rightarrow> nat list) \<Rightarrow> 'a sstate_scheme \<Rightarrow> bool" where
  "table_inv V Q R \<longleftrightarrow> placement V Q \<and> running V (cpus R) \<and> pids V (nextpid R) \<and> family V (initproc R)"

definition plocks_free :: "(nat \<Rightarrow> proc) \<Rightarrow> bool" where
  "plocks_free V \<longleftrightarrow> (\<forall>i. \<not> plock (V i))"

definition locks_free :: "'a sstate_scheme \<Rightarrow> bool" where
  "locks_free R \<longleftrightarrow> \<not> pid_lock R \<and> \<not> wait_lock R \<and> \<not> other_lock R"

definition kinv :: "'a sstate_scheme \<Rightarrow> bool" where
  "kinv s \<longleftrightarrow> plists_ok s \<and> table_inv (view s) (contents s) s \<and> plocks_free (view s) \<and> locks_free s"

lemma on_lists_cong: "(\<And>l. l \<in> all_lists \<Longrightarrow> Q l = Q' l) \<Longrightarrow> on_lists Q = on_lists Q'"
  by (auto simp: on_lists_def fun_eq_iff)

lemma table_inv_rep:
  assumes "rep s V Q R"
  shows "table_inv (view s) (contents s) s \<longleftrightarrow> table_inv V Q R"
  using assms on_lists_cong [of "contents s" Q] more_fields [of s R]
  by (simp add: rep_def table_inv_def placement_def)

lemma kinv_rep:
  assumes "rep s V Q R"
  shows "kinv s \<longleftrightarrow> table_inv V Q R \<and> plocks_free V \<and> locks_free R"
  using table_inv_rep [OF assms] assms more_fields [of s R]
  by (simp add: kinv_def rep_def locks_free_def)

lemma kinvE:
  assumes "kinv s"
  obtains V Q where "rep s V Q s" "table_inv V Q s" "plocks_free V" "locks_free s"
proof (rule that)
  show "rep s (view s) (contents s) s" "table_inv (view s) (contents s) s" "plocks_free (view s)"
    "locks_free s"
    using assms by (simp_all add: kinv_def rep_self)
qed

text \<open>What a change of one process does to the parts of the invariant.\<close>

lemma placement_upd:
  assumes "placement V Q" "\<And>j. j < NPROC \<Longrightarrow> j \<noteq> i \<Longrightarrow> on_lists Q' j = on_lists Q j"
    and "i < NPROC \<Longrightarrow> index_in_proc p = int i \<and> 0 \<le> cpu_num p \<and> cpu_num p < int NCPU \<and>
      fits (state p) (on_lists Q' i)"
  shows "placement (V(i := p)) Q'"
  using assms by (auto simp: placement_def)

lemma running_same:
  "running V C \<Longrightarrow> state p = RUNNING \<longleftrightarrow> state (V i) = RUNNING \<Longrightarrow> running (V(i := p)) C"
  by (auto simp: running_def)

lemma runningD:
  assumes "running V C"
  shows "cproc (C c) = Some i \<Longrightarrow> c < NCPU \<and> i < NPROC \<and> state (V i) = RUNNING"
    "cproc (C c) = Some i \<Longrightarrow> cproc (C d) = Some i \<Longrightarrow> c = d"
    "i < NPROC \<Longrightarrow> state (V i) = RUNNING \<Longrightarrow> \<exists>c. cproc (C c) = Some i"
  using assms unfolding running_def by blast+

lemma runningI:
  assumes "\<And>c i. cproc (C c) = Some i \<Longrightarrow> c < NCPU \<and> i < NPROC \<and> state (V i) = RUNNING"
    and "\<And>c d i. cproc (C c) = Some i \<Longrightarrow> cproc (C d) = Some i \<Longrightarrow> c = d"
    and "\<And>i. i < NPROC \<Longrightarrow> state (V i) = RUNNING \<Longrightarrow> \<exists>c. cproc (C c) = Some i"
  shows "running V C"
  using assms unfolding running_def by blast

lemma running_leave:
  assumes r: "running V C" and c: "cproc (C c) = Some i" and p: "state p \<noteq> RUNNING"
  shows "running (V(i := p)) (C(c := (C c)\<lparr>cproc := None\<rparr>))"
proof (rule runningI)
  fix d j assume "cproc ((C(c := (C c)\<lparr>cproc := None\<rparr>)) d) = Some j"
  then have d: "d \<noteq> c" "cproc (C d) = Some j" by (auto split: if_splits)
  then have "j \<noteq> i" using runningD(2) [OF r c] by auto
  with runningD(1) [OF r d(2)] show "d < NCPU \<and> j < NPROC \<and> state ((V(i := p)) j) = RUNNING"
    by simp
next
  fix d e j
  assume "cproc ((C(c := (C c)\<lparr>cproc := None\<rparr>)) d) = Some j"
    "cproc ((C(c := (C c)\<lparr>cproc := None\<rparr>)) e) = Some j"
  then show "d = e" using runningD(2) [OF r] by (auto split: if_splits)
next
  fix j assume j: "j < NPROC" "state ((V(i := p)) j) = RUNNING"
  then have "j \<noteq> i" "state (V j) = RUNNING" using p by (auto split: if_splits)
  with j runningD(3) [OF r] obtain d where "cproc (C d) = Some j" by blast
  with c \<open>j \<noteq> i\<close> show "\<exists>d. cproc ((C(c := (C c)\<lparr>cproc := None\<rparr>)) d) = Some j"
    by (intro exI [of _ d]) auto
qed

lemma running_enter:
  assumes r: "running V C" and c: "cproc (C c) = None" "c < NCPU" and i: "i < NPROC"
    and "state (V i) \<noteq> RUNNING" and p: "state p = RUNNING"
  shows "running (V(i := p)) (C(c := (C c)\<lparr>cproc := Some i\<rparr>))"
proof (rule runningI)
  have ni: "cproc (C d) \<noteq> Some i" for d using runningD(1) [OF r, of d i] assms(5) by auto
  {
    fix d j assume "cproc ((C(c := (C c)\<lparr>cproc := Some i\<rparr>)) d) = Some j"
    then show "d < NCPU \<and> j < NPROC \<and> state ((V(i := p)) j) = RUNNING"
      using runningD(1) [OF r, of d j] c(2) i p by (auto split: if_splits)
  }
  fix d e j
  assume "cproc ((C(c := (C c)\<lparr>cproc := Some i\<rparr>)) d) = Some j"
    "cproc ((C(c := (C c)\<lparr>cproc := Some i\<rparr>)) e) = Some j"
  then show "d = e" using runningD(2) [OF r, of d j e] ni by (auto split: if_splits)
next
  fix j assume j: "j < NPROC" "state ((V(i := p)) j) = RUNNING"
  show "\<exists>d. cproc ((C(c := (C c)\<lparr>cproc := Some i\<rparr>)) d) = Some j"
  proof (cases "j = i")
    case True
    then show ?thesis by (intro exI [of _ c]) simp
  next
    case False
    with j runningD(3) [OF r] obtain d where "cproc (C d) = Some j" by auto
    with c(1) show ?thesis by (intro exI [of _ d]) auto
  qed
qed

lemma pids_same:
  assumes "pids V n" "pid p = pid (V i)" "state p = UNUSED \<longleftrightarrow> state (V i) = UNUSED"
  shows "pids (V(i := p)) n"
proof -
  have "pid ((V(i := p)) j) = pid (V j)" "state ((V(i := p)) j) = UNUSED \<longleftrightarrow> state (V j) = UNUSED" for j
    using assms(2,3) by simp_all
  then have "pids (V(i := p)) n = pids V n" by (simp only: pids_def)
  with assms(1) show ?thesis by simp
qed

lemma pidsD:
  assumes "pids V n" "i < NPROC"
  shows "0 < n" "state (V i) = UNUSED \<Longrightarrow> pid (V i) = 0"
    "state (V i) \<noteq> UNUSED \<Longrightarrow> 0 < pid (V i) \<and> pid (V i) < n"
    "state (V i) \<noteq> UNUSED \<Longrightarrow> j < NPROC \<Longrightarrow> pid (V i) = pid (V j) \<Longrightarrow> i = j"
proof -
  show "0 < n" using assms(1) by (simp add: pids_def)
  have "if state (V i) = UNUSED then pid (V i) = 0 else 0 < pid (V i) \<and> pid (V i) < n"
    using assms unfolding pids_def by blast
  then show "state (V i) = UNUSED \<Longrightarrow> pid (V i) = 0"
    "state (V i) \<noteq> UNUSED \<Longrightarrow> 0 < pid (V i) \<and> pid (V i) < n"
    by simp_all
  show "state (V i) \<noteq> UNUSED \<Longrightarrow> j < NPROC \<Longrightarrow> pid (V i) = pid (V j) \<Longrightarrow> i = j"
    using assms unfolding pids_def by blast
qed

lemma pids_free:
  assumes "pids V n" "state p = UNUSED" "pid p = 0"
  shows "pids (V(i := p)) n"
  unfolding pids_def
proof (intro conjI allI impI)
  show "0 < n" using assms(1) by (simp add: pids_def)
  fix j assume j: "j < NPROC"
  show "if state ((V(i := p)) j) = UNUSED then pid ((V(i := p)) j) = 0
      else 0 < pid ((V(i := p)) j) \<and> pid ((V(i := p)) j) < n"
    using assms pidsD(2,3) [OF assms(1) j] by simp
  fix k assume "k < NPROC" "state ((V(i := p)) j) \<noteq> UNUSED"
    "pid ((V(i := p)) j) = pid ((V(i := p)) k)"
  then show "j = k"
    using assms pidsD(3) [OF assms(1) j] pidsD(4) [OF assms(1) j, of k]
    by (cases "j = i"; cases "k = i") auto
qed

lemma pids_alloc:
  assumes "pids V n" "state (V i) = UNUSED" "state p \<noteq> UNUSED" "pid p = n"
  shows "pids (V(i := p)) (n + 1)"
proof -
  have less: "pid (V j) < n" if "j < NPROC" for j
    using pidsD(1,2,3) [OF assms(1) that] by (cases "state (V j) = UNUSED") auto
  have pos: "0 < n" using assms(1) by (simp add: pids_def)
  show ?thesis
    unfolding pids_def
  proof (intro conjI allI impI)
    show "0 < n + 1" using pos by simp
    fix j assume j: "j < NPROC"
    show "if state ((V(i := p)) j) = UNUSED then pid ((V(i := p)) j) = 0
        else 0 < pid ((V(i := p)) j) \<and> pid ((V(i := p)) j) < n + 1"
      using assms less [OF j] pidsD(2,3) [OF assms(1) j] pos by (cases "j = i") auto
    fix k assume k: "k < NPROC" "state ((V(i := p)) j) \<noteq> UNUSED"
      "pid ((V(i := p)) j) = pid ((V(i := p)) k)"
    then show "j = k"
      using assms less [OF j] less [OF k(1)] pidsD(4) [OF assms(1) j _ k(1)]
      by (cases "j = i"; cases "k = i") auto
  qed
qed

lemma family_same:
  assumes "family V ini" "parent p = parent (V i)" "alive (state p) \<longleftrightarrow> alive (state (V i))"
    and "state p = UNUSED \<longleftrightarrow> state (V i) = UNUSED"
  shows "family (V(i := p)) ini"
proof -
  have "parent ((V(i := p)) j) = parent (V j)" "alive (state ((V(i := p)) j)) \<longleftrightarrow> alive (state (V j))"
    "state ((V(i := p)) j) = UNUSED \<longleftrightarrow> state (V j) = UNUSED" for j
    using assms(2-4) by simp_all
  then have "family (V(i := p)) ini = family V ini" by (simp only: family_def)
  with assms(1) show ?thesis by simp
qed

lemma alive_simps [simp]:
  "alive RUNNING" "alive RUNNABLE" "alive SLEEPING" "alive USED" "\<not> alive UNUSED" "\<not> alive ZOMBIE"
  by (simp_all add: alive_def)

lemma plock_False [simp]: "\<not> plock p \<Longrightarrow> p\<lparr>plock := False\<rparr> = p"
  by (cases p) simp

lemma table_invD:
  assumes "table_inv V Q R" "i < NPROC"
  shows "index_in_proc (V i) = int i" "0 \<le> cpu_num (V i)" "cpu_num (V i) < int NCPU"
    "fits (state (V i)) (on_lists Q i)"
  using assms by (auto simp: table_inv_def placement_def)

text \<open>A process that is neither running nor exiting changes queue.\<close>

lemma table_inv_move:
  assumes "table_inv V Q R" "i < NPROC"
    and "state p \<noteq> RUNNING" "state (V i) \<noteq> RUNNING" "alive (state p)" "alive (state (V i))"
    and "index_in_proc p = int i" "0 \<le> cpu_num p" "cpu_num p < int NCPU"
    and "pid p = pid (V i)" "parent p = parent (V i)"
    and "fits (state p) (on_lists Q' i)"
    and "\<And>j. j < NPROC \<Longrightarrow> j \<noteq> i \<Longrightarrow> on_lists Q' j = on_lists Q j"
    and "ptable.more R' = ptable.more R"
  shows "table_inv (V(i := p)) Q' R'"
  unfolding table_inv_def
proof (intro conjI)
  show "placement (V(i := p)) Q'"
    using assms by (intro placement_upd [of V Q]) (auto simp: table_inv_def)
  show "running (V(i := p)) (cpus R')"
    using assms more_fields(1) [OF assms(14)] by (intro running_same) (auto simp: table_inv_def)
  show "pids (V(i := p)) (nextpid R')"
    using assms more_fields(3) [OF assms(14)] by (intro pids_same) (auto simp: table_inv_def alive_def)
  show "family (V(i := p)) (initproc R')"
    using assms more_fields(2) [OF assms(14)] by (intro family_same) (auto simp: table_inv_def alive_def)
qed

section \<open>wakeup and kill\<close>

text \<open>The stops that the flag BLNCFLG brings: an index outside \<open>cpus[]\<close>.\<close>

definition stops :: "bool \<Rightarrow> stop set" where
  "stops blnc = (if blnc then {Undef ''cpus[]''} else {})"

definition to_queue :: "nat \<Rightarrow> nat \<Rightarrow> (listid \<Rightarrow> nat list) \<Rightarrow> listid \<Rightarrow> nat list" where
  "to_queue i n Q =
     Q(SleepingL := remove1 i (Q SleepingL), RunnableL n := Q (RunnableL n) @ [i])"

lemma on_lists_to_queue:
  assumes "distinct (Q SleepingL)" "n < NCPU"
  shows "on_lists (to_queue i n Q) j =
    (if j = i then insert (RunnableL n) (on_lists Q j - {SleepingL}) else on_lists Q j)"
proof -
  let ?Q = "Q(SleepingL := remove1 i (Q SleepingL))"
  have "to_queue i n Q = ?Q(RunnableL n := ?Q (RunnableL n) @ [i])"
    by (simp add: to_queue_def)
  then show ?thesis
    using on_lists_add [of "RunnableL n" ?Q i j] on_lists_remove [of Q SleepingL i j] assms
    by (cases "j = i") (simp_all add: all_lists_def)
qed

lemma runnable_of_nat: "n < NCPU \<Longrightarrow> runnable_of (int n) = Inr (RunnableL n)"
  by (simp add: runnable_of_def)

lemma RunnableL_all [simp]: "RunnableL n \<in> all_lists \<longleftrightarrow> n < NCPU"
  by (auto simp: all_lists_def)

lemma fixed_lists [simp]: "UnusedL \<in> all_lists" "ZombieL \<in> all_lists" "SleepingL \<in> all_lists"
  by (simp_all add: all_lists_def)

lemma rep_balance:
  assumes r: "rep s V Q R" and i: "i < NPROC" "on_lists Q i = {}" "index_in_proc (V i) = int i"
  shows "okres {Undef ''cpus[]''} (balance i s)
    (\<lambda>s'. \<exists>n < NCPU. \<exists>R'. rep s' (V(i := (V i)\<lparr>cpu_num := int n\<rparr>)) (Q(RunnableL n := Q (RunnableL n) @ [i])) R' \<and>
       ptable.more R' = ptable.more R)"
proof (cases "leastUsedCpu s < int NCPU")
  case False
  then show ?thesis by (simp add: balance_def count_up_def cpu_at_def Let_def)
next
  case True
  define n where "n = nat (leastUsedCpu s)"
  have n: "leastUsedCpu s = int n" "n < NCPU"
  proof -
    have "0 \<le> leastUsedCpu s" by (simp add: leastUsedCpu_def)
    then show "leastUsedCpu s = int n" "n < NCPU" using True by (auto simp: n_def)
  qed
  let ?s1 = "s\<lparr>procCount := (procCount s)(n := procCount s n + 1)\<rparr>"
  let ?R = "R\<lparr>procCount := (procCount R)(n := procCount R n + 1)\<rparr>"
  let ?s2 = "set_proc i (cpu_num_update (\<lambda>_. int n)) ?s1"
  have "nxt_of ?s1 = nxt_of s" "slocks_free ?s1 = slocks_free s"
    by (auto simp: nxt_of_def slocks_free_def)
  then have "rep ?s1 V Q ?R"
    using r plists_ok_cong [of ?s1 s] contents_cong [of ?s1 s]
    by (simp add: rep_def view_def fun_eq_iff)
  then have r2: "rep ?s2 (V(i := (V i)\<lparr>cpu_num := int n\<rparr>)) Q ?R"
    by (rule rep_set) simp
  have eq: "balance i s = add_proc_to_list (RunnableL n) (index_in_proc (procs ?s2 i)) ?s2"
    using n by (simp add: balance_def count_up_def cpu_at_def runnable_of_def Let_def)
  show ?thesis
    unfolding eq
  proof (rule okres_mono [OF rep_add_on [OF r2, of "RunnableL n" i "{}"]])
    fix x
    assume "rep x (V(i := (V i)\<lparr>cpu_num := int n\<rparr>)) (Q(RunnableL n := Q (RunnableL n) @ [i])) ?R"
    then show "\<exists>n < NCPU. \<exists>R'. rep x (V(i := (V i)\<lparr>cpu_num := int n\<rparr>))
        (Q(RunnableL n := Q (RunnableL n) @ [i])) R' \<and> ptable.more R' = ptable.more R"
      using n(2) by (intro exI [of _ n] exI [of _ ?R] conjI) simp_all
  qed (use i n(2) in auto)
qed

lemma wake_body_rep:
  assumes r: "rep s V Q R" and i: "i < NPROC" "on_lists Q i = {SleepingL}" "index_in_proc (V i) = int i"
  shows "okres (stops blnc)
    (rbind (remove_proc_from_list SleepingL (index_in_proc (procs s i)) s) (\<lambda>s.
       if blnc then balance i s
       else add_proc_to_list (RunnableL 0) (index_in_proc (procs s i)) s))
    (\<lambda>s'. \<exists>n < NCPU. \<exists>R'. ptable.more R' = ptable.more R \<and> (\<not> blnc \<longrightarrow> n = 0 \<and> R' = R) \<and>
       rep s' (V(i := (V i)\<lparr>cpu_num := if blnc then int n else cpu_num (V i)\<rparr>)) (to_queue i n Q) R')"
proof (rule okres_bind [OF rep_remove_on [OF r i(2,3)]])
  let ?Q = "Q(SleepingL := remove1 i (Q SleepingL))"
  fix s1 assume r1: "rep s1 V ?Q R"
  have empty: "on_lists ?Q i = {}"
    using on_lists_remove [of Q SleepingL i i] rep_distinct [OF r, of SleepingL] i(2) by simp
  have q: "?Q(RunnableL n := ?Q (RunnableL n) @ [i]) = to_queue i n Q" for n
    by (simp add: to_queue_def)
  have v: "V(i := (V i)\<lparr>cpu_num := cpu_num (V i)\<rparr>) = V" by simp
  have N: "0 < NCPU" by (simp add: NCPU_def)
  show "okres (stops blnc)
      (if blnc then balance i s1 else add_proc_to_list (RunnableL 0) (index_in_proc (procs s1 i)) s1)
      (\<lambda>s'. \<exists>n < NCPU. \<exists>R'. ptable.more R' = ptable.more R \<and> (\<not> blnc \<longrightarrow> n = 0 \<and> R' = R) \<and>
         rep s' (V(i := (V i)\<lparr>cpu_num := if blnc then int n else cpu_num (V i)\<rparr>)) (to_queue i n Q) R')"
  proof (cases blnc)
    case True
    show ?thesis
      using okres_mono [OF rep_balance [OF r1 i(1) empty i(3)] _ subset_refl] True
      unfolding q stops_def by (auto simp: conj_commute)
  next
    case False
    have "okres {} (add_proc_to_list (RunnableL 0) (index_in_proc (procs s1 i)) s1)
        (\<lambda>s'. rep s' V (to_queue i 0 Q) R)"
      using rep_add_on [OF r1 _ i(1) empty i(3), of "RunnableL 0" "{}"] N unfolding q by simp
    then show ?thesis
      using False N by (auto simp: stops_def elim: okres_mono)
  qed
qed

lemma wakeup_one_rep:
  assumes r: "rep s V Q R" and t: "table_inv V Q R" and i: "i < NPROC" "\<not> plock (V i)"
  shows "okres (stops blnc) (wakeup_one blnc ch i s)
    (\<lambda>s'. if state (V i) = SLEEPING \<and> chan (V i) = ch
      then \<exists>n < NCPU. \<exists>R'. ptable.more R' = ptable.more R \<and> (\<not> blnc \<longrightarrow> n = 0 \<and> R' = R) \<and>
        rep s' (V(i := (V i)\<lparr>state := RUNNABLE,
          cpu_num := if blnc then int n else cpu_num (V i)\<rparr>)) (to_queue i n Q) R'
      else rep s' V Q R)"
  unfolding wakeup_one_def
proof (rule okres_bind [OF rep_acquire [OF r i(2)]])
  let ?V1 = "V(i := (V i)\<lparr>plock := True\<rparr>)"
  fix s1 assume r1: "rep s1 ?V1 Q R"
  let ?body = "rbind (if state (procs s1 i) = SLEEPING \<and> chan (procs s1 i) = ch then
          let s = set_proc i (state_update (\<lambda>_. RUNNABLE)) s1 in
          rbind (remove_proc_from_list SleepingL (index_in_proc (procs s i)) s) (\<lambda>s.
          if blnc then balance i s
          else add_proc_to_list (RunnableL 0) (index_in_proc (procs s i)) s)
        else Inr s1) (release_proc i)"
  show "okres (stops blnc) ?body (\<lambda>s'. if state (V i) = SLEEPING \<and> chan (V i) = ch
      then \<exists>n < NCPU. \<exists>R'. ptable.more R' = ptable.more R \<and> (\<not> blnc \<longrightarrow> n = 0 \<and> R' = R) \<and>
        rep s' (V(i := (V i)\<lparr>state := RUNNABLE,
          cpu_num := if blnc then int n else cpu_num (V i)\<rparr>)) (to_queue i n Q) R'
      else rep s' V Q R)"
  proof (cases "state (V i) = SLEEPING \<and> chan (V i) = ch")
    case False
    then show ?thesis
      using rep_sel(3,4) [OF r1, of i] i(2) okres_mono [OF rep_release [OF r1, of i "{}"]] by auto
  next
    case True
    let ?s2 = "set_proc i (state_update (\<lambda>_. RUNNABLE)) s1"
    let ?V2 = "?V1(i := (?V1 i)\<lparr>state := RUNNABLE\<rparr>)"
    have r2: "rep ?s2 ?V2 Q R" by (rule rep_set [OF r1]) simp
    have eq: "?body = rbind (rbind (remove_proc_from_list SleepingL (index_in_proc (procs ?s2 i)) ?s2) (\<lambda>s.
          if blnc then balance i s
          else add_proc_to_list (RunnableL 0) (index_in_proc (procs s i)) s)) (release_proc i)"
      using True rep_sel(3,4) [OF r1, of i] by (simp add: Let_def)
    have "okres (stops blnc) ?body (\<lambda>s'. \<exists>n < NCPU. \<exists>R'. ptable.more R' = ptable.more R \<and>
        (\<not> blnc \<longrightarrow> n = 0 \<and> R' = R) \<and>
        rep s' (V(i := (V i)\<lparr>state := RUNNABLE,
          cpu_num := if blnc then int n else cpu_num (V i)\<rparr>)) (to_queue i n Q) R')"
      unfolding eq
    proof (rule okres_bind [OF wake_body_rep [OF r2 i(1)]])
      show "on_lists Q i = {SleepingL}" "index_in_proc (?V2 i) = int i"
        using table_invD(1,4) [OF t i(1)] True by simp_all
      fix s3
      assume "\<exists>n < NCPU. \<exists>R'. ptable.more R' = ptable.more R \<and> (\<not> blnc \<longrightarrow> n = 0 \<and> R' = R) \<and>
         rep s3 (?V2(i := (?V2 i)\<lparr>cpu_num := if blnc then int n else cpu_num (?V2 i)\<rparr>))
           (to_queue i n Q) R'"
      then obtain n R' where n: "n < NCPU" "ptable.more R' = ptable.more R" "\<not> blnc \<longrightarrow> n = 0 \<and> R' = R"
        and r3: "rep s3 (?V2(i := (?V2 i)\<lparr>cpu_num := if blnc then int n else cpu_num (?V2 i)\<rparr>))
           (to_queue i n Q) R'"
        by blast
      show "okres (stops blnc) (release_proc i s3) (\<lambda>s'. \<exists>n < NCPU. \<exists>R'.
          ptable.more R' = ptable.more R \<and> (\<not> blnc \<longrightarrow> n = 0 \<and> R' = R) \<and>
          rep s' (V(i := (V i)\<lparr>state := RUNNABLE,
            cpu_num := if blnc then int n else cpu_num (V i)\<rparr>)) (to_queue i n Q) R')"
      proof (rule okres_mono [OF rep_release [OF r3, of i "{}"]])
        fix x
        assume "rep x ((?V2(i := (?V2 i)\<lparr>cpu_num := if blnc then int n else cpu_num (?V2 i)\<rparr>))
          (i := ((?V2(i := (?V2 i)\<lparr>cpu_num := if blnc then int n else cpu_num (?V2 i)\<rparr>)) i)
            \<lparr>plock := False\<rparr>)) (to_queue i n Q) R'"
        then have "rep x (V(i := (V i)\<lparr>state := RUNNABLE,
            cpu_num := if blnc then int n else cpu_num (V i)\<rparr>)) (to_queue i n Q) R'"
          using i(2) by (cases blnc) simp_all
        with n show "\<exists>n < NCPU. \<exists>R'. ptable.more R' = ptable.more R \<and> (\<not> blnc \<longrightarrow> n = 0 \<and> R' = R) \<and>
            rep x (V(i := (V i)\<lparr>state := RUNNABLE,
              cpu_num := if blnc then int n else cpu_num (V i)\<rparr>)) (to_queue i n Q) R'"
          by blast
      qed simp_all
    qed
    then show ?thesis unfolding if_P [OF True] .
  qed
qed

lemma table_inv_wake:
  assumes r: "rep s V Q R" and t: "table_inv V Q R" and i: "i < NPROC" "state (V i) = SLEEPING"
    and n: "n < NCPU" "0 \<le> m" "m < int NCPU" and R': "ptable.more R' = ptable.more R"
  shows "table_inv (V(i := (V i)\<lparr>state := RUNNABLE, cpu_num := m\<rparr>)) (to_queue i n Q) R'"
proof -
  note ti = table_invD [OF t i(1)]
  have d: "distinct (Q SleepingL)" by (rule rep_distinct [OF r]) simp
  have "on_lists (to_queue i n Q) i = {RunnableL n}"
    using on_lists_to_queue [of Q n i, OF d n(1)] ti(4) i(2) by simp
  with on_lists_to_queue [of Q n i, OF d n(1)] show ?thesis
    by (intro table_inv_move [OF t i(1)]) (use ti i(2) n R' in auto)
qed

text \<open>What \<open>wakeup\<close> may do to a process: make it runnable if it was asleep.\<close>

definition waked :: "(nat \<Rightarrow> proc) \<Rightarrow> (nat \<Rightarrow> proc) \<Rightarrow> bool" where
  "waked V V' \<longleftrightarrow> (\<forall>i. V' i = V i \<or>
     state (V i) = SLEEPING \<and> (\<exists>n. V' i = (V i)\<lparr>state := RUNNABLE, cpu_num := n\<rparr>))"

lemma waked_refl [simp]: "waked V V"
  by (simp add: waked_def)

lemma waked_trans:
  assumes "waked V V'" "waked V' V''"
  shows "waked V V''"
  unfolding waked_def
proof
  fix i
  show "V'' i = V i \<or>
      state (V i) = SLEEPING \<and> (\<exists>n. V'' i = (V i)\<lparr>state := RUNNABLE, cpu_num := n\<rparr>)"
    using assms [unfolded waked_def, rule_format, of i] by auto
qed

lemma waked_one:
  "state (V i) = SLEEPING \<Longrightarrow> waked V (V(i := (V i)\<lparr>state := RUNNABLE, cpu_num := m\<rparr>))"
  by (auto simp: waked_def)

lemma waked_sel:
  assumes "waked V V'"
  shows "plock (V' i) = plock (V i)" "parent (V' i) = parent (V i)" "pid (V' i) = pid (V i)"
    "index_in_proc (V' i) = index_in_proc (V i)" "killed (V' i) = killed (V i)"
    "state (V i) \<noteq> SLEEPING \<Longrightarrow> V' i = V i"
  using assms [unfolded waked_def, rule_format, of i] by auto

lemma wakeup_one_inv:
  assumes r: "rep s V Q R" and t: "table_inv V Q R" and i: "i < NPROC" "\<not> plock (V i)"
  shows "okres (stops blnc) (wakeup_one blnc ch i s) (\<lambda>s'. \<exists>V' Q' R'. rep s' V' Q' R' \<and>
    table_inv V' Q' R' \<and> waked V V' \<and> ptable.more R' = ptable.more R)"
proof (rule okres_mono [OF wakeup_one_rep [OF r t i, of blnc ch]])
  fix s'
  assume post: "if state (V i) = SLEEPING \<and> chan (V i) = ch
      then \<exists>n < NCPU. \<exists>R'. ptable.more R' = ptable.more R \<and> (\<not> blnc \<longrightarrow> n = 0 \<and> R' = R) \<and>
        rep s' (V(i := (V i)\<lparr>state := RUNNABLE,
          cpu_num := if blnc then int n else cpu_num (V i)\<rparr>)) (to_queue i n Q) R'
      else rep s' V Q R"
  show "\<exists>V' Q' R'. rep s' V' Q' R' \<and> table_inv V' Q' R' \<and> waked V V' \<and>
      ptable.more R' = ptable.more R"
  proof (cases "state (V i) = SLEEPING \<and> chan (V i) = ch")
    case False
    with post t show ?thesis by (intro exI [of _ V] exI [of _ Q] exI [of _ R]) auto
  next
    case True
    with post obtain n R' where n: "n < NCPU" "ptable.more R' = ptable.more R"
      "rep s' (V(i := (V i)\<lparr>state := RUNNABLE,
          cpu_num := if blnc then int n else cpu_num (V i)\<rparr>)) (to_queue i n Q) R'"
      by auto
    let ?m = "if blnc then int n else cpu_num (V i)"
    have "0 \<le> ?m" "?m < int NCPU" using n(1) table_invD(2,3) [OF t i(1)] by simp_all
    from table_inv_wake [OF r t i(1) _ n(1) this n(2)] waked_one [of V i ?m] True n show ?thesis
      by blast
  qed
qed simp

lemma wakeup_inv:
  assumes r: "rep s V Q R" and t: "table_inv V Q R" and l: "plocks_free V"
  shows "okres (stops (blncflg K)) (wakeup K c ch s) (\<lambda>s'. \<exists>V' Q' R'. rep s' V' Q' R' \<and>
    table_inv V' Q' R' \<and> waked V V' \<and> ptable.more R' = ptable.more R)"
proof -
  let ?P = "\<lambda>ys s. set ys \<subseteq> {..<NPROC} \<and> (\<exists>V' Q' R'. rep s V' Q' R' \<and>
    table_inv V' Q' R' \<and> waked V V' \<and> ptable.more R' = ptable.more R)"
  have "okres (stops (blncflg K)) (wakeup K c ch s) (?P [])"
    unfolding wakeup_def
  proof (rule okres_for_each [where P = ?P])
    show "?P [0..<NPROC] s"
      using r t by (intro conjI exI [of _ V] exI [of _ Q] exI [of _ R]) auto
    fix y ys s1 assume "?P (y # ys) s1"
    then obtain V1 Q1 R1 where 1: "rep s1 V1 Q1 R1" "table_inv V1 Q1 R1" "waked V V1"
        "ptable.more R1 = ptable.more R" and y: "y < NPROC" "set ys \<subseteq> {..<NPROC}"
      by auto
    have ly: "\<not> plock (V1 y)" using waked_sel(1) [OF 1(3)] l by (simp add: plocks_free_def)
    have "okres (stops (blncflg K)) (wakeup_one (blncflg K) ch y s1) (?P ys)"
    proof (rule okres_mono [OF wakeup_one_inv [OF 1(1,2) y(1) ly]])
      fix s2
      assume "\<exists>V' Q' R'. rep s2 V' Q' R' \<and> table_inv V' Q' R' \<and> waked V1 V' \<and>
        ptable.more R' = ptable.more R1"
      then show "?P ys s2" using y(2) waked_trans [OF 1(3)] unfolding 1(4) by blast
    qed simp
    moreover have "?P ys s1" using 1 y by blast
    ultimately show "okres (stops (blncflg K))
        (if Some y \<noteq> myproc c s1 then wakeup_one (blncflg K) ch y s1 else Inr s1) (?P ys)"
      by simp
  qed
  then show ?thesis by (rule okres_mono) auto
qed

text \<open>
  Without BLNCFLG, exactly the sleepers on the channel become runnable, in the order of the
  process table, at the end of the queue of CPU 0.
\<close>

definition wakes :: "nat \<Rightarrow> chan \<Rightarrow> 'a sstate_scheme \<Rightarrow> nat \<Rightarrow> bool" where
  "wakes c ch s i \<longleftrightarrow>
     Some i \<noteq> myproc c s \<and> state (procs s i) = SLEEPING \<and> chan (procs s i) = ch"

definition woken_table :: "(nat \<Rightarrow> bool) \<Rightarrow> nat \<Rightarrow> (nat \<Rightarrow> proc) \<Rightarrow> nat \<Rightarrow> proc" where
  "woken_table w k V i = (if i < k \<and> w i then (V i)\<lparr>state := RUNNABLE\<rparr> else V i)"

definition woken_queues ::
  "(nat \<Rightarrow> bool) \<Rightarrow> nat \<Rightarrow> (listid \<Rightarrow> nat list) \<Rightarrow> listid \<Rightarrow> nat list" where
  "woken_queues w k Q =
     Q(SleepingL := filter (\<lambda>i. \<not> (i < k \<and> w i)) (Q SleepingL),
       RunnableL 0 := Q (RunnableL 0) @ filter w [0..<k])"

lemma woken_0: "woken_table w 0 V = V" "woken_queues w 0 Q = Q"
  by (simp_all add: woken_table_def woken_queues_def fun_eq_iff)

lemma woken_table_Suc:
  "woken_table w (Suc k) V =
     (if w k then (woken_table w k V)(k := (woken_table w k V k)\<lparr>state := RUNNABLE\<rparr>)
      else woken_table w k V)"
  by (auto simp: woken_table_def fun_eq_iff less_Suc_eq)

lemma remove1_filter_next:
  "distinct xs \<Longrightarrow> w k \<Longrightarrow>
     remove1 k (filter (\<lambda>i. \<not> (i < k \<and> w i)) xs) = filter (\<lambda>i. \<not> (i < Suc k \<and> w i)) xs"
  for xs :: "nat list"
  by (simp add: distinct_remove1_removeAll removeAll_filter_not_eq)
    (rule filter_cong, auto simp: less_Suc_eq)

lemma woken_queues_Suc:
  assumes "distinct (Q SleepingL)"
  shows "woken_queues w (Suc k) Q =
    (if w k then to_queue k 0 (woken_queues w k Q) else woken_queues w k Q)"
proof (cases "w k")
  case True
  with remove1_filter_next [where w = w, OF assms True] show ?thesis
    by (auto simp: woken_queues_def to_queue_def fun_eq_iff)
next
  case False
  then have "filter (\<lambda>i. \<not> (i < Suc k \<and> w i)) xs = filter (\<lambda>i. \<not> (i < k \<and> w i)) xs" for xs
    by (auto simp: less_Suc_eq intro!: filter_cong)
  with False show ?thesis by (simp add: woken_queues_def)
qed

lemma wakeup_fun:
  assumes r: "rep s V Q s" and t: "table_inv V Q s" and l: "plocks_free V" and b: "\<not> blncflg K"
  shows "okres {} (wakeup K c ch s) (\<lambda>s'. rep s' (woken_table (wakes c ch s) NPROC V)
    (woken_queues (wakes c ch s) NPROC Q) s)"
proof -
  let ?w = "wakes c ch s"
  let ?P = "\<lambda>ys s'. \<exists>k \<le> NPROC. [k..<NPROC] = ys \<and> rep s' (woken_table ?w k V) (woken_queues ?w k Q) s \<and>
    table_inv (woken_table ?w k V) (woken_queues ?w k Q) s"
  have d: "distinct (Q SleepingL)" by (rule rep_distinct [OF r]) simp
  have "okres {} (wakeup K c ch s) (?P [])"
    unfolding wakeup_def
  proof (rule okres_for_each [where P = ?P])
    show "?P [0..<NPROC] s" using r t by (intro exI [of _ 0]) (simp add: woken_0)
    fix y ys s1 assume "?P (y # ys) s1"
    then obtain k where k: "k \<le> NPROC" "[k..<NPROC] = y # ys"
        "rep s1 (woken_table ?w k V) (woken_queues ?w k Q) s"
        "table_inv (woken_table ?w k V) (woken_queues ?w k Q) s"
      by blast
    then have yk: "y = k" "ys = [Suc k..<NPROC]" "k < NPROC" "Suc k \<le> NPROC"
      by (cases "k < NPROC", auto simp: upt_conv_Cons)+
    have lk: "\<not> plock (woken_table ?w k V k)" using l by (simp add: woken_table_def plocks_free_def)
    have me: "myproc c s1 = myproc c s"
      using repD(4) [OF k(3)] by (simp add: myproc_def)
    have w: "?w k \<longleftrightarrow> Some k \<noteq> myproc c s1 \<and> state (woken_table ?w k V k) = SLEEPING \<and>
        chan (woken_table ?w k V k) = ch"
      using rep_sel(3,4) [OF r, of k] by (simp add: wakes_def woken_table_def me)
    show "okres {} (if Some y \<noteq> myproc c s1 then wakeup_one (blncflg K) ch y s1 else Inr s1) (?P ys)"
    proof (cases "?w k")
      case False
      have "?P ys s1"
        using k yk False by (intro exI [of _ "Suc k"]) (simp add: woken_table_Suc woken_queues_Suc d)
      then have "okres {} (wakeup_one False ch k s1) (?P ys)" if "Some k \<noteq> myproc c s1"
        using wakeup_one_rep [OF k(3,4) yk(3) lk, of False ch] False that w k yk
        by (auto elim!: okres_mono simp: stops_def intro!: exI [of _ "Suc k"]
            simp: woken_table_Suc woken_queues_Suc d)
      with \<open>?P ys s1\<close> b yk show ?thesis by simp
    next
      case True
      have "okres {} (wakeup_one False ch k s1) (\<lambda>s'.
          rep s' (woken_table ?w (Suc k) V) (woken_queues ?w (Suc k) Q) s)"
        using wakeup_one_rep [OF k(3,4) yk(3) lk, of False ch] True w
        by (auto elim!: okres_mono simp: stops_def woken_table_Suc woken_queues_Suc d)
      moreover have "table_inv (woken_table ?w (Suc k) V) (woken_queues ?w (Suc k) Q) s"
        using table_inv_wake [OF k(3,4) yk(3) _ _ table_invD(2,3) [OF k(4) yk(3)] refl, of 0] True w
        by (simp add: woken_table_Suc woken_queues_Suc d NCPU_def)
      ultimately have "okres {} (wakeup_one False ch k s1) (?P ys)"
        using yk by (auto elim!: okres_mono)
      with True w b yk show ?thesis by simp
    qed
  qed
  then show ?thesis by (rule okres_mono) auto
qed

end
