(* ===== verification/Switching.thy ===== *)
theory Switching
  imports Scheduling
begin

text \<open>
  The operations that move a process between its CPU and the queues: \<open>kill\<close>, \<open>yield\<close>,
  \<open>sleep\<close> and the scheduler. Each is shown to return, to pass the four checks of \<open>sched\<close>, and
  to have the intended effect on the abstract view.
\<close>

section \<open>kill\<close>

lemma kill_one_rep:
  assumes r: "rep s V Q R" and i: "i < NPROC" "index_in_proc (V i) = int i"
    "0 \<le> cpu_num (V i)" "cpu_num (V i) < int NCPU" "fits (state (V i)) (on_lists Q i)"
  shows "okres B (kill_one i s)
    (\<lambda>s'. if state (V i) = SLEEPING
      then rep s' (V(i := (V i)\<lparr>killed := True, state := RUNNABLE\<rparr>)) (to_queue i (nat (cpu_num (V i))) Q) R
      else rep s' (V(i := (V i)\<lparr>killed := True\<rparr>)) Q R)"
proof -
  let ?s1 = "set_proc i (killed_update (\<lambda>_. True)) s"
  let ?V1 = "V(i := (V i)\<lparr>killed := True\<rparr>)"
  let ?Q1 = "Q(SleepingL := remove1 i (Q SleepingL))"
  have r1: "rep ?s1 ?V1 Q R" by (rule rep_set [OF r]) simp
  show ?thesis
  proof (cases "state (V i) = SLEEPING")
    case False
    with r1 rep_sel(3) [OF r1, of i] show ?thesis by (simp add: kill_one_def Let_def)
  next
    case True
    have on: "on_lists Q i = {SleepingL}" using i(5) True by simp
    have empty: "on_lists ?Q1 i = {}"
      using on_lists_remove [of Q SleepingL i i] rep_distinct [OF r, of SleepingL] on by simp
    have "okres B (rbind (remove_proc_from_list SleepingL (index_in_proc (procs ?s1 i)) ?s1) (\<lambda>s.
        let s = set_proc i (state_update (\<lambda>_. RUNNABLE)) s in
        rbind (runnable_of (cpu_num (procs s i))) (\<lambda>l.
        add_proc_to_list l (index_in_proc (procs s i)) s)))
      (\<lambda>s'. rep s' (V(i := (V i)\<lparr>killed := True, state := RUNNABLE\<rparr>))
        (to_queue i (nat (cpu_num (V i))) Q) R)"
    proof (rule okres_bind [OF rep_remove_on [OF r1 on]])
      show "index_in_proc (?V1 i) = int i" using i by simp
      fix s2 assume r2: "rep s2 ?V1 ?Q1 R"
      let ?s3 = "set_proc i (state_update (\<lambda>_. RUNNABLE)) s2"
      have r3: "rep ?s3 (?V1(i := (?V1 i)\<lparr>state := RUNNABLE\<rparr>)) ?Q1 R"
        by (rule rep_set [OF r2]) simp
      have cpu: "cpu_num (procs ?s3 i) = cpu_num (V i)"
        using rep_sel(8) [OF r3, of i] by simp
      have "runnable_of (cpu_num (V i)) = Inr (RunnableL (nat (cpu_num (V i))))"
        using i by (simp add: runnable_of_def)
      moreover have "okres B (add_proc_to_list (RunnableL (nat (cpu_num (V i)))) (index_in_proc (procs ?s3 i)) ?s3)
          (\<lambda>s'. rep s' (?V1(i := (?V1 i)\<lparr>state := RUNNABLE\<rparr>))
            (?Q1(RunnableL (nat (cpu_num (V i))) := ?Q1 (RunnableL (nat (cpu_num (V i)))) @ [i])) R)"
        by (rule rep_add_on [OF r3 _ i(1) empty]) (use i in auto)
      ultimately show "okres B (let s = ?s3 in
          rbind (runnable_of (cpu_num (procs s i))) (\<lambda>l.
          add_proc_to_list l (index_in_proc (procs s i)) s))
        (\<lambda>s'. rep s' (V(i := (V i)\<lparr>killed := True, state := RUNNABLE\<rparr>))
          (to_queue i (nat (cpu_num (V i))) Q) R)"
        unfolding Let_def cpu to_queue_def by simp
    qed
    with True rep_sel(3) [OF r1, of i] show ?thesis by (simp add: kill_one_def Let_def)
  qed
qed

text \<open>The effect of \<open>kill\<close> on the process that it finds.\<close>

definition kill_view :: "nat \<Rightarrow> (nat \<Rightarrow> proc) \<Rightarrow> nat \<Rightarrow> proc" where
  "kill_view i V = V(i := (V i)\<lparr>killed := True,
     state := if state (V i) = SLEEPING then RUNNABLE else state (V i)\<rparr>)"

definition kill_queues :: "nat \<Rightarrow> (nat \<Rightarrow> proc) \<Rightarrow> (listid \<Rightarrow> nat list) \<Rightarrow> listid \<Rightarrow> nat list" where
  "kill_queues i V Q =
     (if state (V i) = SLEEPING then to_queue i (nat (cpu_num (V i))) Q else Q)"

lemma kill_loop_rep:
  assumes r: "rep s V Q R" and t: "table_inv V Q R" and l: "plocks_free V"
    and xs: "set xs \<subseteq> {..<NPROC}"
  shows "okres B (kill_loop xs n s)
    (\<lambda>(res, s'). case find (\<lambda>i. pid (V i) = n) xs of
        None \<Rightarrow> res = -1 \<and> rep s' V Q R
      | Some i \<Rightarrow> res = 0 \<and> rep s' (kill_view i V) (kill_queues i V Q) R)"
  using r xs
proof (induction xs arbitrary: s)
  case Nil
  then show ?case by simp
next
  case (Cons i xs)
  let ?V1 = "V(i := (V i)\<lparr>plock := True\<rparr>)"
  have i: "i < NPROC" and li: "\<not> plock (V i)" using Cons.prems(2) l by (auto simp: plocks_free_def)
  note ti = table_invD [OF t i]
  show ?case
    unfolding kill_loop.simps
  proof (rule okres_bind [OF rep_acquire [OF Cons.prems(1) li]])
    fix s1 assume r1: "rep s1 ?V1 Q R"
    have pid: "pid (procs s1 i) = pid (V i)" using rep_sel(7) [OF r1, of i] by simp
    show "okres B (if pid (procs s1 i) = n
        then rbind (kill_one i s1) (\<lambda>s. rbind (release_proc i s) (\<lambda>s. Inr (0, s)))
        else rbind (release_proc i s1) (kill_loop xs n))
      (\<lambda>(res, s'). case find (\<lambda>i. pid (V i) = n) (i # xs) of
          None \<Rightarrow> res = -1 \<and> rep s' V Q R
        | Some i \<Rightarrow> res = 0 \<and> rep s' (kill_view i V) (kill_queues i V Q) R)"
    proof (cases "pid (V i) = n")
      case False
      have rel: "okres B (release_proc i s1) (\<lambda>s'. rep s' V Q R)"
        using rep_release [OF r1, of i B] li by simp
      show ?thesis
        unfolding pid if_not_P [OF False]
        using False Cons.prems(2) by (intro okres_bind [OF rel]) (simp add: Cons.IH)
    next
      case True
      let ?V2 = "V(i := (V i)\<lparr>plock := True, killed := True,
        state := if state (V i) = SLEEPING then RUNNABLE else state (V i)\<rparr>)"
      have "okres B (kill_one i s1) (\<lambda>s2. rep s2 ?V2 (kill_queues i V Q) R)"
        by (rule okres_mono [OF kill_one_rep [OF r1 i, of B]])
          (use ti in \<open>auto simp: kill_queues_def\<close>)
      moreover have "okres B (release_proc i s2) (\<lambda>s'. rep s' (kill_view i V) (kill_queues i V Q) R)"
        if "rep s2 ?V2 (kill_queues i V Q) R" for s2
        using rep_release [OF that, of i B] li by (simp add: kill_view_def)
      ultimately have "okres B (rbind (kill_one i s1) (release_proc i))
          (\<lambda>s'. rep s' (kill_view i V) (kill_queues i V Q) R)"
        by (rule okres_bind)
      with True show ?thesis
        unfolding pid by (auto simp: okres_def rbind_def split: sum.splits)
    qed
  qed
qed

lemma kill_inv:
  assumes r: "rep s V Q R" and t: "table_inv V Q R" and i: "i < NPROC"
  shows "table_inv (kill_view i V) (kill_queues i V Q) R"
proof (cases "state (V i) = SLEEPING")
  case True
  note ti = table_invD [OF t i]
  let ?n = "nat (cpu_num (V i))"
  have n: "?n < NCPU" using ti by simp
  have d: "distinct (Q SleepingL)" by (rule rep_distinct [OF r]) simp
  have "on_lists (to_queue i ?n Q) i = {RunnableL ?n}"
    using on_lists_to_queue [of Q ?n i, OF d n] ti(4) True by simp
  with on_lists_to_queue [of Q ?n i, OF d n] True n show ?thesis
    unfolding kill_view_def kill_queues_def
    by (intro table_inv_move [OF t i]) (use ti in auto)
next
  case False
  have "placement (kill_view i V) Q"
    unfolding kill_view_def by (rule placement_upd [of V Q]) (use t False in \<open>auto simp: table_inv_def placement_def\<close>)
  moreover have "running (kill_view i V) (cpus R)"
    unfolding kill_view_def by (rule running_same) (use t False in \<open>auto simp: table_inv_def\<close>)
  moreover have "pids (kill_view i V) (nextpid R)"
    unfolding kill_view_def by (rule pids_same) (use t False in \<open>auto simp: table_inv_def\<close>)
  moreover have "family (kill_view i V) (initproc R)"
    unfolding kill_view_def by (rule family_same) (use t False in \<open>auto simp: table_inv_def\<close>)
  ultimately show ?thesis using False by (simp add: table_inv_def kill_queues_def)
qed

section \<open>Counting locks\<close>

lemma sum_num_one:
  assumes "p < n" "\<And>i. f i \<longleftrightarrow> i = p"
  shows "sum_list (map (\<lambda>i. num (f i)) [0..<n]) = 1"
proof -
  have "sum_list (map (\<lambda>i. num (f i)) [0..<m]) = num (p < m)" for m
    by (induction m) (auto simp: assms(2) num_def)
  with assms(1) show ?thesis by (simp add: num_def)
qed

lemma noff_rep:
  assumes r: "rep s V Q R" and p: "p < NPROC" "\<And>i. plock (V i) \<longleftrightarrow> i = p"
  shows "noff_count s = 1 + num (pid_lock R) + num (wait_lock R) + num (other_lock R)"
proof -
  have "lists_held s = 0"
    using plists_okD [OF repD(1) [OF r]] by (simp add: lists_held_def num_def sum_list_eq_0_iff)
  moreover have "map (\<lambda>i. num (plock (procs s i)) + num (stateLock (procs s i))) [0..<NPROC] =
      map (\<lambda>i. num (plock (V i))) [0..<NPROC]"
    using repD(1) [OF r] rep_sel(1) [OF r] by (simp add: plists_ok_def slocks_free_def num_def)
  ultimately show ?thesis
    using sum_num_one [of p NPROC "\<lambda>i. plock (V i)"] p repD(7-9) [OF r]
    by (simp only: noff_count_def)
qed

text \<open>The four checks of \<open>sched\<close> pass when \<open>p->lock\<close> is the only spinlock held.\<close>

lemma sched_rep:
  assumes r: "rep s V Q R" and p: "cproc (cpus R c) = Some p" "p < NPROC" "\<And>i. plock (V i) \<longleftrightarrow> i = p"
    and st: "state (V p) \<noteq> RUNNING" and l: "locks_free R"
  shows "sched c s = Inr (cintena (cpus R c))"
proof -
  have "noff_count s = 1"
    using noff_rep [OF r p(2,3)] l by (simp add: locks_free_def num_def)
  then show ?thesis
    using p st rep_sel(1,3) [OF r, of p] repD(4) [OF r]
    by (simp add: sched_def curproc_def myproc_def intr_get_def)
qed

lemma rep_set_hart:
  assumes "rep s V Q R"
  shows "rep (set_hart c f s) V Q (set_hart c f R)"
proof -
  have "nxt_of (set_hart c f s) = nxt_of s" "slocks_free (set_hart c f s) = slocks_free s"
    by (auto simp: nxt_of_def slocks_free_def set_hart_def)
  moreover have "ptable.more (set_hart c f s) = ptable.more (set_hart c f R)"
    using assms by (cases s; cases R) (simp add: rep_def set_hart_def)
  ultimately show ?thesis
    using assms plists_ok_cong [of "set_hart c f s" s] contents_cong [of "set_hart c f s" s]
    by (simp add: rep_def view_def fun_eq_iff set_hart_def)
qed

lemma rep_back:
  assumes r: "rep s V Q R" and l: "plock (V p)"
  shows "okres B (scheduler_back c p s) (\<lambda>s'. rep s' (V(p := (V p)\<lparr>plock := False\<rparr>)) Q
    (set_hart c (cproc_update (\<lambda>_. None)) R))"
  unfolding scheduler_back_def by (rule rep_release [OF rep_set_hart [OF r] l])

section \<open>yield and sleep\<close>

lemma table_inv_running:
  assumes "table_inv V Q R" "cproc (cpus R c) = Some p"
  shows "c < NCPU" "p < NPROC" "state (V p) = RUNNING"
  using assms runningD(1) [of V "cpus R" c p] by (simp_all add: table_inv_def)

text \<open>
  \<open>yield\<close> and \<open>sleep\<close> up to the point where the scheduler of the hart has taken over and
  released \<open>p->lock\<close>.
\<close>

definition sys_yield :: "nat \<Rightarrow> 'a sstate_scheme \<Rightarrow> 'a sstate_scheme res" where
  "sys_yield c s =
     rbind (curproc c s) (\<lambda>p.
     rbind (yield_out c s) (\<lambda>(_, s). scheduler_back c p s))"

definition sys_sleep :: "nat \<Rightarrow> chan \<Rightarrow> lkid \<Rightarrow> 'a sstate_scheme \<Rightarrow> 'a sstate_scheme res" where
  "sys_sleep c ch lk s =
     rbind (curproc c s) (\<lambda>p.
     rbind (sleep_out c ch lk s) (\<lambda>(_, s). scheduler_back c p s))"

lemma yield_rep:
  assumes r: "rep s V Q R" and t: "table_inv V Q R" and l: "plocks_free V" "locks_free R"
    and p: "cproc (cpus R c) = Some p"
  shows "okres B (sys_yield c s) (\<lambda>s'. rep s' (V(p := (V p)\<lparr>state := RUNNABLE\<rparr>))
    (Q(RunnableL (nat (cpu_num (V p))) := Q (RunnableL (nat (cpu_num (V p)))) @ [p]))
    (set_hart c (cproc_update (\<lambda>_. None)) R))"
proof -
  have run: "p < NPROC" "state (V p) = RUNNING"
    using table_inv_running [OF t p] by simp_all
  note ti = table_invD [OF t run(1)]
  have li: "\<not> plock (V p)" using l by (simp add: plocks_free_def)
  have cur: "curproc c s = Inr p" using p repD(4) [OF r] by (simp add: curproc_def myproc_def)
  let ?n = "nat (cpu_num (V p))" and ?V1 = "V(p := (V p)\<lparr>plock := True\<rparr>)"
  let ?V2 = "?V1(p := (?V1 p)\<lparr>state := RUNNABLE\<rparr>)"
  let ?Q2 = "Q(RunnableL ?n := Q (RunnableL ?n) @ [p])"
  have out: "okres B (yield_out c s) (\<lambda>(ie, s'). rep s' ?V2 ?Q2 R)"
    unfolding yield_out_def cur rbind_simps
  proof (rule okres_bind [OF rep_acquire [OF r li]])
    fix s1 assume r1: "rep s1 ?V1 Q R"
    let ?s2 = "set_proc p (state_update (\<lambda>_. RUNNABLE)) s1"
    have r2: "rep ?s2 ?V2 Q R" by (rule rep_set [OF r1]) simp
    have cpu: "runnable_of (cpu_num (procs ?s2 p)) = Inr (RunnableL ?n)"
      using rep_sel(8) [OF r2, of p] ti by (simp add: runnable_of_def)
    show "okres B (let s = ?s2 in rbind (runnable_of (cpu_num (procs s p))) (\<lambda>l.
        rbind (add_proc_to_list l (index_in_proc (procs s p)) s) (\<lambda>s.
        rbind (sched c s) (\<lambda>ie. Inr (ie, s))))) (\<lambda>(ie, s'). rep s' ?V2 ?Q2 R)"
      unfolding Let_def cpu rbind_simps
    proof (rule okres_bind [OF rep_add_on [OF r2 _ run(1)]])
      show "RunnableL ?n \<in> all_lists" "on_lists Q p = {}" "index_in_proc (?V2 p) = int p"
        using ti run(2) by simp_all
      fix s3 assume r3: "rep s3 ?V2 ?Q2 R"
      have "sched c s3 = Inr (cintena (cpus R c))"
        by (rule sched_rep [OF r3 p run(1) _ _ l(2)]) (use l(1) in \<open>auto simp: plocks_free_def\<close>)
      with r3 show "okres B (rbind (sched c s3) (\<lambda>ie. Inr (ie, s3))) (\<lambda>(ie, s'). rep s' ?V2 ?Q2 R)"
        by simp
    qed
  qed
  show ?thesis
    unfolding sys_yield_def cur rbind_simps
  proof (rule okres_bind [OF out])
    fix x assume "case x of (ie, s') \<Rightarrow> rep s' ?V2 ?Q2 R"
    then obtain ie s' where x: "x = (ie, s')" "rep s' ?V2 ?Q2 R" by (cases x) auto
    from rep_back [OF x(2), of p B c] x(1) li
    show "okres B (case x of (_, s) \<Rightarrow> scheduler_back c p s)
        (\<lambda>s'. rep s' (V(p := (V p)\<lparr>state := RUNNABLE\<rparr>)) ?Q2 (set_hart c (cproc_update (\<lambda>_. None)) R))"
      by simp
  qed
qed

lemma table_inv_leave:
  assumes t: "table_inv V Q R" and p: "cproc (cpus R c) = Some p"
    and q: "state q \<noteq> RUNNING" "alive (state q)" "index_in_proc q = int p" "cpu_num q = cpu_num (V p)"
      "pid q = pid (V p)" "parent q = parent (V p)"
    and Q': "fits (state q) (on_lists Q' p)"
      "\<And>j. j < NPROC \<Longrightarrow> j \<noteq> p \<Longrightarrow> on_lists Q' j = on_lists Q j"
  shows "table_inv (V(p := q)) Q' (set_hart c (cproc_update (\<lambda>_. None)) R)"
proof -
  have run: "p < NPROC" "state (V p) = RUNNING"
    using table_inv_running [OF t p] by simp_all
  note ti = table_invD [OF t run(1)]
  show ?thesis
    unfolding table_inv_def
  proof (intro conjI)
    show "placement (V(p := q)) Q'"
      by (rule placement_upd [of V Q]) (use t q ti Q' in \<open>auto simp: table_inv_def\<close>)
    show "running (V(p := q)) (cpus (set_hart c (cproc_update (\<lambda>_. None)) R))"
      using running_leave [of V "cpus R" c p q] p q(1) t by (simp add: set_hart_def table_inv_def)
    show "pids (V(p := q)) (nextpid (set_hart c (cproc_update (\<lambda>_. None)) R))"
      using t q run by (intro pids_same) (auto simp: set_hart_def table_inv_def alive_def)
    show "family (V(p := q)) (initproc (set_hart c (cproc_update (\<lambda>_. None)) R))"
      using t q run by (intro family_same) (auto simp: set_hart_def table_inv_def alive_def)
  qed
qed

text \<open>Taking and releasing \<open>wait_lock\<close> or the lock of another component.\<close>

definition lk_held :: "lkid \<Rightarrow> 'a sstate_scheme \<Rightarrow> bool" where
  "lk_held lk R = (case lk of WaitLk \<Rightarrow> wait_lock R | OtherLk \<Rightarrow> other_lock R)"

definition set_lk :: "lkid \<Rightarrow> bool \<Rightarrow> 'a sstate_scheme \<Rightarrow> 'a sstate_scheme" where
  "set_lk lk b R = (case lk of WaitLk \<Rightarrow> R\<lparr>wait_lock := b\<rparr> | OtherLk \<Rightarrow> R\<lparr>other_lock := b\<rparr>)"

lemma set_lk_sel [simp]:
  "cpus (set_lk lk b R) = cpus R" "nextpid (set_lk lk b R) = nextpid R"
  "initproc (set_lk lk b R) = initproc R" "km (set_lk lk b R) = km R"
  "pid_lock (set_lk lk b R) = pid_lock R" "lk_held lk (set_lk lk b R) = b"
  "procs (set_lk lk b R) = procs R" "lists (set_lk lk b R) = lists R"
  "procCount (set_lk lk b R) = procCount R"
  by (cases lk; simp add: set_lk_def lk_held_def)+

lemma rep_set_lk:
  assumes "rep s V Q R"
  shows "rep (set_lk lk b s) V Q (set_lk lk b R)"
proof -
  have "nxt_of (set_lk lk b s) = nxt_of s" "slocks_free (set_lk lk b s) = slocks_free s"
    by (auto simp: nxt_of_def slocks_free_def)
  moreover have "ptable.more (set_lk lk b s) = ptable.more (set_lk lk b R)"
    using assms by (cases s; cases R; cases lk) (simp_all add: rep_def set_lk_def)
  ultimately show ?thesis
    using assms plists_ok_cong [of "set_lk lk b s" s] contents_cong [of "set_lk lk b s" s]
    by (simp add: rep_def view_def fun_eq_iff)
qed

lemma rep_acquire_lk:
  assumes "rep s V Q R" "\<not> lk_held lk R"
  shows "okres B (acquire_lk lk s) (\<lambda>s'. rep s' V Q (set_lk lk True R))"
  using rep_set_lk [OF assms(1), of lk True] assms(2) repD(8,9) [OF assms(1)]
  by (cases lk) (simp_all add: acquire_lk_def lk_held_def set_lk_def)

lemma rep_release_lk:
  assumes "rep s V Q R" "lk_held lk R"
  shows "okres B (release_lk lk s) (\<lambda>s'. rep s' V Q (set_lk lk False R))"
  using rep_set_lk [OF assms(1), of lk False] assms(2) repD(8,9) [OF assms(1)]
  by (cases lk) (simp_all add: release_lk_def lk_held_def set_lk_def)

lemma table_inv_lk [simp]: "table_inv V Q (set_lk lk b R) = table_inv V Q R"
  by (simp add: table_inv_def)

lemma sleep_rep:
  assumes r: "rep s V Q R" and t: "table_inv V Q R" and l: "plocks_free V" "lk_held lk R"
      "locks_free (set_lk lk False R)"
    and p: "cproc (cpus R c) = Some p"
  shows "okres B (sys_sleep c ch lk s) (\<lambda>s'. rep s' (V(p := (V p)\<lparr>chan := ch, state := SLEEPING\<rparr>))
    (Q(SleepingL := Q SleepingL @ [p])) (set_hart c (cproc_update (\<lambda>_. None)) (set_lk lk False R)))"
proof -
  note run = table_inv_running(2,3) [OF t p]
  note ti = table_invD [OF t run(1)]
  have li: "\<not> plock (V p)" using l by (simp add: plocks_free_def)
  have cur: "curproc c s = Inr p" using p repD(4) [OF r] by (simp add: curproc_def myproc_def)
  let ?R = "set_lk lk False R" and ?V1 = "V(p := (V p)\<lparr>plock := True\<rparr>)"
  let ?V2 = "?V1(p := (?V1 p)\<lparr>chan := ch, state := SLEEPING\<rparr>)"
  let ?Q2 = "Q(SleepingL := Q SleepingL @ [p])"
  have out: "okres B (sleep_out c ch lk s) (\<lambda>(ie, s'). rep s' ?V2 ?Q2 ?R)"
    unfolding sleep_out_def cur rbind_simps
  proof (rule okres_bind [OF rep_acquire [OF r li]], rule okres_bind)
    fix s1 assume r1: "rep s1 ?V1 Q R"
    show "okres B (add_proc_to_list SleepingL (index_in_proc (procs s1 p)) s1) (\<lambda>s'. rep s' ?V1 ?Q2 R)"
      by (rule rep_add_on [OF r1 _ run(1)]) (use ti run(2) in simp_all)
    fix s2 assume r2: "rep s2 ?V1 ?Q2 R"
    show "okres B (rbind (release_lk lk s2) (\<lambda>s.
        let s = set_proc p (\<lambda>q. q\<lparr>chan := ch, state := SLEEPING\<rparr>) s in
        rbind (sched c s) (\<lambda>ie. Inr (ie, s)))) (\<lambda>(ie, s'). rep s' ?V2 ?Q2 ?R)"
    proof (rule okres_bind [OF rep_release_lk [OF r2 l(2)]])
      fix s3 assume r3: "rep s3 ?V1 ?Q2 ?R"
      let ?s4 = "set_proc p (\<lambda>q. q\<lparr>chan := ch, state := SLEEPING\<rparr>) s3"
      have r4: "rep ?s4 ?V2 ?Q2 ?R" by (rule rep_set [OF r3]) simp
      have "sched c ?s4 = Inr (cintena (cpus ?R c))"
        by (rule sched_rep [OF r4 _ run(1) _ _ l(3)]) (use p l(1) in \<open>auto simp: plocks_free_def\<close>)
      with r4 show "okres B (let s = ?s4 in rbind (sched c s) (\<lambda>ie. Inr (ie, s)))
          (\<lambda>(ie, s'). rep s' ?V2 ?Q2 ?R)"
        by (simp add: Let_def)
    qed
  qed
  show ?thesis
    unfolding sys_sleep_def cur rbind_simps
  proof (rule okres_bind [OF out])
    fix x assume "case x of (ie, s') \<Rightarrow> rep s' ?V2 ?Q2 ?R"
    then obtain ie s' where x: "x = (ie, s')" "rep s' ?V2 ?Q2 ?R" by (cases x) auto
    from rep_back [OF x(2), of p B c] x(1) li
    show "okres B (case x of (_, s) \<Rightarrow> scheduler_back c p s)
        (\<lambda>s'. rep s' (V(p := (V p)\<lparr>chan := ch, state := SLEEPING\<rparr>)) ?Q2
          (set_hart c (cproc_update (\<lambda>_. None)) ?R))"
      by simp
  qed
qed

section \<open>The scheduler\<close>

lemma first_rep:
  assumes "rep s V Q R" "l \<in> all_lists"
  shows "first (lists s l) = (case Q l of [] \<Rightarrow> -1 | x # xs \<Rightarrow> int x)" "\<not> llock (lists s l)"
    "x \<in> set (Q l) \<Longrightarrow> x < NPROC"
proof -
  note ok = plists_okD [OF repD(1) [OF assms(1)] assms(2)]
  have "chain (nxt_of s) (first (lists s l)) (Q l)" using ok(1) repD(3) [OF assms] by simp
  then show "first (lists s l) = (case Q l of [] \<Rightarrow> -1 | x # xs \<Rightarrow> int x)"
    by (cases "Q l") auto
  show "x \<in> set (Q l) \<Longrightarrow> x < NPROC"
    using chain_bound [OF \<open>chain (nxt_of s) (first (lists s l)) (Q l)\<close>] .
  show "\<not> llock (lists s l)" using ok by simp
qed

lemma unlock_list:
  assumes "\<not> llock (lists s l)"
  shows "release_list l (set_llock l True s) = Inr s"
    and "release_list l (set_proc x f (set_llock l True s)) = Inr (set_proc x f s)"
  using assms
  by (auto simp: release_list_def plist_acc set_proc_def set_llock_def intro!: ptable_eqI)

lemma lock_list: "\<not> llock (lists s l) \<Longrightarrow> acquire_list l s = Inr (set_llock l True s)"
  by (simp add: acquire_list_def)

lemma acquire_proc_llock:
  "\<not> plock (procs s x) \<Longrightarrow> acquire_proc x (set_llock l b s) =
     Inr (set_proc x (plock_update (\<lambda>_. True)) (set_llock l b s))"
  by (simp add: acquire_proc_def plist_acc)

text \<open>
  The hart picks the head of its own queue, if there is one. \<open>sys_dispatch\<close> goes on to the
  first thing that the process does, which is to release its lock (\<open>forkret\<close>, \<open>yield_in\<close>,
  \<open>sleep_in\<close>).
\<close>

definition sys_dispatch :: "nat \<Rightarrow> 'a sstate_scheme \<Rightarrow> 'a sstate_scheme res" where
  "sys_dispatch c s =
     rbind (scheduler_pick c s) (\<lambda>(r, s).
     case r of None \<Rightarrow> Inr s | Some p \<Rightarrow> release_proc p s)"

lemma pick_none:
  assumes "rep s V Q R" "c < NCPU" "Q (RunnableL c) = []"
  shows "scheduler_pick c s = Inr (None, s)"
  using first_rep [OF assms(1), of "RunnableL c"] assms(2,3)
  by (simp add: scheduler_pick_def lock_list unlock_list plist_acc Let_def)

lemma pick_some:
  assumes r: "rep s V Q R" and c: "c < NCPU" and x: "Q (RunnableL c) = x # xs" "\<not> plock (V x)"
    "index_in_proc (V x) = int x"
  shows "okres B (scheduler_pick c s) (\<lambda>(res, s'). res = Some x \<and>
    rep s' (V(x := (V x)\<lparr>plock := True, state := RUNNING\<rparr>)) (Q(RunnableL c := xs))
      (set_hart c (cproc_update (\<lambda>_. Some x)) R))"
proof -
  note hd = first_rep [OF r, of "RunnableL c"]
  have xN: "x < NPROC" using hd(3) c x(1) by simp
  have px: "\<not> plock (procs s x)" using rep_sel(1) [OF r] x(2) by simp
  let ?s1 = "set_proc x (plock_update (\<lambda>_. True)) s" and ?V1 = "V(x := (V x)\<lparr>plock := True\<rparr>)"
  let ?f = "state_update (\<lambda>_. RUNNING)" and ?g = "cproc_update (\<lambda>_. Some x)"
  let ?s2 = "set_hart c ?g (set_proc x ?f ?s1)" and ?V2 = "?V1(x := ?f (?V1 x))"
  have r1: "rep ?s1 ?V1 Q R" by (rule rep_set [OF r]) simp
  have r2: "rep ?s2 ?V2 Q (set_hart c ?g R)"
    by (rule rep_set_hart, rule rep_set [OF r1]) simp
  have eq: "scheduler_pick c s =
      rbind (remove_proc_from_list (RunnableL c) (index_in_proc (procs ?s2 x)) ?s2) (\<lambda>s. Inr (Some x, s))"
    using hd c x(1) xN px
    by (simp add: scheduler_pick_def lock_list plist_acc Let_def acquire_proc_llock unlock_list)
  have "okres B (remove_proc_from_list (RunnableL c) (int x) ?s2)
      (\<lambda>s'. rep s' ?V2 (Q(RunnableL c := remove1 x (Q (RunnableL c)))) (set_hart c ?g R))"
    by (rule rep_remove [OF r2]) (use c x in simp_all)
  moreover have "index_in_proc (procs ?s2 x) = int x" using rep_sel(9) [OF r2, of x] x(3) by simp
  ultimately show ?thesis
    unfolding eq using x(1) by (auto simp: okres_def rbind_def split: sum.splits)
qed

lemma dispatch_rep:
  assumes r: "rep s V Q R" and t: "table_inv V Q R" and l: "plocks_free V" and c: "c < NCPU"
  shows "okres B (sys_dispatch c s) (\<lambda>s'. case Q (RunnableL c) of
      [] \<Rightarrow> s' = s
    | x # xs \<Rightarrow> rep s' (V(x := (V x)\<lparr>state := RUNNING\<rparr>)) (Q(RunnableL c := xs))
        (set_hart c (cproc_update (\<lambda>_. Some x)) R))"
proof (cases "Q (RunnableL c)")
  case Nil
  then show ?thesis by (simp add: sys_dispatch_def pick_none [OF r c])
next
  case (Cons x xs)
  have xN: "x < NPROC" using first_rep(3) [OF r, of "RunnableL c" x] c Cons by simp
  have lx: "\<not> plock (V x)" using l by (simp add: plocks_free_def)
  note pk = pick_some [OF r c Cons lx table_invD(1) [OF t xN]]
  show ?thesis
    unfolding sys_dispatch_def
  proof (rule okres_bind [OF pk])
    fix y assume "case y of (res, s') \<Rightarrow> res = Some x \<and>
      rep s' (V(x := (V x)\<lparr>plock := True, state := RUNNING\<rparr>)) (Q(RunnableL c := xs))
        (set_hart c (cproc_update (\<lambda>_. Some x)) R)"
    then obtain s' where y: "y = (Some x, s')"
      "rep s' (V(x := (V x)\<lparr>plock := True, state := RUNNING\<rparr>)) (Q(RunnableL c := xs))
        (set_hart c (cproc_update (\<lambda>_. Some x)) R)"
      by (cases y) auto
    from rep_release [OF y(2), of x B] y(1) Cons lx
    show "okres B (case y of (r, s) \<Rightarrow> case r of None \<Rightarrow> Inr s | Some p \<Rightarrow> release_proc p s)
        (\<lambda>s'. case Q (RunnableL c) of [] \<Rightarrow> s' = s
          | x # xs \<Rightarrow> rep s' (V(x := (V x)\<lparr>state := RUNNING\<rparr>)) (Q(RunnableL c := xs))
              (set_hart c (cproc_update (\<lambda>_. Some x)) R))"
      by simp
  qed
qed

end
