(* ===== verification/Lifecycle.thy ===== *)
theory Lifecycle
  imports Switching
begin

text \<open>
  Creation and end of processes: \<open>procinit\<close>, \<open>allocproc\<close> and the publishing half of \<open>fork\<close>,
  \<open>exit\<close>, \<open>wait\<close> and \<open>freeproc\<close>. Memory allocation is not the subject here: the lemmas about
  operations that free or allocate memory say what holds when they return
  (\<open>okres UNIV\<close>); those that do not touch memory are shown to return.
\<close>

section \<open>procinit\<close>

text \<open>The state that the kernel boots with: C statics are zero, \<open>nextpid\<close> is 1.\<close>

definition boot :: "'a sstate_scheme \<Rightarrow> bool" where
  "boot s \<longleftrightarrow>
     (\<forall>i. state (procs s i) = UNUSED \<and> pid (procs s i) = 0 \<and> parent (procs s i) = None \<and>
        \<not> plock (procs s i) \<and> \<not> stateLock (procs s i)) \<and>
     (\<forall>c. cproc (cpus s c) = None) \<and> initproc s = None \<and> nextpid s = 1 \<and> \<not> other_lock s"

definition init_entry :: "nat \<Rightarrow> proc \<Rightarrow> proc" where
  "init_entry i p = p\<lparr>plock := False, kstack := KSTACK (of_nat i), cpu_num := 0, index_in_proc := int i\<rparr>"

lemma safe_init_entry [simp]: "safe (init_entry i)"
  by (simp add: safe_def core_def init_entry_def)

definition init_view :: "nat \<Rightarrow> (nat \<Rightarrow> proc) \<Rightarrow> nat \<Rightarrow> proc" where
  "init_view k V i = (if i < k then init_entry i (V i) else V i)"

definition init_queues :: "nat \<Rightarrow> listid \<Rightarrow> nat list" where
  "init_queues k l = (if l = UnusedL then [0..<k] else [])"

lemma initlists_rep:
  assumes "boot s"
  shows "rep ((initlists s)\<lparr>pid_lock := False, wait_lock := False\<rparr>) (view s) (init_queues 0)
    (s\<lparr>procCount := procCount (initlists s), pid_lock := False, wait_lock := False\<rparr>)"
proof -
  let ?t = "(initlists s)\<lparr>pid_lock := False, wait_lock := False\<rparr>"
  have "first (lists ?t l) = -1" "\<not> llock (lists ?t l)" if "l \<in> all_lists" for l
    using that by (auto simp: initlists_def all_lists_def split: listid.splits)
  moreover have "slocks_free ?t" using assms by (simp add: boot_def slocks_free_def initlists_def)
  ultimately have "plists_ok ?t" "\<And>l. l \<in> all_lists \<Longrightarrow> contents ?t l = []"
    using plists_okI [where s = ?t and c = "\<lambda>_. []"] by auto
  then show ?thesis
    by (cases s) (auto simp: rep_def init_queues_def view_def initlists_def fun_eq_iff)
qed

lemma procinit_rep:
  assumes "boot s"
  shows "okres {} (procinit s) (\<lambda>s'. rep s' (init_view NPROC (view s)) (init_queues NPROC)
    (s\<lparr>procCount := procCount (initlists s), pid_lock := False, wait_lock := False\<rparr>))"
proof -
  let ?R = "s\<lparr>procCount := procCount (initlists s), pid_lock := False, wait_lock := False\<rparr>"
  let ?P = "\<lambda>ys s'. \<exists>k \<le> NPROC. [k..<NPROC] = ys \<and> rep s' (init_view k (view s)) (init_queues k) ?R"
  have "okres {} (procinit s) (?P [])"
    unfolding procinit_def
  proof (rule okres_for_each [where P = ?P])
    have "init_view 0 (view s) = view s" by (simp add: init_view_def fun_eq_iff)
    then show "?P [0..<NPROC] ((initlists s)\<lparr>pid_lock := False, wait_lock := False\<rparr>)"
      using initlists_rep [OF assms] by (intro exI [of _ 0]) simp
    fix y ys s1 assume "?P (y # ys) s1"
    then obtain k where k: "k \<le> NPROC" "[k..<NPROC] = y # ys"
        "rep s1 (init_view k (view s)) (init_queues k) ?R"
      by blast
    then have yk: "y = k" "ys = [Suc k..<NPROC]" "k < NPROC"
      by (cases "k < NPROC", auto simp: upt_conv_Cons)+
    let ?f = "\<lambda>p. p\<lparr>plock := False, kstack := KSTACK (of_nat y), cpu_num := 0, index_in_proc := int y\<rparr>"
    let ?s2 = "set_proc y ?f s1"
    have f: "?f = init_entry k" by (simp add: init_entry_def yk fun_eq_iff)
    have V: "(init_view k (view s))(k := init_entry k (init_view k (view s) k)) = init_view (Suc k) (view s)"
      by (auto simp: init_view_def fun_eq_iff less_Suc_eq)
    have r2: "rep ?s2 (init_view (Suc k) (view s)) (init_queues k) ?R"
      using rep_set [OF k(3) safe_init_entry, of k k] unfolding V f by (simp only: yk(1))
    have Q: "(init_queues k)(UnusedL := init_queues k UnusedL @ [k]) = init_queues (Suc k)"
      by (auto simp: init_queues_def fun_eq_iff)
    have "okres {} (add_proc_to_list UnusedL (index_in_proc (procs ?s2 k)) ?s2)
        (\<lambda>s'. rep s' (init_view (Suc k) (view s)) (init_queues (Suc k)) ?R)"
      unfolding Q [symmetric]
      by (rule rep_add_on [OF r2 _ yk(3)])
        (auto simp: on_lists_empty init_queues_def init_view_def init_entry_def)
    then show "okres {} (let s = ?s2 in add_proc_to_list UnusedL (index_in_proc (procs s y)) s) (?P ys)"
      unfolding Let_def yk(1) by (rule okres_mono) (use yk in \<open>auto intro!: exI [of _ "Suc k"]\<close>)
  qed
  then show ?thesis by (rule okres_mono) auto
qed

lemma procinit_kinv:
  assumes "boot s"
  shows "okres {} (procinit s) (\<lambda>s'. kinv s' \<and> contents s' UnusedL = [0..<NPROC])"
proof (rule okres_mono [OF procinit_rep [OF assms]])
  let ?R = "s\<lparr>procCount := procCount (initlists s), pid_lock := False, wait_lock := False\<rparr>"
  fix s' assume r: "rep s' (init_view NPROC (view s)) (init_queues NPROC) ?R"
  have on: "on_lists (init_queues NPROC) i = {UnusedL}" if "i < NPROC" for i
    using that by (auto simp: on_lists_def init_queues_def split: if_splits)
  have "table_inv (init_view NPROC (view s)) (init_queues NPROC) ?R"
    unfolding table_inv_def
  proof (intro conjI)
    show "placement (init_view NPROC (view s)) (init_queues NPROC)"
      using assms on by (auto simp: placement_def init_view_def init_entry_def boot_def view_def NCPU_def)
  qed (use assms in \<open>auto simp: running_def pids_def family_def init_view_def init_entry_def boot_def view_def\<close>)
  moreover have "plocks_free (init_view NPROC (view s))" "locks_free ?R"
    using assms by (simp_all add: plocks_free_def init_view_def init_entry_def boot_def view_def locks_free_def)
  ultimately show "kinv s' \<and> contents s' UnusedL = [0..<NPROC]"
    using kinv_rep [OF r] repD(3) [OF r, of UnusedL] by (simp add: init_queues_def)
qed simp

section \<open>Freeing a process\<close>

lemma rep_km:
  assumes "rep s V Q R"
  shows "rep (s\<lparr>km := k\<rparr>) V Q (R\<lparr>km := k\<rparr>)"
proof -
  have "nxt_of (s\<lparr>km := k\<rparr>) = nxt_of s" "slocks_free (s\<lparr>km := k\<rparr>) = slocks_free s"
    by (auto simp: nxt_of_def slocks_free_def)
  moreover have "ptable.more (s\<lparr>km := k\<rparr>) = ptable.more (R\<lparr>km := k\<rparr>)"
    using assms by (cases s; cases R) (simp add: rep_def)
  ultimately show ?thesis
    using assms plists_ok_cong [of "s\<lparr>km := k\<rparr>" s] contents_cong [of "s\<lparr>km := k\<rparr>" s]
    by (simp add: rep_def view_def fun_eq_iff)
qed

lemma table_inv_km [simp]: "table_inv V Q (R\<lparr>km := k\<rparr>) = table_inv V Q R"
  by (simp add: table_inv_def)

definition freed :: "proc \<Rightarrow> proc" where
  "freed p = p\<lparr>trapframe := 0, pagetable := 0, sz := 0, pid := 0, parent := None, pname := [],
     chan := NoChan, killed := False, xstate := 0, state := UNUSED\<rparr>"

definition free_queues :: "nat \<Rightarrow> (listid \<Rightarrow> nat list) \<Rightarrow> listid \<Rightarrow> nat list" where
  "free_queues i Q = Q(ZombieL := remove1 i (Q ZombieL), UnusedL := Q UnusedL @ [i])"

text \<open>The two steps of \<open>freeproc\<close> that give memory back.\<close>

definition free_memory :: "nat \<Rightarrow> 'a sstate_scheme \<Rightarrow> 'a sstate_scheme res" where
  "free_memory i s =
     rbind (if trapframe (procs s i) \<noteq> 0
            then rbind (kfree (trapframe (procs s i)) (km s)) (\<lambda>k. Inr (s\<lparr>km := k\<rparr>))
            else Inr s) (\<lambda>s.
     let s = set_proc i (trapframe_update (\<lambda>_. 0)) s in
     if pagetable (procs s i) \<noteq> 0
     then rbind (proc_freepagetable (pagetable (procs s i)) (sz (procs s i)) (km s))
            (\<lambda>k. Inr (s\<lparr>km := k\<rparr>))
     else Inr s)"

lemma freeproc_split:
  "freeproc i s =
     rbind (free_memory i s) (\<lambda>s.
     rbind (remove_proc_from_list ZombieL (index_in_proc (procs s i)) s) (\<lambda>s.
     let s = set_proc i (\<lambda>p. p\<lparr>pagetable := 0, sz := 0, pid := 0, parent := None, pname := [],
                chan := NoChan, killed := False, xstate := 0, state := UNUSED\<rparr>) s in
     add_proc_to_list UnusedL (index_in_proc (procs s i)) s))"
  by (simp add: freeproc_def free_memory_def rbind_assoc Let_def)

lemma free_memory_rep:
  assumes "rep s V Q R"
  shows "okres UNIV (free_memory i s) (\<lambda>s'. \<exists>k. rep s' (V(i := (V i)\<lparr>trapframe := 0\<rparr>)) Q (R\<lparr>km := k\<rparr>))"
proof -
  have 1: "okres UNIV (if trapframe (procs s i) \<noteq> 0
      then rbind (kfree (trapframe (procs s i)) (km s)) (\<lambda>k. Inr (s\<lparr>km := k\<rparr>)) else Inr s)
    (\<lambda>s'. \<exists>k. rep s' V Q (R\<lparr>km := k\<rparr>))"
    using rep_km [OF assms] assms
    by (cases "kfree (trapframe (procs s i)) (km s)") (auto intro: exI [of _ "km R"])
  show ?thesis
    unfolding free_memory_def
  proof (rule okres_bind [OF 1])
    fix s1 assume "\<exists>k. rep s1 V Q (R\<lparr>km := k\<rparr>)"
    then obtain k where "rep s1 V Q (R\<lparr>km := k\<rparr>)" by blast
    then have r2: "rep (set_proc i (trapframe_update (\<lambda>_. 0)) s1) (V(i := (V i)\<lparr>trapframe := 0\<rparr>)) Q (R\<lparr>km := k\<rparr>)"
      by (rule rep_set) simp
    let ?s2 = "set_proc i (trapframe_update (\<lambda>_. 0)) s1"
    show "okres UNIV (let s = ?s2 in if pagetable (procs s i) \<noteq> 0
        then rbind (proc_freepagetable (pagetable (procs s i)) (sz (procs s i)) (km s)) (\<lambda>k. Inr (s\<lparr>km := k\<rparr>))
        else Inr s) (\<lambda>s'. \<exists>k. rep s' (V(i := (V i)\<lparr>trapframe := 0\<rparr>)) Q (R\<lparr>km := k\<rparr>))"
      unfolding Let_def using r2 rep_km [OF r2]
      by (cases "proc_freepagetable (pagetable (procs ?s2 i)) (sz (procs ?s2 i)) (km ?s2)")
        (auto intro: exI [of _ k])
  qed
qed

lemma freeproc_rep:
  assumes r: "rep s V Q R" and i: "i < NPROC" "on_lists Q i = {ZombieL}" "index_in_proc (V i) = int i"
  shows "okres UNIV (freeproc i s)
    (\<lambda>s'. \<exists>k. rep s' (V(i := freed (V i))) (free_queues i Q) (R\<lparr>km := k\<rparr>))"
  unfolding freeproc_split
proof (rule okres_bind [OF free_memory_rep [OF r]])
  let ?V1 = "V(i := (V i)\<lparr>trapframe := 0\<rparr>)" and ?Q1 = "Q(ZombieL := remove1 i (Q ZombieL))"
  let ?f = "\<lambda>p. p\<lparr>pagetable := 0, sz := 0, pid := 0, parent := None, pname := [],
                chan := NoChan, killed := False, xstate := 0, state := UNUSED\<rparr>"
  fix s1 assume "\<exists>k. rep s1 ?V1 Q (R\<lparr>km := k\<rparr>)"
  then obtain k where r1: "rep s1 ?V1 Q (R\<lparr>km := k\<rparr>)" by blast
  show "okres UNIV (rbind (remove_proc_from_list ZombieL (index_in_proc (procs s1 i)) s1) (\<lambda>s.
      let s = set_proc i ?f s in add_proc_to_list UnusedL (index_in_proc (procs s i)) s))
    (\<lambda>s'. \<exists>k. rep s' (V(i := freed (V i))) (free_queues i Q) (R\<lparr>km := k\<rparr>))"
  proof (rule okres_bind [OF rep_remove_on [OF r1 i(2)]])
    show "index_in_proc (?V1 i) = int i" using i by simp
    fix s2 assume r2: "rep s2 ?V1 ?Q1 (R\<lparr>km := k\<rparr>)"
    have r3: "rep (set_proc i ?f s2) (?V1(i := ?f (?V1 i))) ?Q1 (R\<lparr>km := k\<rparr>)"
      by (rule rep_set [OF r2]) simp
    have V: "?V1(i := ?f (?V1 i)) = V(i := freed (V i))" by (simp add: freed_def)
    have "on_lists ?Q1 i = {}"
      using on_lists_remove [of Q ZombieL i i] rep_distinct [OF r, of ZombieL] i(2) by simp
    from rep_add_on [OF r3 [unfolded V] _ i(1) this, of UnusedL UNIV] i(3)
    have "okres UNIV (add_proc_to_list UnusedL (index_in_proc (procs (set_proc i ?f s2) i)) (set_proc i ?f s2))
        (\<lambda>s'. rep s' (V(i := freed (V i))) (free_queues i Q) (R\<lparr>km := k\<rparr>))"
      by (simp add: free_queues_def freed_def)
    then show "okres UNIV (let s = set_proc i ?f s2 in add_proc_to_list UnusedL (index_in_proc (procs s i)) s)
        (\<lambda>s'. \<exists>k. rep s' (V(i := freed (V i))) (free_queues i Q) (R\<lparr>km := k\<rparr>))"
      unfolding Let_def by (rule okres_mono) auto
  qed
qed

lemma table_inv_freed:
  assumes r: "rep s V Q R" and t: "table_inv V Q R" and i: "i < NPROC" "state (V i) = ZOMBIE"
  shows "table_inv (V(i := freed (V i))) (free_queues i Q) R"
proof -
  note ti = table_invD [OF t i(1)]
  let ?Q1 = "Q(ZombieL := remove1 i (Q ZombieL))"
  have d: "distinct (Q ZombieL)" by (rule rep_distinct [OF r]) simp
  have "free_queues i Q = ?Q1(UnusedL := ?Q1 UnusedL @ [i])" by (simp add: free_queues_def)
  then have on: "on_lists (free_queues i Q) j = (if j = i then {UnusedL} else on_lists Q j)" for j
    using on_lists_add [of UnusedL ?Q1 i j] on_lists_remove [of Q ZombieL i j, OF d] ti(4) i(2)
    by (cases "j = i") simp_all
  show ?thesis
    unfolding table_inv_def
  proof (intro conjI)
    show "placement (V(i := freed (V i))) (free_queues i Q)"
      by (rule placement_upd [of V Q]) (use t ti on in \<open>auto simp: table_inv_def freed_def\<close>)
    show "running (V(i := freed (V i))) (cpus R)"
      using t i by (intro running_same) (auto simp: table_inv_def freed_def)
    show "pids (V(i := freed (V i))) (nextpid R)"
      using t by (intro pids_free) (auto simp: table_inv_def freed_def)
    have f: "family V (initproc R)" using t by (simp add: table_inv_def)
    have "alive (state ((V(i := freed (V i))) j))" if "alive (state (V j))" for j
      using that i(2) by (auto simp: alive_def)
    with f show "family (V(i := freed (V i))) (initproc R)"
      by (auto simp: family_def freed_def)
  qed
qed

section \<open>exit\<close>

lemma familyD:
  assumes "family V ini"
  shows "ini = Some j \<Longrightarrow> j < NPROC \<and> alive (state (V j))"
    "i < NPROC \<Longrightarrow> parent (V i) = Some j \<Longrightarrow> j < NPROC \<and> alive (state (V j))"
    "i < NPROC \<Longrightarrow> state (V i) = UNUSED \<Longrightarrow> parent (V i) = None"
  using assms unfolding family_def by blast+

lemma familyI:
  assumes "\<And>j. ini = Some j \<Longrightarrow> j < NPROC \<and> alive (state (V j))"
    "\<And>i j. i < NPROC \<Longrightarrow> parent (V i) = Some j \<Longrightarrow> j < NPROC \<and> alive (state (V j))"
    "\<And>i. i < NPROC \<Longrightarrow> state (V i) = UNUSED \<Longrightarrow> parent (V i) = None"
  shows "family V ini"
  using assms unfolding family_def by blast

lemma table_inv_reparent:
  assumes t: "table_inv V Q R" and i: "i < NPROC" "parent (V i) = Some p"
  shows "table_inv (V(i := (V i)\<lparr>parent := initproc R\<rparr>)) Q R"
proof -
  have f: "family V (initproc R)" using t by (simp add: table_inv_def)
  have st: "state (V i) \<noteq> UNUSED" using familyD(3) [OF f i(1)] i(2) by auto
  have "family (V(i := (V i)\<lparr>parent := initproc R\<rparr>)) (initproc R)"
  proof (rule familyI)
    fix j k assume "j < NPROC" "parent ((V(i := (V i)\<lparr>parent := initproc R\<rparr>)) j) = Some k"
    then show "k < NPROC \<and> alive (state ((V(i := (V i)\<lparr>parent := initproc R\<rparr>)) k))"
      using familyD(1) [OF f, of k] familyD(2) [OF f, of j k] by (auto split: if_splits)
  next
    fix j assume "initproc R = Some j"
    then show "j < NPROC \<and> alive (state ((V(i := (V i)\<lparr>parent := initproc R\<rparr>)) j))"
      using familyD(1) [OF f, of j] by auto
  next
    fix j assume "j < NPROC" "state ((V(i := (V i)\<lparr>parent := initproc R\<rparr>)) j) = UNUSED"
    then show "parent ((V(i := (V i)\<lparr>parent := initproc R\<rparr>)) j) = None"
      using familyD(3) [OF f, of j] st by (simp split: if_splits)
  qed
  moreover have "placement (V(i := (V i)\<lparr>parent := initproc R\<rparr>)) Q"
  proof (rule placement_upd)
    show "placement V Q" using t by (simp add: table_inv_def)
    show "index_in_proc ((V i)\<lparr>parent := initproc R\<rparr>) = int i \<and>
        0 \<le> cpu_num ((V i)\<lparr>parent := initproc R\<rparr>) \<and>
        cpu_num ((V i)\<lparr>parent := initproc R\<rparr>) < int NCPU \<and>
        fits (state ((V i)\<lparr>parent := initproc R\<rparr>)) (on_lists Q i)"
      using table_invD [OF t i(1)] by simp
  qed simp
  moreover have "running (V(i := (V i)\<lparr>parent := initproc R\<rparr>)) (cpus R)"
    by (rule running_same) (use t in \<open>auto simp: table_inv_def\<close>)
  moreover have "pids (V(i := (V i)\<lparr>parent := initproc R\<rparr>)) (nextpid R)"
    by (rule pids_same) (use t in \<open>auto simp: table_inv_def\<close>)
  ultimately show ?thesis by (simp add: table_inv_def)
qed

text \<open>What \<open>reparent\<close> and \<open>wakeup\<close> leave alone.\<close>

definition quiet :: "(nat \<Rightarrow> proc) \<Rightarrow> (listid \<Rightarrow> nat list) \<Rightarrow> 'a sstate_scheme \<Rightarrow> 'a sstate_scheme \<Rightarrow> bool" where
  "quiet V Q R R0 \<longleftrightarrow> table_inv V Q R \<and> plocks_free V \<and> ptable.more R = ptable.more R0"

lemma wakeup_quiet:
  assumes r: "rep s V Q R" and q: "quiet V Q R R0"
  shows "okres (stops (blncflg K)) (wakeup K c ch s) (\<lambda>s'. \<exists>V' Q' R'. rep s' V' Q' R' \<and>
    quiet V' Q' R' R0 \<and> waked V V')"
proof (rule okres_mono [OF wakeup_inv [OF r]])
  show "table_inv V Q R" "plocks_free V" using q by (simp_all add: quiet_def)
  fix s' assume "\<exists>V' Q' R'. rep s' V' Q' R' \<and> table_inv V' Q' R' \<and> waked V V' \<and>
    ptable.more R' = ptable.more R"
  then obtain V' Q' R' where *: "rep s' V' Q' R'" "table_inv V' Q' R'" "waked V V'"
    "ptable.more R' = ptable.more R" by blast
  have "plocks_free V'" using q waked_sel(1) [OF *(3)] by (simp add: quiet_def plocks_free_def)
  then show "\<exists>V' Q' R'. rep s' V' Q' R' \<and> quiet V' Q' R' R0 \<and> waked V V'"
    using * q by (intro exI [of _ V'] exI [of _ Q'] exI [of _ R']) (simp add: quiet_def)
qed simp

lemma reparent_quiet:
  assumes r: "rep s V Q R" and q: "quiet V Q R R0" and p: "initproc R0 \<noteq> Some p"
  shows "okres (stops (blncflg K)) (reparent K c p s) (\<lambda>s'. \<exists>V' Q' R'. rep s' V' Q' R' \<and>
    quiet V' Q' R' R0 \<and> (\<forall>i < NPROC. parent (V' i) \<noteq> Some p))"
proof -
  let ?P = "\<lambda>ys s. set ys \<subseteq> {..<NPROC} \<and> (\<exists>V' Q' R'. rep s V' Q' R' \<and> quiet V' Q' R' R0 \<and>
    (\<forall>i < NPROC. i \<notin> set ys \<longrightarrow> parent (V' i) \<noteq> Some p))"
  have "okres (stops (blncflg K)) (reparent K c p s) (?P [])"
    unfolding reparent_def
  proof (rule okres_for_each [where P = ?P])
    show "?P [0..<NPROC] s"
      using r q by (intro conjI exI [of _ V] exI [of _ Q] exI [of _ R]) auto
    fix y ys s1 assume "?P (y # ys) s1"
    then obtain V1 Q1 R1 where 1: "rep s1 V1 Q1 R1" "quiet V1 Q1 R1 R0"
        "\<forall>i < NPROC. i \<notin> set (y # ys) \<longrightarrow> parent (V1 i) \<noteq> Some p" and y: "y < NPROC" "set ys \<subseteq> {..<NPROC}"
      by auto
    have par: "parent (procs s1 y) = parent (V1 y)" using rep_sel(10) [OF 1(1)] .
    show "okres (stops (blncflg K)) (if parent (procs s1 y) = Some p then
         let s = set_proc y (parent_update (\<lambda>_. initproc s1)) s1 in
         wakeup K c (proc_chan (initproc s)) s else Inr s1) (?P ys)"
    proof (cases "parent (V1 y) = Some p")
      case False
      have "?P ys s1"
        using 1 y False by (intro conjI exI [of _ V1] exI [of _ Q1] exI [of _ R1]) auto
      with False par show ?thesis by simp
    next
      case True
      let ?s2 = "set_proc y (parent_update (\<lambda>_. initproc s1)) s1"
      let ?V2 = "V1(y := (V1 y)\<lparr>parent := initproc R1\<rparr>)"
      have i1: "initproc s1 = initproc R1" "initproc R1 = initproc R0"
        using repD(5) [OF 1(1)] 1(2) more_fields(2) [of R1 R0] by (simp_all add: quiet_def)
      have r2: "rep ?s2 ?V2 Q1 R1" unfolding i1(1) by (rule rep_set [OF 1(1)]) simp
      have q2: "quiet ?V2 Q1 R1 R0"
        using 1(2) table_inv_reparent [of V1 Q1 R1 y p] y(1) True by (auto simp: quiet_def plocks_free_def)
      have "okres (stops (blncflg K)) (wakeup K c (proc_chan (initproc ?s2)) ?s2) (?P ys)"
      proof (rule okres_mono [OF wakeup_quiet [OF r2 q2]])
        fix s3 assume "\<exists>V' Q' R'. rep s3 V' Q' R' \<and> quiet V' Q' R' R0 \<and> waked ?V2 V'"
        then obtain V3 Q3 R3 where 3: "rep s3 V3 Q3 R3" "quiet V3 Q3 R3 R0" "waked ?V2 V3" by blast
        have "parent (V3 i) \<noteq> Some p" if "i < NPROC" "i \<notin> set ys" for i
          using waked_sel(2) [OF 3(3), of i] 1(3) that i1(2) p by (cases "i = y") auto
        with 3 y(2) show "?P ys s3" by blast
      qed simp
      with True par show ?thesis by (simp add: Let_def)
    qed
  qed
  then show ?thesis by (rule okres_mono) auto
qed

lemma table_inv_exit:
  assumes t: "table_inv V Q R" and p: "cproc (cpus R c) = Some p" "initproc R \<noteq> Some p"
    and no: "\<forall>i < NPROC. parent (V i) \<noteq> Some p"
    and q: "state q = ZOMBIE" "index_in_proc q = int p" "cpu_num q = cpu_num (V p)"
      "pid q = pid (V p)" "parent q = parent (V p)"
  shows "table_inv (V(p := q)) (Q(ZombieL := Q ZombieL @ [p])) (set_hart c (cproc_update (\<lambda>_. None)) R)"
proof -
  note run = table_inv_running(2,3) [OF t p(1)]
  note ti = table_invD [OF t run(1)]
  have "on_lists (Q(ZombieL := Q ZombieL @ [p])) j = (if j = p then {ZombieL} else on_lists Q j)" for j
    using on_lists_add [of ZombieL Q p j] ti(4) run(2) by simp
  then have "placement (V(p := q)) (Q(ZombieL := Q ZombieL @ [p]))"
    by (intro placement_upd [of V Q]) (use t ti q in \<open>auto simp: table_inv_def\<close>)
  moreover have "running (V(p := q)) ((cpus R)(c := (cpus R c)\<lparr>cproc := None\<rparr>))"
    using running_leave [of V "cpus R" c p q] t p q by (simp add: table_inv_def)
  moreover have "pids (V(p := q)) (nextpid R)"
    by (rule pids_same) (use t q run in \<open>auto simp: table_inv_def\<close>)
  moreover have "family (V(p := q)) (initproc R)"
  proof (rule familyI)
    have f: "family V (initproc R)" using t by (simp add: table_inv_def)
    fix j assume "initproc R = Some j"
    then show "j < NPROC \<and> alive (state ((V(p := q)) j))" using familyD(1) [OF f, of j] p(2) by auto
  next
    have f: "family V (initproc R)" using t by (simp add: table_inv_def)
    fix i j assume i: "i < NPROC" "parent ((V(p := q)) i) = Some j"
    then have "parent (V i) = Some j" using q(5) by (auto split: if_splits)
    then show "j < NPROC \<and> alive (state ((V(p := q)) j))"
      using familyD(2) [OF f i(1), of j] no i(1) by auto
  next
    have f: "family V (initproc R)" using t by (simp add: table_inv_def)
    fix i assume "i < NPROC" "state ((V(p := q)) i) = UNUSED"
    then show "parent ((V(p := q)) i) = None"
      using familyD(3) [OF f, of i] q(1) by (auto split: if_splits)
  qed
  ultimately show ?thesis by (simp add: table_inv_def set_hart_def)
qed

text \<open>\<open>exit\<close> up to the point where the scheduler of the hart has taken over.\<close>

definition sys_exit :: "kparams \<Rightarrow> nat \<Rightarrow> int \<Rightarrow> 'a sstate_scheme \<Rightarrow> 'a sstate_scheme res" where
  "sys_exit K c status s =
     rbind (curproc c s) (\<lambda>p.
     rbind (exit_rest K c p status s) (scheduler_back c p))"

lemma exit_tail:
  assumes r: "rep s V Q R" and q: "quiet V Q R (set_lk WaitLk True R0)"
    and no: "\<forall>i < NPROC. parent (V i) \<noteq> Some p" and l: "locks_free R0"
    and p: "cproc (cpus R0 c) = Some p" "initproc R0 \<noteq> Some p"
  shows "okres B (rbind (acquire_proc p s) (\<lambda>s.
      rbind (let s = set_proc p (\<lambda>q. q\<lparr>xstate := status, state := ZOMBIE\<rparr>) s in
      rbind (add_proc_to_list ZombieL (index_in_proc (procs s p)) s) (\<lambda>s.
      rbind (release_lk WaitLk s) (\<lambda>s. rbind (sched c s) (\<lambda>_. Inr s)))) (scheduler_back c p)))
    (\<lambda>s'. \<exists>V' Q' R'. rep s' V' Q' R' \<and> table_inv V' Q' R' \<and> plocks_free V' \<and> locks_free R' \<and>
      state (V' p) = ZOMBIE \<and> xstate (V' p) = status \<and> (\<forall>i < NPROC. parent (V' i) \<noteq> Some p) \<and>
      cproc (cpus R' c) = None)"
    (is "okres _ _ ?post")
proof -
  have t: "table_inv V Q R" and lf: "plocks_free V" using q by (simp_all add: quiet_def)
  have R: "cpus R = cpus R0" "initproc R = initproc R0" "pid_lock R = pid_lock R0"
      "other_lock R = other_lock R0" "wait_lock R"
    using q more_fields [of R "set_lk WaitLk True R0"] by (simp_all add: quiet_def set_lk_def)
  have pR: "cproc (cpus R c) = Some p" "initproc R \<noteq> Some p" using p R by simp_all
  note run = table_inv_running(2,3) [OF t pR(1)]
  note ti = table_invD [OF t run(1)]
  have li: "\<not> plock (V p)" using lf by (simp add: plocks_free_def)
  let ?V1 = "V(p := (V p)\<lparr>plock := True\<rparr>)"
  let ?V2 = "?V1(p := (?V1 p)\<lparr>xstate := status, state := ZOMBIE\<rparr>)"
  let ?Q2 = "Q(ZombieL := Q ZombieL @ [p])" and ?R2 = "set_lk WaitLk False R"
  let ?V3 = "V(p := (V p)\<lparr>xstate := status, state := ZOMBIE\<rparr>)"
  let ?R3 = "set_hart c (cproc_update (\<lambda>_. None)) ?R2"
  have body: "okres B (let s = set_proc p (\<lambda>q. q\<lparr>xstate := status, state := ZOMBIE\<rparr>) s1 in
      rbind (add_proc_to_list ZombieL (index_in_proc (procs s p)) s) (\<lambda>s.
      rbind (release_lk WaitLk s) (\<lambda>s. rbind (sched c s) (\<lambda>_. Inr s)))) (\<lambda>s'. rep s' ?V2 ?Q2 ?R2)"
    if r1: "rep s1 ?V1 Q R" for s1
    unfolding Let_def
  proof (rule okres_bind [OF rep_add_on])
    show "rep (set_proc p (\<lambda>q. q\<lparr>xstate := status, state := ZOMBIE\<rparr>) s1) ?V2 Q R"
      by (rule rep_set [OF r1]) simp
    show "ZombieL \<in> all_lists" "p < NPROC" "on_lists Q p = {}" "index_in_proc (?V2 p) = int p"
      using run ti by simp_all
    fix s2 assume r2: "rep s2 ?V2 ?Q2 R"
    have "lk_held WaitLk R" using R by (simp add: lk_held_def)
    from rep_release_lk [OF r2 this]
    show "okres B (rbind (release_lk WaitLk s2) (\<lambda>s. rbind (sched c s) (\<lambda>_. Inr s)))
        (\<lambda>s'. rep s' ?V2 ?Q2 ?R2)"
    proof (rule okres_bind)
      fix s3 assume r3: "rep s3 ?V2 ?Q2 ?R2"
      have "sched c s3 = Inr (cintena (cpus ?R2 c))"
        by (rule sched_rep [OF r3 _ run(1)])
          (use pR lf l R in \<open>auto simp: plocks_free_def locks_free_def set_lk_def\<close>)
      with r3 show "okres B (rbind (sched c s3) (\<lambda>_. Inr s3)) (\<lambda>s'. rep s' ?V2 ?Q2 ?R2)" by simp
    qed
  qed
  have fin: "?post s'" if "rep s' ?V3 ?Q2 ?R3" for s'
  proof -
    have "table_inv ?V3 ?Q2 ?R3"
      by (rule table_inv_exit) (use t pR no ti in simp_all)
    moreover have "plocks_free ?V3" "locks_free ?R3"
      using lf l R by (simp_all add: plocks_free_def locks_free_def set_hart_def set_lk_def)
    moreover have "\<forall>i < NPROC. parent (?V3 i) \<noteq> Some p" using no by simp
    ultimately show ?thesis
      using that by (intro exI [of _ ?V3] exI [of _ ?Q2] exI [of _ ?R3]) (simp add: set_hart_def)
  qed
  show ?thesis
  proof (rule okres_bind [OF rep_acquire [OF r li]], rule okres_bind [OF body])
    fix s2 assume r2: "rep s2 ?V2 ?Q2 ?R2"
    have "?V2(p := (?V2 p)\<lparr>plock := False\<rparr>) = ?V3" using li by simp
    then have "okres B (scheduler_back c p s2) (\<lambda>s'. rep s' ?V3 ?Q2 ?R3)"
      using rep_back [OF r2, of p B c] by simp
    then show "okres B (scheduler_back c p s2) ?post" by (rule okres_mono) (use fin in auto)
  qed
qed

lemma exit_rep:
  assumes r: "rep s V Q R" and t: "table_inv V Q R" and l: "plocks_free V" "locks_free R"
    and p: "cproc (cpus R c) = Some p" "initproc R \<noteq> Some p"
  shows "okres (stops (blncflg K)) (sys_exit K c status s) (\<lambda>s'. \<exists>V' Q' R'. rep s' V' Q' R' \<and>
    table_inv V' Q' R' \<and> plocks_free V' \<and> locks_free R' \<and> state (V' p) = ZOMBIE \<and>
    xstate (V' p) = status \<and> (\<forall>i < NPROC. parent (V' i) \<noteq> Some p) \<and> cproc (cpus R' c) = None)"
    (is "okres _ _ ?post")
proof -
  note run = table_inv_running(1,2) [OF t p(1)]
  have cur: "curproc c s = Inr p" using p repD(4) [OF r] by (simp add: curproc_def myproc_def)
  let ?R = "set_lk WaitLk True R"
  have nl: "\<not> lk_held WaitLk R" using l(2) by (simp add: locks_free_def lk_held_def)
  show ?thesis
    unfolding sys_exit_def cur exit_rest_def rbind_simps rbind_assoc
  proof (rule okres_bind [OF rep_acquire_lk [OF r nl]])
    fix s1 assume r1: "rep s1 V Q ?R"
    have q1: "quiet V Q ?R ?R" using t l(1) by (simp add: quiet_def)
    show "okres (stops (blncflg K)) (rbind (reparent K c p s1) (\<lambda>s.
        rbind (wakeup K c (proc_chan (parent (procs s p))) s) (\<lambda>s.
        rbind (acquire_proc p s) (\<lambda>s.
        rbind (let s = set_proc p (\<lambda>q. q\<lparr>xstate := status, state := ZOMBIE\<rparr>) s in
        rbind (add_proc_to_list ZombieL (index_in_proc (procs s p)) s) (\<lambda>s.
        rbind (release_lk WaitLk s) (\<lambda>s. rbind (sched c s) (\<lambda>_. Inr s)))) (scheduler_back c p))))) ?post"
    proof (rule okres_bind [OF reparent_quiet [OF r1 q1]])
      show "initproc ?R \<noteq> Some p" using p by simp
      fix s2 assume "\<exists>V' Q' R'. rep s2 V' Q' R' \<and> quiet V' Q' R' ?R \<and>
        (\<forall>i < NPROC. parent (V' i) \<noteq> Some p)"
      then obtain V2 Q2 R2 where 2: "rep s2 V2 Q2 R2" "quiet V2 Q2 R2 ?R"
        "\<forall>i < NPROC. parent (V2 i) \<noteq> Some p" by blast
      show "okres (stops (blncflg K)) (rbind (wakeup K c (proc_chan (parent (procs s2 p))) s2) (\<lambda>s.
        rbind (acquire_proc p s) (\<lambda>s.
        rbind (let s = set_proc p (\<lambda>q. q\<lparr>xstate := status, state := ZOMBIE\<rparr>) s in
        rbind (add_proc_to_list ZombieL (index_in_proc (procs s p)) s) (\<lambda>s.
        rbind (release_lk WaitLk s) (\<lambda>s. rbind (sched c s) (\<lambda>_. Inr s)))) (scheduler_back c p)))) ?post"
      proof (rule okres_bind [OF wakeup_quiet [OF 2(1,2)]])
        fix s3 assume "\<exists>V' Q' R'. rep s3 V' Q' R' \<and> quiet V' Q' R' ?R \<and> waked V2 V'"
        then obtain V3 Q3 R3 where 3: "rep s3 V3 Q3 R3" "quiet V3 Q3 R3 ?R" "waked V2 V3" by blast
        have no: "\<forall>i < NPROC. parent (V3 i) \<noteq> Some p" using waked_sel(2) [OF 3(3)] 2(3) by simp
        show "okres (stops (blncflg K)) (rbind (acquire_proc p s3) (\<lambda>s.
          rbind (let s = set_proc p (\<lambda>q. q\<lparr>xstate := status, state := ZOMBIE\<rparr>) s in
          rbind (add_proc_to_list ZombieL (index_in_proc (procs s p)) s) (\<lambda>s.
          rbind (release_lk WaitLk s) (\<lambda>s. rbind (sched c s) (\<lambda>_. Inr s)))) (scheduler_back c p))) ?post"
          by (rule exit_tail [OF 3(1,2) no l(2) p])
      qed
    qed
  qed
qed

end
