(* ===== verification/Forkwait.thy ===== *)
theory Forkwait
  imports Lifecycle
begin

text \<open>
  \<open>wait\<close>, \<open>allocproc\<close> and the end of \<open>fork\<close>: what they do to the abstract view and that they
  keep the invariant. \<open>wait\<close> and \<open>allocproc\<close> free and allocate memory; for them the lemmas say
  what holds when the call returns, and which outcomes are impossible.
\<close>

section \<open>wait\<close>

lemma rep_copy:
  assumes "rep s V Q R"
  shows "okres UNIV (if a \<noteq> 0 then rbind (copyout pt a bs (km s)) (\<lambda>(r, k). Inr (r, s\<lparr>km := k\<rparr>))
      else Inr (0 :: int, s)) (\<lambda>(r, s'). \<exists>k. rep s' V Q (R\<lparr>km := k\<rparr>))"
  using rep_km [OF assms] assms
  by (cases "copyout pt a bs (km s)") (auto simp: split_beta intro: exI [of _ "km R"])

text \<open>
  What a scan of \<open>wait\<close> returns: with a child that is a zombie, its identifier after it was
  freed (or -1 when the status could not be copied out); without one, whether there is any
  child.
\<close>

definition reaped ::
  "nat \<Rightarrow> (nat \<Rightarrow> proc) \<Rightarrow> (listid \<Rightarrow> nat list) \<Rightarrow> int \<Rightarrow> (nat \<Rightarrow> proc) \<Rightarrow> (listid \<Rightarrow> nat list) \<Rightarrow> bool" where
  "reaped p V Q n V' Q' \<longleftrightarrow>
     n = -1 \<and> V' = V \<and> Q' = Q \<or>
     (\<exists>i < NPROC. parent (V i) = Some p \<and> state (V i) = ZOMBIE \<and> n = pid (V i) \<and>
        V' = V(i := freed (V i)) \<and> Q' = free_queues i Q)"

definition scanned ::
  "nat \<Rightarrow> nat list \<Rightarrow> bool \<Rightarrow> (nat \<Rightarrow> proc) \<Rightarrow> (listid \<Rightarrow> nat list) \<Rightarrow> 'a sstate_scheme \<Rightarrow>
     (int + bool) \<times> 'a sstate_scheme \<Rightarrow> bool" where
  "scanned p xs hk V Q R = (\<lambda>(res, s').
     case res of
       Inl n \<Rightarrow> \<exists>V' Q' k. rep s' V' Q' (set_lk WaitLk False (R\<lparr>km := k\<rparr>)) \<and> reaped p V Q n V' Q'
     | Inr h \<Rightarrow> rep s' V Q R \<and> (h \<longleftrightarrow> hk \<or> (\<exists>i \<in> set xs. parent (V i) = Some p)) \<and>
         (\<forall>i \<in> set xs. parent (V i) = Some p \<longrightarrow> state (V i) \<noteq> ZOMBIE))"

lemma wait_found_rep:
  assumes r: "rep s (V(i := (V i)\<lparr>plock := True\<rparr>)) Q R" and t: "table_inv V Q R"
    and l: "plocks_free V" "lk_held WaitLk R"
    and i: "i < NPROC" "state (V i) = ZOMBIE" "parent (V i) = Some p"
  shows "okres UNIV
    (rbind (if a \<noteq> 0 then rbind (copyout pt a bs (km s)) (\<lambda>(r, k). Inr (r, s\<lparr>km := k\<rparr>))
            else Inr (0, s)) (\<lambda>(r, s).
       if r < 0 then
         rbind (release_proc i s) (\<lambda>s. rbind (release_lk WaitLk s) (\<lambda>s. Inr (Inl (-1), s)))
       else
         rbind (freeproc i s) (\<lambda>s.
         rbind (release_proc i s) (\<lambda>s.
         rbind (release_lk WaitLk s) (\<lambda>s. Inr (Inl (pid (V i)), s))))))
    (scanned p xs hk V Q R)"
proof -
  note ti = table_invD [OF t i(1)]
  let ?V1 = "V(i := (V i)\<lparr>plock := True\<rparr>)"
  have li: "\<not> plock (V i)" using l by (simp add: plocks_free_def)
  have unlock: "okres UNIV (rbind (release_proc i s1) (\<lambda>s. rbind (release_lk WaitLk s) (\<lambda>s. Inr (Inl n, s))))
      (scanned p xs hk V Q R)"
    if r1: "rep s1 W Q1 (R\<lparr>km := k\<rparr>)" "plock (W i)" "reaped p V Q n (W(i := (W i)\<lparr>plock := False\<rparr>)) Q1"
    for s1 W Q1 k n
  proof (rule okres_bind [OF rep_release [OF r1(1,2)]])
    fix s2 assume r2: "rep s2 (W(i := (W i)\<lparr>plock := False\<rparr>)) Q1 (R\<lparr>km := k\<rparr>)"
    have "lk_held WaitLk (R\<lparr>km := k\<rparr>)" using l(2) by (simp add: lk_held_def)
    from rep_release_lk [OF r2 this, of UNIV] r1(3)
    show "okres UNIV (rbind (release_lk WaitLk s2) (\<lambda>s. Inr (Inl n, s))) (scanned p xs hk V Q R)"
      by (auto simp: okres_def rbind_def scanned_def split: sum.splits)
  qed
  show ?thesis
  proof (rule okres_bind [OF rep_copy [OF r]])
    fix x :: "int \<times> 'a sstate_scheme"
    assume "case x of (r, s') \<Rightarrow> \<exists>k. rep s' ?V1 Q (R\<lparr>km := k\<rparr>)"
    then obtain rc s1 k where x: "x = (rc, s1)" and r1: "rep s1 ?V1 Q (R\<lparr>km := k\<rparr>)" by (cases x) auto
    have "okres UNIV (rbind (release_proc i s1) (\<lambda>s. rbind (release_lk WaitLk s) (\<lambda>s. Inr (Inl (-1), s))))
        (scanned p xs hk V Q R)"
      by (rule unlock [OF r1]) (simp_all add: reaped_def li)
    moreover have "okres UNIV (rbind (freeproc i s1) (\<lambda>s. rbind (release_proc i s) (\<lambda>s.
        rbind (release_lk WaitLk s) (\<lambda>s. Inr (Inl (pid (V i)), s))))) (scanned p xs hk V Q R)"
    proof (rule okres_bind [OF freeproc_rep [OF r1 i(1)]])
      show "on_lists Q i = {ZombieL}" "index_in_proc (?V1 i) = int i" using ti i by simp_all
      fix s2 assume "\<exists>k'. rep s2 (?V1(i := freed (?V1 i))) (free_queues i Q) (R\<lparr>km := k, km := k'\<rparr>)"
      then obtain k' where r2: "rep s2 (?V1(i := freed (?V1 i))) (free_queues i Q) (R\<lparr>km := k'\<rparr>)" by auto
      show "okres UNIV (rbind (release_proc i s2) (\<lambda>s.
          rbind (release_lk WaitLk s) (\<lambda>s. Inr (Inl (pid (V i)), s)))) (scanned p xs hk V Q R)"
        by (rule unlock [OF r2]) (use i li in \<open>auto simp: reaped_def freed_def intro!: exI [of _ i]\<close>)
    qed
    ultimately show "okres UNIV (case x of (r, s) \<Rightarrow>
        if r < 0 then rbind (release_proc i s) (\<lambda>s. rbind (release_lk WaitLk s) (\<lambda>s. Inr (Inl (-1), s)))
        else rbind (freeproc i s) (\<lambda>s. rbind (release_proc i s) (\<lambda>s.
          rbind (release_lk WaitLk s) (\<lambda>s. Inr (Inl (pid (V i)), s))))) (scanned p xs hk V Q R)"
      by (simp add: x)
  qed
qed

lemma wait_scan_rep:
  assumes r: "rep s V Q R" and t: "table_inv V Q R" and l: "plocks_free V" "lk_held WaitLk R"
    and xs: "set xs \<subseteq> {..<NPROC}"
  shows "okres UNIV (wait_scan xs p a hk s) (scanned p xs hk V Q R)"
  using r xs
proof (induction xs arbitrary: s hk)
  case Nil
  then show ?case by (simp add: scanned_def)
next
  case (Cons i xs)
  have i: "i < NPROC" "set xs \<subseteq> {..<NPROC}" and li: "\<not> plock (V i)"
    using Cons.prems(2) l by (auto simp: plocks_free_def)
  have par: "parent (procs s i) = parent (V i)" using rep_sel(10) [OF Cons.prems(1)] .
  have step: "okres UNIV (wait_scan xs p a h s1) (scanned p (i # xs) hk V Q R)"
    if "rep s1 V Q R" "h \<longleftrightarrow> hk \<or> parent (V i) = Some p"
      "parent (V i) = Some p \<longrightarrow> state (V i) \<noteq> ZOMBIE" for s1 h
  proof (rule okres_mono [OF Cons.IH [OF that(1) i(2), of h]])
    fix x assume "scanned p xs h V Q R x"
    then show "scanned p (i # xs) hk V Q R x"
      using that(2,3) by (auto simp: scanned_def split: sum.splits)
  qed simp
  show ?case
  proof (cases "parent (V i) = Some p")
    case False
    then show ?thesis using step [OF Cons.prems(1), of hk] par by simp
  next
    case True
    let ?V1 = "V(i := (V i)\<lparr>plock := True\<rparr>)"
    show ?thesis
      unfolding wait_scan.simps par if_P [OF True]
    proof (rule okres_bind [OF rep_acquire [OF Cons.prems(1) li]])
      fix s1 assume r1: "rep s1 ?V1 Q R"
      have st: "state (procs s1 i) = state (V i)" "pid (procs s1 i) = pid (V i)"
        using rep_sel(3,7) [OF r1, of i] by simp_all
      have rel: "okres UNIV (release_proc i s1) (\<lambda>s'. rep s' V Q R)"
        using rep_release [OF r1, of i UNIV] li by simp
      have "okres UNIV (rbind (release_proc i s1) (wait_scan xs p a True)) (scanned p (i # xs) hk V Q R)"
        if "state (V i) \<noteq> ZOMBIE"
        by (rule okres_bind [OF rel]) (rule step, use True that in simp_all)
      then show "okres UNIV (if state (procs s1 i) = ZOMBIE then
          let n = pid (procs s1 i) in
          rbind (if a \<noteq> 0
                 then rbind (copyout (pagetable (procs s1 p)) a (int_bytes (xstate (procs s1 i))) (km s1))
                        (\<lambda>(r, k). Inr (r, s1\<lparr>km := k\<rparr>))
                 else Inr (0, s1)) (\<lambda>(r, s).
          if r < 0 then
            rbind (release_proc i s) (\<lambda>s.
            rbind (release_lk WaitLk s) (\<lambda>s. Inr (Inl (-1), s)))
          else
            rbind (freeproc i s) (\<lambda>s.
            rbind (release_proc i s) (\<lambda>s.
            rbind (release_lk WaitLk s) (\<lambda>s. Inr (Inl n, s)))))
        else rbind (release_proc i s1) (wait_scan xs p a True)) (scanned p (i # xs) hk V Q R)"
        using wait_found_rep [OF r1 t l i(1) _ True] by (simp add: st Let_def)
    qed
  qed
qed

text \<open>
  \<open>wait\<close> up to its return (\<open>Some n\<close>) or up to the point where it sleeps and the scheduler of
  the hart has taken over (\<open>None\<close>).
\<close>

definition sys_wait :: "nat \<Rightarrow> u64 \<Rightarrow> 'a sstate_scheme \<Rightarrow> (int option \<times> 'a sstate_scheme) res" where
  "sys_wait c a s =
     rbind (curproc c s) (\<lambda>p.
     rbind (wait_start c a s) (\<lambda>(r, s).
     case r of
       Inl n \<Rightarrow> Inr (Some n, s)
     | Inr _ \<Rightarrow> rbind (scheduler_back c p s) (\<lambda>s. Inr (None, s))))"

definition waited ::
  "nat \<Rightarrow> nat \<Rightarrow> (nat \<Rightarrow> proc) \<Rightarrow> (listid \<Rightarrow> nat list) \<Rightarrow> 'a sstate_scheme \<Rightarrow>
     int option \<times> 'a sstate_scheme \<Rightarrow> bool" where
  "waited c p V Q R = (\<lambda>(res, s').
     case res of
       Some n \<Rightarrow> \<exists>V' Q' k. rep s' V' Q' (R\<lparr>km := k\<rparr>) \<and> reaped p V Q n V' Q'
     | None \<Rightarrow> rep s' (V(p := (V p)\<lparr>chan := ProcChan p, state := SLEEPING\<rparr>))
         (Q(SleepingL := Q SleepingL @ [p])) (set_hart c (cproc_update (\<lambda>_. None)) R) \<and>
         \<not> killed (V p) \<and> (\<exists>i < NPROC. parent (V i) = Some p) \<and>
         (\<forall>i < NPROC. parent (V i) = Some p \<longrightarrow> state (V i) \<noteq> ZOMBIE))"

lemma set_lk_back: "\<not> lk_held lk R \<Longrightarrow> set_lk lk False (set_lk lk True R) = R"
  by (cases R; cases lk) (simp_all add: set_lk_def lk_held_def)

lemma set_lk_km: "set_lk lk b (R\<lparr>km := k\<rparr>) = (set_lk lk b R)\<lparr>km := k\<rparr>"
  by (cases lk) (simp_all add: set_lk_def)

lemma wait_rep:
  assumes r: "rep s V Q R" and t: "table_inv V Q R" and l: "plocks_free V" "locks_free R"
    and p: "cproc (cpus R c) = Some p"
  shows "okres UNIV (sys_wait c a s) (waited c p V Q R)"
proof -
  have cur: "curproc c s' = Inr p" if "rep s' W Q' R'" "cpus R' = cpus R" for s' W Q' and R' :: "'a sstate_scheme"
    using p repD(4) [OF that(1)] that(2) by (simp add: curproc_def myproc_def)
  let ?R = "set_lk WaitLk True R"
  have nl: "\<not> lk_held WaitLk R" using l(2) by (simp add: locks_free_def lk_held_def)
  have bk: "set_lk WaitLk False (?R\<lparr>km := k\<rparr>) = R\<lparr>km := k\<rparr>" for k
    using set_lk_back [OF nl] by (simp add: set_lk_km)
  let ?rest = "\<lambda>(r, s). case r of Inl n \<Rightarrow> Inr (Some n, s)
     | Inr _ \<Rightarrow> rbind (scheduler_back c p s) (\<lambda>s. Inr (None, s))"
  let ?kids = "\<lambda>q. \<lambda>(r, s). case r of
       Inl n \<Rightarrow> Inr (Inl n, s)
     | Inr havekids \<Rightarrow>
         if \<not> havekids \<or> killed (procs s q) then
           rbind (release_lk WaitLk s) (\<lambda>s. Inr (Inl (-1), s))
         else rbind (sleep_out c (ProcChan q) WaitLk s) (\<lambda>(ie, s). Inr (Inr ie, s))"
  have scan: "okres UNIV (rbind (?kids p x) ?rest) (waited c p V Q R)"
    if x: "scanned p [0..<NPROC] False V Q ?R x" for x
  proof (cases x)
    case (Pair res s2)
    show ?thesis
    proof (cases res)
      case (Inl n)
      then show ?thesis using x Pair bk by (auto simp: scanned_def waited_def)
    next
      case (Inr h)
      have r2: "rep s2 V Q ?R" and h: "h \<longleftrightarrow> (\<exists>i < NPROC. parent (V i) = Some p)"
        "\<forall>i < NPROC. parent (V i) = Some p \<longrightarrow> state (V i) \<noteq> ZOMBIE"
        using x Pair Inr by (auto simp: scanned_def)
      have kl: "killed (procs s2 p) = killed (V p)" using rep_sel(5) [OF r2] .
      have ret: "okres UNIV (rbind (rbind (release_lk WaitLk s2) (\<lambda>s. Inr (Inl (-1), s))) ?rest) (waited c p V Q R)"
      proof -
        have "okres UNIV (release_lk WaitLk s2) (\<lambda>s'. rep s' V Q R)"
          using rep_release_lk [OF r2, of WaitLk UNIV] set_lk_back [OF nl] by simp
        moreover have "\<exists>V' Q' k. rep s' V' Q' (R\<lparr>km := k\<rparr>) \<and> reaped p V Q (-1) V' Q'"
          if "rep s' V Q R" for s'
          using that by (intro exI [of _ V] exI [of _ Q] exI [of _ "km R"]) (simp add: reaped_def)
        ultimately show ?thesis
          by (auto simp: okres_def rbind_def waited_def split: sum.splits)
      qed
      have slp: "okres UNIV (rbind (rbind (sleep_out c (ProcChan p) WaitLk s2) (\<lambda>(ie, s). Inr (Inr ie, s))) ?rest)
          (waited c p V Q R)" if "h" "\<not> killed (V p)"
      proof -
        have eq: "rbind (rbind (sleep_out c (ProcChan p) WaitLk s2) (\<lambda>(ie, s). Inr (Inr ie, s))) ?rest =
            rbind (sys_sleep c (ProcChan p) WaitLk s2) (\<lambda>s. Inr (None, s))"
          using cur [OF r2] by (auto simp: sys_sleep_def rbind_def split: sum.splits)
        have "okres UNIV (sys_sleep c (ProcChan p) WaitLk s2)
            (\<lambda>s'. rep s' (V(p := (V p)\<lparr>chan := ProcChan p, state := SLEEPING\<rparr>))
              (Q(SleepingL := Q SleepingL @ [p])) (set_hart c (cproc_update (\<lambda>_. None)) R))"
          using sleep_rep [OF r2 _ l(1), of WaitLk c p UNIV "ProcChan p"] t p l(2) set_lk_back [OF nl] by simp
        then show ?thesis
          unfolding eq using that h by (auto simp: okres_def rbind_def waited_def split: sum.splits)
      qed
      show ?thesis using ret slp kl Pair Inr by auto
    qed
  qed
  have ws: "okres UNIV (wait_scan [0..<NPROC] p a False s1) (scanned p [0..<NPROC] False V Q ?R)"
    if "rep s1 V Q ?R" for s1
    by (rule wait_scan_rep [OF that _ l(1)]) (use t in auto)
  have eq: "sys_wait c a s = rbind (acquire_lk WaitLk s) (\<lambda>s1. rbind (curproc c s1) (\<lambda>p.
      rbind (wait_scan [0..<NPROC] p a False s1) (\<lambda>x. rbind (?kids p x) ?rest)))"
    using cur [OF r] by (simp add: sys_wait_def wait_start_def wait_body_def rbind_assoc)
  show ?thesis
    unfolding eq
  proof (rule okres_bind [OF rep_acquire_lk [OF r nl]])
    fix s1 assume r1: "rep s1 V Q ?R"
    show "okres UNIV (rbind (curproc c s1) (\<lambda>p. rbind (wait_scan [0..<NPROC] p a False s1)
        (\<lambda>x. rbind (?kids p x) ?rest))) (waited c p V Q R)"
      unfolding cur [OF r1 set_lk_sel(1)] rbind_simps by (rule okres_bind [OF ws [OF r1] scan])
  qed
qed

section \<open>allocproc\<close>

lemma rep_pid:
  assumes "rep s V Q R"
  shows "rep (s\<lparr>nextpid := n, pid_lock := b\<rparr>) V Q (R\<lparr>nextpid := n, pid_lock := b\<rparr>)"
proof -
  have "nxt_of (s\<lparr>nextpid := n, pid_lock := b\<rparr>) = nxt_of s"
    "slocks_free (s\<lparr>nextpid := n, pid_lock := b\<rparr>) = slocks_free s"
    by (auto simp: nxt_of_def slocks_free_def)
  moreover have "ptable.more (s\<lparr>nextpid := n, pid_lock := b\<rparr>) = ptable.more (R\<lparr>nextpid := n, pid_lock := b\<rparr>)"
    using assms by (cases s; cases R) (simp add: rep_def)
  ultimately show ?thesis
    using assms plists_ok_cong [of "s\<lparr>nextpid := n, pid_lock := b\<rparr>" s]
      contents_cong [of "s\<lparr>nextpid := n, pid_lock := b\<rparr>" s]
    by (simp add: rep_def view_def fun_eq_iff)
qed

text \<open>
  \<open>freeproc\<close> takes the process off the zombie list, so on a process that is not a zombie it
  does not return. That is the path of \<open>allocproc\<close> when memory runs out.
\<close>

lemma freeproc_not_zombie:
  assumes r: "rep s V Q R" and i: "i \<notin> set (Q ZombieL)" "index_in_proc (V i) = int i"
  shows "\<exists>e. freeproc i s = Inl e"
proof -
  have "\<exists>e. rbind (remove_proc_from_list ZombieL (index_in_proc (procs s1 i)) s1) f = Inl e"
    if "rep s1 (V(i := (V i)\<lparr>trapframe := 0\<rparr>)) Q R1" for s1 and R1 :: "'a sstate_scheme" and f :: "_ \<Rightarrow> 'b res"
  proof -
    have "index_in_proc (procs s1 i) = int i" using rep_sel(9) [OF that, of i] i(2) by simp
    moreover have "i \<notin> set (contents s1 ZombieL)" using repD(3) [OF that, of ZombieL] i(1) by simp
    ultimately show ?thesis
      using remove_not_in [OF repD(1) [OF that], of ZombieL i] by simp
  qed
  with free_memory_rep [OF r, of i] show ?thesis
    unfolding freeproc_split by (cases "free_memory i s") auto
qed

definition born :: "(nat \<Rightarrow> proc) \<Rightarrow> (listid \<Rightarrow> nat list) \<Rightarrow> 'a sstate_scheme \<Rightarrow> nat \<Rightarrow> 'a sstate_scheme \<Rightarrow> bool" where
  "born V Q R x s' \<longleftrightarrow> (\<exists>xs t g pc k. Q UnusedL = x # xs \<and> t \<noteq> 0 \<and> g \<noteq> 0 \<and>
     (\<exists>k1. kalloc (km R) = Inr (t, k1)) \<and>
     rep s' (V(x := (V x)\<lparr>plock := True, pid := nextpid R, state := USED, trapframe := t,
       pagetable := g, pcontext := pc\<rparr>)) (Q(UnusedL := xs)) (R\<lparr>nextpid := nextpid R + 1, km := k\<rparr>))"

definition allocated ::
  "(nat \<Rightarrow> proc) \<Rightarrow> (listid \<Rightarrow> nat list) \<Rightarrow> 'a sstate_scheme \<Rightarrow> 'a sstate_scheme \<Rightarrow>
     nat option \<times> 'a sstate_scheme \<Rightarrow> bool" where
  "allocated V Q R s = (\<lambda>(res, s').
     case res of
       None \<Rightarrow> Q UnusedL = [] \<and> s' = s
     | Some x \<Rightarrow> born V Q R x s')"

lemma allocpid_rep:
  assumes r: "rep s V Q R" and l: "\<not> pid_lock R"
  shows "okres UNIV (allocpid s) (\<lambda>(n, s'). n = nextpid R \<and> rep s' V Q (R\<lparr>nextpid := nextpid R + 1\<rparr>))"
proof -
  have R: "R\<lparr>nextpid := n, pid_lock := False\<rparr> = R\<lparr>nextpid := n\<rparr>" for n using l by (cases R) simp
  have "nextpid s = nextpid R" "\<not> pid_lock s" using repD(6,7) [OF r] l by simp_all
  then show ?thesis
    using rep_pid [OF r, where n = "nextpid R + 1" and b = False] unfolding R
    by (auto simp: allocpid_def Let_def)
qed

lemma alloc_memory_rep:
  assumes r: "rep s W Q R" and x: "x \<notin> set (Q ZombieL)" "index_in_proc (W x) = int x"
  shows "okres UNIV (rbind (kalloc (km s)) (\<lambda>(t, k).
       let s = set_proc x (trapframe_update (\<lambda>_. t)) (s\<lparr>km := k\<rparr>) in
       if t = 0 then
         rbind (freeproc x s) (\<lambda>s. rbind (release_proc x s) (\<lambda>s. Inr (None, s)))
       else
         rbind (proc_pagetable K (procs s x) (km s)) (\<lambda>(g, k).
         let s = set_proc x (pagetable_update (\<lambda>_. g)) (s\<lparr>km := k\<rparr>) in
         if g = 0 then
           rbind (freeproc x s) (\<lambda>s. rbind (release_proc x s) (\<lambda>s. Inr (None, s)))
         else
           Inr (Some x, set_proc x (\<lambda>q. q\<lparr>pcontext :=
             zero_context\<lparr>ra := forkret_addr K, sp := kstack q + 4096\<rparr>\<rparr>) s))))
    (\<lambda>(res, s'). \<exists>t g pc k. res = Some x \<and> t \<noteq> 0 \<and> g \<noteq> 0 \<and> (\<exists>k1. kalloc (km R) = Inr (t, k1)) \<and>
       rep s' (W(x := (W x)\<lparr>trapframe := t, pagetable := g, pcontext := pc\<rparr>)) Q (R\<lparr>km := k\<rparr>))"
    (is "okres _ _ ?post")
proof (rule okres_bind [of UNIV "kalloc (km s)" "\<lambda>x. kalloc (km s) = Inr x"])
  show "okres UNIV (kalloc (km s)) (\<lambda>x. kalloc (km s) = Inr x)" by (simp add: okres_def split: sum.split)
  have stuck: "okres UNIV (rbind (freeproc x s1) f) P"
    if "rep s1 W1 Q R1" "index_in_proc (W1 x) = int x" for s1 W1 f P and R1 :: "'a sstate_scheme"
    using freeproc_not_zombie [OF that(1) x(1) that(2)] by auto
  fix tk :: "nat \<times> kmem" assume "kalloc (km s) = Inr tk"
  then obtain t k where tk: "tk = (t, k)" "kalloc (km R) = Inr (t, k)"
    using repD(10) [OF r] by (cases tk) auto
  let ?s1 = "set_proc x (trapframe_update (\<lambda>_. t)) (s\<lparr>km := k\<rparr>)"
  have r1: "rep ?s1 (W(x := (W x)\<lparr>trapframe := t\<rparr>)) Q (R\<lparr>km := k\<rparr>)"
    by (rule rep_set [OF rep_km [OF r]]) simp
  have fin: "okres UNIV (rbind (proc_pagetable K (procs ?s1 x) (km ?s1)) (\<lambda>(g, k).
         let s = set_proc x (pagetable_update (\<lambda>_. g)) (?s1\<lparr>km := k\<rparr>) in
         if g = 0 then
           rbind (freeproc x s) (\<lambda>s. rbind (release_proc x s) (\<lambda>s. Inr (None, s)))
         else
           Inr (Some x, set_proc x (\<lambda>q. q\<lparr>pcontext :=
             zero_context\<lparr>ra := forkret_addr K, sp := kstack q + 4096\<rparr>\<rparr>) s))) ?post"
    if t: "t \<noteq> 0"
  proof (rule okres_bind [of UNIV "proc_pagetable K (procs ?s1 x) (km ?s1)" "\<lambda>_. True"])
    show "okres UNIV (proc_pagetable K (procs ?s1 x) (km ?s1)) (\<lambda>_. True)"
      by (simp add: okres_def split: sum.split)
    fix gk :: "nat \<times> kmem"
    obtain g k2 where gk: "gk = (g, k2)" by (cases gk)
    let ?s2 = "set_proc x (pagetable_update (\<lambda>_. g)) (?s1\<lparr>km := k2\<rparr>)"
    let ?W2 = "W(x := (W x)\<lparr>trapframe := t, pagetable := g\<rparr>)"
    let ?pc = "zero_context\<lparr>ra := forkret_addr K, sp := kstack (W x) + 4096\<rparr>"
    let ?s3 = "set_proc x (\<lambda>q. q\<lparr>pcontext :=
             zero_context\<lparr>ra := forkret_addr K, sp := kstack q + 4096\<rparr>\<rparr>) ?s2"
    have r2: "rep ?s2 ?W2 Q (R\<lparr>km := k2\<rparr>)"
      using rep_set [OF rep_km [OF r1, where k = k2] safe_updates(9) [of "\<lambda>_. g"], where i = x] by simp
    have "rep ?s3 (W(x := (W x)\<lparr>trapframe := t, pagetable := g, pcontext := ?pc\<rparr>)) Q (R\<lparr>km := k2\<rparr>)"
      using rep_set [OF r2 safe_updates(13) [of "\<lambda>n. zero_context\<lparr>ra := forkret_addr K, sp := n + 4096\<rparr>"], of x]
      by simp
    then have "?post (Some x, ?s3)" if "g \<noteq> 0"
      unfolding prod.case using that t tk(2) by blast
    with stuck [OF r2] x(2) gk show "okres UNIV (case gk of (g, k) \<Rightarrow>
         let s = set_proc x (pagetable_update (\<lambda>_. g)) (?s1\<lparr>km := k\<rparr>) in
         if g = 0 then
           rbind (freeproc x s) (\<lambda>s. rbind (release_proc x s) (\<lambda>s. Inr (None, s)))
         else
           Inr (Some x, set_proc x (\<lambda>q. q\<lparr>pcontext :=
             zero_context\<lparr>ra := forkret_addr K, sp := kstack q + 4096\<rparr>\<rparr>) s)) ?post"
      by (cases "g = 0") (simp_all add: Let_def)
  qed
  with stuck [OF r1] x(2) tk(1) show "okres UNIV (case tk of (t, k) \<Rightarrow>
       let s = set_proc x (trapframe_update (\<lambda>_. t)) (s\<lparr>km := k\<rparr>) in
       if t = 0 then
         rbind (freeproc x s) (\<lambda>s. rbind (release_proc x s) (\<lambda>s. Inr (None, s)))
       else
         rbind (proc_pagetable K (procs s x) (km s)) (\<lambda>(g, k).
         let s = set_proc x (pagetable_update (\<lambda>_. g)) (s\<lparr>km := k\<rparr>) in
         if g = 0 then
           rbind (freeproc x s) (\<lambda>s. rbind (release_proc x s) (\<lambda>s. Inr (None, s)))
         else
           Inr (Some x, set_proc x (\<lambda>q. q\<lparr>pcontext :=
             zero_context\<lparr>ra := forkret_addr K, sp := kstack q + 4096\<rparr>\<rparr>) s))) ?post"
    by (cases "t = 0") (simp_all add: Let_def)
qed

lemma allocproc_first:
  assumes r: "rep s V Q R" and x: "Q UnusedL = x # xs" "\<not> plock (V x)"
  shows "allocproc K s = rbind (allocpid (set_proc x (plock_update (\<lambda>_. True)) s)) (\<lambda>(n, s).
       let s = set_proc x (pid_update (\<lambda>_. n)) s in
       rbind (remove_proc_from_list UnusedL (int x) s) (\<lambda>s.
       let s = set_proc x (state_update (\<lambda>_. USED)) s in
       rbind (kalloc (km s)) (\<lambda>(t, k).
       let s = set_proc x (trapframe_update (\<lambda>_. t)) (s\<lparr>km := k\<rparr>) in
       if t = 0 then
         rbind (freeproc x s) (\<lambda>s. rbind (release_proc x s) (\<lambda>s. Inr (None, s)))
       else
         rbind (proc_pagetable K (procs s x) (km s)) (\<lambda>(g, k).
         let s = set_proc x (pagetable_update (\<lambda>_. g)) (s\<lparr>km := k\<rparr>) in
         if g = 0 then
           rbind (freeproc x s) (\<lambda>s. rbind (release_proc x s) (\<lambda>s. Inr (None, s)))
         else
           Inr (Some x, set_proc x (\<lambda>q. q\<lparr>pcontext :=
             zero_context\<lparr>ra := forkret_addr K, sp := kstack q + 4096\<rparr>\<rparr>) s)))))"
proof -
  note hd = first_rep [OF r, of UnusedL, simplified]
  have "x < NPROC" "\<not> plock (procs s x)" using hd(3) x rep_sel(1) [OF r, of x] by simp_all
  then show ?thesis
    using hd x(1)
    by (simp add: allocproc_def lock_list plist_acc Let_def acquire_proc_llock unlock_list proc_at_def)
qed

lemma allocproc_rep:
  assumes r: "rep s V Q R" and t: "table_inv V Q R" and l: "plocks_free V" "\<not> pid_lock R"
  shows "okres UNIV (allocproc K s) (allocated V Q R s)"
proof (cases "Q UnusedL")
  case Nil
  with first_rep [OF r, of UnusedL] show ?thesis
    by (simp add: allocproc_def lock_list unlock_list plist_acc Let_def allocated_def)
next
  case (Cons x xs)
  note hd = first_rep [OF r, of UnusedL, simplified]
  have xN: "x < NPROC" using hd(3) Cons by simp
  note ti = table_invD [OF t xN]
  have lx: "\<not> plock (V x)" "\<not> plock (procs s x)"
    using l rep_sel(1) [OF r, of x] by (simp_all add: plocks_free_def)
  have nz: "x \<notin> set (Q ZombieL)"
    using plists_okD(5) [OF repD(1) [OF r], of UnusedL ZombieL] repD(3) [OF r] Cons by auto
  let ?s1 = "set_proc x (plock_update (\<lambda>_. True)) s" and ?V1 = "V(x := (V x)\<lparr>plock := True\<rparr>)"
  let ?n = "nextpid R" and ?R1 = "R\<lparr>nextpid := nextpid R + 1\<rparr>"
  let ?V2 = "?V1(x := (?V1 x)\<lparr>pid := ?n\<rparr>)" and ?V3 = "V(x := (V x)\<lparr>plock := True, pid := ?n, state := USED\<rparr>)"
  let ?Q = "Q(UnusedL := xs)"
  have r1: "rep ?s1 ?V1 Q R" by (rule rep_set [OF r]) simp
  note eq = allocproc_first [OF r Cons lx(1), of K]
  show ?thesis
    unfolding eq
  proof (rule okres_bind [OF allocpid_rep [OF r1 l(2)]])
    fix y assume "case y of (n, s') \<Rightarrow> n = ?n \<and> rep s' ?V1 Q ?R1"
    then obtain s2 where y: "y = (?n, s2)" and r2: "rep s2 ?V1 Q ?R1" by (cases y) auto
    let ?s3 = "set_proc x (pid_update (\<lambda>_. ?n)) s2"
    have r3: "rep ?s3 ?V2 Q ?R1" by (rule rep_set [OF r2]) simp
    have q: "Q(UnusedL := remove1 x (Q UnusedL)) = ?Q" using Cons by simp
    let ?mem = "\<lambda>s. rbind (kalloc (km s)) (\<lambda>(t, k).
       let s = set_proc x (trapframe_update (\<lambda>_. t)) (s\<lparr>km := k\<rparr>) in
       if t = 0 then
         rbind (freeproc x s) (\<lambda>s. rbind (release_proc x s) (\<lambda>s. Inr (None, s)))
       else
         rbind (proc_pagetable K (procs s x) (km s)) (\<lambda>(g, k).
         let s = set_proc x (pagetable_update (\<lambda>_. g)) (s\<lparr>km := k\<rparr>) in
         if g = 0 then
           rbind (freeproc x s) (\<lambda>s. rbind (release_proc x s) (\<lambda>s. Inr (None, s)))
         else
           Inr (Some x, set_proc x (\<lambda>q. q\<lparr>pcontext :=
             zero_context\<lparr>ra := forkret_addr K, sp := kstack q + 4096\<rparr>\<rparr>) s)))"
    have "okres UNIV (rbind (remove_proc_from_list UnusedL (int x) ?s3) (\<lambda>s.
       let s = set_proc x (state_update (\<lambda>_. USED)) s in ?mem s)) (allocated V Q R s)"
    proof (rule okres_bind [OF rep_remove [OF r3]])
      show "UnusedL \<in> all_lists" "x \<in> set (Q UnusedL)" using Cons by simp_all
      fix s4 assume "rep s4 ?V2 (Q(UnusedL := remove1 x (Q UnusedL))) ?R1"
      then have r4: "rep s4 ?V2 ?Q ?R1" unfolding q .
      have r5: "rep (set_proc x (state_update (\<lambda>_. USED)) s4) ?V3 ?Q ?R1"
        using rep_set [OF r4, of "state_update (\<lambda>_. USED)" x] by simp
      have "okres UNIV (?mem (set_proc x (state_update (\<lambda>_. USED)) s4)) (\<lambda>(res, s'). \<exists>t g pc k.
          res = Some x \<and> t \<noteq> 0 \<and> g \<noteq> 0 \<and> (\<exists>k1. kalloc (km ?R1) = Inr (t, k1)) \<and>
          rep s' (?V3(x := (?V3 x)\<lparr>trapframe := t, pagetable := g, pcontext := pc\<rparr>)) ?Q (?R1\<lparr>km := k\<rparr>))"
        by (rule alloc_memory_rep [OF r5]) (use nz ti in simp_all)
      then show "okres UNIV (let s = set_proc x (state_update (\<lambda>_. USED)) s4 in ?mem s) (allocated V Q R s)"
        unfolding Let_def
      proof (rule okres_mono)
        fix z assume "case z of (res, s') \<Rightarrow> \<exists>t g pc k. res = Some x \<and> t \<noteq> 0 \<and> g \<noteq> 0 \<and>
          (\<exists>k1. kalloc (km ?R1) = Inr (t, k1)) \<and> rep s' (?V3(x := (?V3 x)\<lparr>trapframe := t, pagetable := g, pcontext := pc\<rparr>)) ?Q (?R1\<lparr>km := k\<rparr>)"
        then obtain s' t g pc k where "z = (Some x, s')" "t \<noteq> 0" "g \<noteq> 0"
          "\<exists>k1. kalloc (km R) = Inr (t, k1)"
          "rep s' (V(x := (V x)\<lparr>plock := True, pid := ?n, state := USED, trapframe := t,
            pagetable := g, pcontext := pc\<rparr>)) ?Q (R\<lparr>nextpid := nextpid R + 1, km := k\<rparr>)"
          by (cases z) auto
        then show "allocated V Q R s z"
          using Cons unfolding allocated_def born_def by (simp only: prod.case option.case) blast
      qed simp
    qed
    then show "okres UNIV (case y of (n, s) \<Rightarrow>
       let s = set_proc x (pid_update (\<lambda>_. n)) s in
       rbind (remove_proc_from_list UnusedL (int x) s) (\<lambda>s.
       let s = set_proc x (state_update (\<lambda>_. USED)) s in ?mem s)) (allocated V Q R s)"
      by (simp add: y Let_def)
  qed
qed

section \<open>The end of fork\<close>

text \<open>
  A process that \<open>allocproc\<close> returned and that is not yet published: its lock is held and it
  is on no list. \<open>fork\<close> and \<open>userinit\<close> fill in fields that no other process looks at.
\<close>

definition newborn :: "(nat \<Rightarrow> proc) \<Rightarrow> nat \<Rightarrow> int \<Rightarrow> proc \<Rightarrow> bool" where
  "newborn V x n q \<longleftrightarrow> plock q \<and> state q = USED \<and> pid q = n \<and> parent q = parent (V x) \<and>
     cpu_num q = cpu_num (V x) \<and> index_in_proc q = index_in_proc (V x)"

definition inner :: "(proc \<Rightarrow> proc) \<Rightarrow> bool" where
  "inner f \<longleftrightarrow> safe f \<and> (\<forall>p. plock (f p) = plock p \<and> state (f p) = state p \<and> pid (f p) = pid p \<and>
     parent (f p) = parent p \<and> cpu_num (f p) = cpu_num p \<and> index_in_proc (f p) = index_in_proc p)"

definition unborn :: "(nat \<Rightarrow> proc) \<Rightarrow> (listid \<Rightarrow> nat list) \<Rightarrow> 'a sstate_scheme \<Rightarrow> nat \<Rightarrow> 'a sstate_scheme \<Rightarrow> bool" where
  "unborn V Q R x s' \<longleftrightarrow> (\<exists>xs q k. Q UnusedL = x # xs \<and> newborn V x (nextpid R) q \<and>
     rep s' (V(x := q)) (Q(UnusedL := xs)) (R\<lparr>nextpid := nextpid R + 1, km := k\<rparr>))"

lemma born_unborn:
  assumes "born V Q R x s'"
  shows "unborn V Q R x s'"
proof -
  obtain xs t g pc k where *: "Q UnusedL = x # xs"
      "rep s' (V(x := (V x)\<lparr>plock := True, pid := nextpid R, state := USED, trapframe := t,
        pagetable := g, pcontext := pc\<rparr>)) (Q(UnusedL := xs)) (R\<lparr>nextpid := nextpid R + 1, km := k\<rparr>)"
    using assms unfolding born_def by blast
  moreover have "newborn V x (nextpid R) ((V x)\<lparr>plock := True, pid := nextpid R, state := USED,
      trapframe := t, pagetable := g, pcontext := pc\<rparr>)"
    by (simp add: newborn_def)
  ultimately show ?thesis unfolding unborn_def by blast
qed

lemma unborn_inner:
  assumes "unborn V Q R x s'" "inner f"
  shows "unborn V Q R x (set_proc x f s')"
proof -
  obtain xs q k where *: "Q UnusedL = x # xs" "newborn V x (nextpid R) q"
      "rep s' (V(x := q)) (Q(UnusedL := xs)) (R\<lparr>nextpid := nextpid R + 1, km := k\<rparr>)"
    using assms(1) unfolding unborn_def by blast
  have "rep (set_proc x f s') (V(x := f q)) (Q(UnusedL := xs)) (R\<lparr>nextpid := nextpid R + 1, km := k\<rparr>)"
    using rep_set [OF *(3), of f x] assms(2) by (simp add: inner_def)
  moreover have "newborn V x (nextpid R) (f q)"
    using *(2) assms(2) by (simp add: newborn_def inner_def)
  ultimately show ?thesis using *(1) unfolding unborn_def by blast
qed

lemma unborn_km:
  assumes "unborn V Q R x s'"
  shows "unborn V Q R x (s'\<lparr>km := k\<rparr>)"
proof -
  obtain xs q k' where *: "Q UnusedL = x # xs" "newborn V x (nextpid R) q"
      "rep s' (V(x := q)) (Q(UnusedL := xs)) (R\<lparr>nextpid := nextpid R + 1, km := k'\<rparr>)"
    using assms(1) unfolding unborn_def by blast
  from rep_km [OF *(3), of k] *(1,2) show ?thesis unfolding unborn_def by auto
qed

lemma table_inv_newborn:
  assumes r: "rep s V Q R" and t: "table_inv V Q R" and x: "Q UnusedL = x # xs"
    and q: "newborn V x (nextpid R) q"
  shows "table_inv (V(x := q)) (Q(UnusedL := xs)) (R\<lparr>nextpid := nextpid R + 1, km := k\<rparr>)"
    "x < NPROC" "on_lists (Q(UnusedL := xs)) x = {}" "state (V x) = UNUSED"
proof -
  show xN: "x < NPROC" using first_rep(3) [OF r, of UnusedL x] x by simp
  note ti = table_invD [OF t xN]
  have d: "distinct (Q UnusedL)" by (rule rep_distinct [OF r]) simp
  have qq: "Q(UnusedL := xs) = Q(UnusedL := remove1 x (Q UnusedL))" using x by simp
  have "UnusedL \<in> on_lists Q x" using x by (simp add: on_lists_def)
  then show st: "state (V x) = UNUSED"
    using ti(4) by (cases "state (V x)") auto
  have on: "on_lists (Q(UnusedL := xs)) j = (if j = x then {} else on_lists Q j)" for j
    unfolding qq using on_lists_remove [of Q UnusedL x j] d ti(4) st by simp
  then show "on_lists (Q(UnusedL := xs)) x = {}" by simp
  have "placement (V(x := q)) (Q(UnusedL := xs))"
    by (rule placement_upd [of V Q]) (use t ti on q in \<open>simp_all add: table_inv_def newborn_def\<close>)
  moreover have "running (V(x := q)) (cpus R)"
    by (rule running_same) (use t q st in \<open>simp_all add: table_inv_def newborn_def\<close>)
  moreover have "pids (V(x := q)) (nextpid R + 1)"
    by (rule pids_alloc) (use t q st in \<open>simp_all add: table_inv_def newborn_def\<close>)
  moreover have "family (V(x := q)) (initproc R)"
  proof (rule familyI)
    have f: "family V (initproc R)" using t by (simp add: table_inv_def)
    have al: "alive (state ((V(x := q)) j))" if "alive (state (V j))" for j
      using that q by (simp add: newborn_def)
    fix j assume "initproc R = Some j"
    then show "j < NPROC \<and> alive (state ((V(x := q)) j))" using familyD(1) [OF f, of j] al by blast
  next
    have f: "family V (initproc R)" using t by (simp add: table_inv_def)
    have al: "alive (state ((V(x := q)) j))" if "alive (state (V j))" for j
      using that q by (simp add: newborn_def)
    fix i j assume i: "i < NPROC" "parent ((V(x := q)) i) = Some j"
    then have "parent (V i) = Some j" using q by (cases "i = x") (simp_all add: newborn_def)
    then show "j < NPROC \<and> alive (state ((V(x := q)) j))" using familyD(2) [OF f i(1), of j] al by blast
  next
    have f: "family V (initproc R)" using t by (simp add: table_inv_def)
    fix i assume "i < NPROC" "state ((V(x := q)) i) = UNUSED"
    then show "parent ((V(x := q)) i) = None"
      using familyD(3) [OF f, of i] q by (cases "i = x") (simp_all add: newborn_def)
  qed
  ultimately show "table_inv (V(x := q)) (Q(UnusedL := xs)) (R\<lparr>nextpid := nextpid R + 1, km := k\<rparr>)"
    by (simp add: table_inv_def)
qed

lemma table_inv_publish:
  assumes t: "table_inv V Q R" and x: "x < NPROC" "on_lists Q x = {}" "state (V x) = USED"
    and p: "par = None \<or> (\<exists>p < NPROC. par = Some p \<and> alive (state (V p)))" and n: "n < NCPU"
      "0 \<le> m" "m < int NCPU"
  shows "table_inv (V(x := (V x)\<lparr>parent := par, state := RUNNABLE, cpu_num := m, plock := False\<rparr>))
    (Q(RunnableL n := Q (RunnableL n) @ [x])) R"
proof -
  let ?q = "(V x)\<lparr>parent := par, state := RUNNABLE, cpu_num := m, plock := False\<rparr>"
  let ?Q = "Q(RunnableL n := Q (RunnableL n) @ [x])"
  note ti = table_invD [OF t x(1)]
  have "on_lists ?Q j = (if j = x then {RunnableL n} else on_lists Q j)" for j
    using on_lists_add [of "RunnableL n" Q x j] x(2) n(1) by simp
  then have "placement (V(x := ?q)) ?Q"
    by (intro placement_upd [of V Q]) (use t ti n in \<open>auto simp: table_inv_def\<close>)
  moreover have "running (V(x := ?q)) (cpus R)"
    by (rule running_same) (use t x in \<open>simp_all add: table_inv_def\<close>)
  moreover have "pids (V(x := ?q)) (nextpid R)"
    by (rule pids_same) (use t x in \<open>simp_all add: table_inv_def\<close>)
  moreover have "family (V(x := ?q)) (initproc R)"
  proof (rule familyI)
    have f: "family V (initproc R)" using t by (simp add: table_inv_def)
    have al: "alive (state ((V(x := ?q)) j))" if "alive (state (V j))" for j
      using that by simp
    {
      fix j assume "initproc R = Some j"
      then show "j < NPROC \<and> alive (state ((V(x := ?q)) j))" using familyD(1) [OF f, of j] al by blast
    }
    {
      fix i j assume i: "i < NPROC" "parent ((V(x := ?q)) i) = Some j"
      show "j < NPROC \<and> alive (state ((V(x := ?q)) j))"
        using familyD(2) [OF f i(1), of j] al [of j] i p by (cases "i = x") auto
    }
    fix i assume "i < NPROC" "state ((V(x := ?q)) i) = UNUSED"
    then show "parent ((V(x := ?q)) i) = None"
      using familyD(3) [OF f, of i] by (cases "i = x") simp_all
  qed
  ultimately show ?thesis by (simp add: table_inv_def)
qed

lemma fork_publish_rep:
  assumes r: "rep s V Q R" and t: "table_inv V Q R" and l: "\<And>i. plock (V i) \<longleftrightarrow> i = x" "locks_free R"
    and x: "x < NPROC" "on_lists Q x = {}" "state (V x) = USED"
    and p: "p < NPROC" "alive (state (V p))" "p \<noteq> x"
  shows "okres (stops (blncflg K)) (fork_publish K p x s) (\<lambda>s'. \<exists>n m R'. n < NCPU \<and> ptable.more R' = ptable.more R \<and>
    rep s' (V(x := (V x)\<lparr>parent := Some p, state := RUNNABLE, cpu_num := m, plock := False\<rparr>))
      (Q(RunnableL n := Q (RunnableL n) @ [x])) R' \<and> 0 \<le> m \<and> m < int NCPU)"
    (is "okres _ _ ?post")
proof -
  note tx = table_invD [OF t x(1)] and tp = table_invD [OF t p(1)]
  let ?V1 = "V(x := (V x)\<lparr>plock := False\<rparr>)" and ?R1 = "set_lk WaitLk True R"
  let ?V2 = "V(x := (V x)\<lparr>plock := False, parent := Some p\<rparr>)"
  let ?V3 = "V(x := (V x)\<lparr>parent := Some p, plock := True\<rparr>)"
  let ?V4 = "V(x := (V x)\<lparr>parent := Some p, plock := True, state := RUNNABLE\<rparr>)"
  have nl: "\<not> lk_held WaitLk R" using l(2) by (simp add: locks_free_def lk_held_def)
  have rel: "okres B (release_proc x s1) (\<lambda>s'. rep s' (V(x := (V x)\<lparr>parent := Some p, state := RUNNABLE,
        cpu_num := m, plock := False\<rparr>)) Q' R')"
    if "rep s1 (V(x := (V x)\<lparr>parent := Some p, plock := True, state := RUNNABLE, cpu_num := m\<rparr>)) Q' R'"
    for s1 m Q' R' B
    using rep_release [OF that, of x B] by simp
  have tail: "okres (stops (blncflg K)) (rbind (if blncflg K then balance x s1
            else rbind (runnable_of (cpu_num (procs s1 p))) (\<lambda>l.
                 add_proc_to_list l (index_in_proc (procs s1 x)) s1)) (release_proc x)) ?post"
    if r1: "rep s1 ?V4 Q R" for s1
  proof (cases "blncflg K")
    case True
    have "okres {Undef ''cpus[]''} (rbind (balance x s1) (release_proc x)) ?post"
    proof (rule okres_bind [OF rep_balance [OF r1 x(1,2)]])
      show "index_in_proc (?V4 x) = int x" using tx by simp
      fix s2 assume "\<exists>n < NCPU. \<exists>R'. rep s2 (?V4(x := (?V4 x)\<lparr>cpu_num := int n\<rparr>))
        (Q(RunnableL n := Q (RunnableL n) @ [x])) R' \<and> ptable.more R' = ptable.more R"
      then obtain n R' where n: "n < NCPU" "ptable.more R' = ptable.more R" and r2:
        "rep s2 (V(x := (V x)\<lparr>parent := Some p, plock := True, state := RUNNABLE, cpu_num := int n\<rparr>))
          (Q(RunnableL n := Q (RunnableL n) @ [x])) R'" by auto
      show "okres {Undef ''cpus[]''} (release_proc x s2) ?post"
        by (rule okres_mono [OF rel [OF r2]]) (use n in \<open>blast intro: of_nat_0_le_iff of_nat_less_iff [THEN iffD2]\<close>)+
    qed
    with True show ?thesis by (simp add: stops_def)
  next
    case False
    let ?n = "nat (cpu_num (V p))"
    have cpu: "runnable_of (cpu_num (procs s1 p)) = Inr (RunnableL ?n)"
      using rep_sel(8) [OF r1, of p] tp p(3) by (simp add: runnable_of_def)
    have "okres {} (rbind (add_proc_to_list (RunnableL ?n) (index_in_proc (procs s1 x)) s1) (release_proc x)) ?post"
    proof (rule okres_bind [OF rep_add_on [OF r1 _ x(1,2)]])
      show "RunnableL ?n \<in> all_lists" "index_in_proc (?V4 x) = int x" using tp tx by simp_all
      fix s2 assume a: "rep s2 ?V4 (Q(RunnableL ?n := Q (RunnableL ?n) @ [x])) R"
      have v: "?V4 = V(x := (V x)\<lparr>parent := Some p, plock := True, state := RUNNABLE,
          cpu_num := cpu_num (V x)\<rparr>)" by simp
      have r2: "rep s2 (V(x := (V x)\<lparr>parent := Some p, plock := True, state := RUNNABLE,
          cpu_num := cpu_num (V x)\<rparr>)) (Q(RunnableL ?n := Q (RunnableL ?n) @ [x])) R"
        using a unfolding v [symmetric] .
      have n: "?n < NCPU" "0 \<le> cpu_num (V x)" "cpu_num (V x) < int NCPU" using tp tx by simp_all
      show "okres {} (release_proc x s2) ?post"
        by (rule okres_mono [OF rel [OF r2]]) (use n in blast)+
    qed
    with False cpu show ?thesis by (simp add: stops_def)
  qed
  show ?thesis
    unfolding fork_publish_def
  proof (rule okres_bind [OF rep_release [OF r]])
    show "plock (V x)" using l by simp
    fix s1 assume r1: "rep s1 ?V1 Q R"
    show "okres (stops (blncflg K)) (rbind (acquire_lk WaitLk s1) (\<lambda>s.
     let s = set_proc x (parent_update (\<lambda>_. Some p)) s in
     rbind (release_lk WaitLk s) (\<lambda>s.
     rbind (acquire_proc x s) (\<lambda>s.
     let s = set_proc x (state_update (\<lambda>_. RUNNABLE)) s in
     rbind (if blncflg K then balance x s
            else rbind (runnable_of (cpu_num (procs s p))) (\<lambda>l.
                 add_proc_to_list l (index_in_proc (procs s x)) s))
     (release_proc x))))) ?post"
    proof (rule okres_bind [OF rep_acquire_lk [OF r1 nl]])
      fix s2 assume r2: "rep s2 ?V1 Q ?R1"
      let ?s3 = "set_proc x (parent_update (\<lambda>_. Some p)) s2"
      have r3: "rep ?s3 ?V2 Q ?R1" using rep_set [OF r2 safe_updates(7), of x] by simp
      show "okres (stops (blncflg K)) (let s = ?s3 in
         rbind (release_lk WaitLk s) (\<lambda>s.
         rbind (acquire_proc x s) (\<lambda>s.
         let s = set_proc x (state_update (\<lambda>_. RUNNABLE)) s in
         rbind (if blncflg K then balance x s
                else rbind (runnable_of (cpu_num (procs s p))) (\<lambda>l.
                     add_proc_to_list l (index_in_proc (procs s x)) s))
         (release_proc x)))) ?post"
        unfolding Let_def
      proof (rule okres_bind [OF rep_release_lk [OF r3]])
        show "lk_held WaitLk ?R1" by simp
        fix s4 assume "rep s4 ?V2 Q (set_lk WaitLk False ?R1)"
        then have r4: "rep s4 ?V2 Q R" using set_lk_back [OF nl] by simp
        have "okres (stops (blncflg K)) (acquire_proc x s4) (\<lambda>s'. rep s' ?V3 Q R)"
          using rep_acquire [OF r4, of x] by simp
        then show "okres (stops (blncflg K)) (rbind (acquire_proc x s4) (\<lambda>s.
            rbind (if blncflg K then balance x (set_proc x (state_update (\<lambda>_. RUNNABLE)) s)
                else rbind (runnable_of (cpu_num (procs (set_proc x (state_update (\<lambda>_. RUNNABLE)) s) p))) (\<lambda>l.
                     add_proc_to_list l (index_in_proc (procs (set_proc x (state_update (\<lambda>_. RUNNABLE)) s) x))
                       (set_proc x (state_update (\<lambda>_. RUNNABLE)) s)))
            (release_proc x))) ?post"
        proof (rule okres_bind)
          fix s5 assume r5: "rep s5 ?V3 Q R"
          have "rep (set_proc x (state_update (\<lambda>_. RUNNABLE)) s5) ?V4 Q R"
            using rep_set [OF r5 safe_updates(2), of x] by simp
          then show "okres (stops (blncflg K)) (rbind (if blncflg K then balance x (set_proc x (state_update (\<lambda>_. RUNNABLE)) s5)
                else rbind (runnable_of (cpu_num (procs (set_proc x (state_update (\<lambda>_. RUNNABLE)) s5) p))) (\<lambda>l.
                     add_proc_to_list l (index_in_proc (procs (set_proc x (state_update (\<lambda>_. RUNNABLE)) s5) x))
                       (set_proc x (state_update (\<lambda>_. RUNNABLE)) s5)))
            (release_proc x)) ?post"
            by (rule tail)
        qed
      qed
    qed
  qed
qed

end
