(* ===== verification/Kernel.thy ===== *)
theory Kernel
  imports Forkwait
begin

text \<open>
  The process part of the kernel as a transition system. A state is what all harts see when
  no spinlock is held; a transition is one entry into the kernel, up to its return, to its
  next switch of context or, for a process that is switched to, to the point where it has
  released the locks that it resumed with. \<open>kreach\<close> are the states reachable from \<open>procinit\<close>.
\<close>

section \<open>Transitions\<close>

text \<open>A process that comes back from \<open>sleep\<close>, up to its release of the lock it slept with.\<close>

definition sys_resume :: "nat \<Rightarrow> bool \<Rightarrow> lkid \<Rightarrow> 'a sstate_scheme \<Rightarrow> 'a sstate_scheme res" where
  "sys_resume c ie lk s =
     rbind (scheduler_pick c s) (\<lambda>(r, s).
     case r of
       None \<Rightarrow> Inr s
     | Some p \<Rightarrow> rbind (sleep_in c p ie lk s) (release_lk lk))"

text \<open>
  In \<open>fork\<close> and \<open>userinit\<close> the new process is filled in with \<open>f\<close> and memory changes to \<open>k\<close>
  between \<open>allocproc\<close> and the publication; \<open>user\<close> is any such change of the running process
  itself, as by \<open>growproc\<close>, \<open>exec\<close> or an open file.
\<close>

inductive kstep :: "kparams \<Rightarrow> 'a sstate_scheme \<Rightarrow> 'a sstate_scheme \<Rightarrow> bool" for K :: kparams where
  yield: "myproc c s = Some p \<Longrightarrow> sys_yield c s = Inr s' \<Longrightarrow> kstep K s s'"
| sleep: "myproc c s = Some p \<Longrightarrow> acquire_lk lk s = Inr s1 \<Longrightarrow> sys_sleep c ch lk s1 = Inr s' \<Longrightarrow>
    kstep K s s'"
| dispatch: "c < NCPU \<Longrightarrow> myproc c s = None \<Longrightarrow> sys_dispatch c s = Inr s' \<Longrightarrow> kstep K s s'"
| resume: "c < NCPU \<Longrightarrow> myproc c s = None \<Longrightarrow> sys_resume c ie lk s = Inr s' \<Longrightarrow> kstep K s s'"
| wakeup: "wakeup K c ch s = Inr s' \<Longrightarrow> kstep K s s'"
| kill: "kill n s = Inr (r, s') \<Longrightarrow> kstep K s s'"
| exit: "myproc c s = Some p \<Longrightarrow> initproc s \<noteq> Some p \<Longrightarrow> sys_exit K c status s = Inr s' \<Longrightarrow> kstep K s s'"
| wait: "myproc c s = Some p \<Longrightarrow> sys_wait c a s = Inr (rw, s') \<Longrightarrow> kstep K s s'"
| fork: "myproc c s = Some p \<Longrightarrow> allocproc K s = Inr (Some x, s1) \<Longrightarrow> inner f \<Longrightarrow>
    fork_publish K p x (set_proc x f (s1\<lparr>km := k\<rparr>)) = Inr s' \<Longrightarrow> kstep K s s'"
| userinit: "initproc s = None \<Longrightarrow> allocproc K s = Inr (Some x, s1) \<Longrightarrow> inner f \<Longrightarrow>
    userinit_publish x (set_proc x f (s1\<lparr>initproc := Some x, km := k\<rparr>)) = Inr s' \<Longrightarrow> kstep K s s'"
| user: "myproc c s = Some p \<Longrightarrow> inner f \<Longrightarrow> kstep K s (set_proc p f (s\<lparr>km := k\<rparr>))"

inductive kreach :: "kparams \<Rightarrow> 'a sstate_scheme \<Rightarrow> bool" for K :: kparams where
  boot: "boot s0 \<Longrightarrow> procinit s0 = Inr s \<Longrightarrow> kreach K s"
| step: "kreach K s \<Longrightarrow> kstep K s s' \<Longrightarrow> kreach K s'"

section \<open>Every transition returns and keeps the invariant\<close>

lemma kinvI: "rep s V Q R \<Longrightarrow> table_inv V Q R \<Longrightarrow> plocks_free V \<Longrightarrow> locks_free R \<Longrightarrow> kinv s"
  by (simp add: kinv_rep)

lemma kinv_wakeup:
  assumes "kinv s"
  shows "okres (stops (blncflg K)) (wakeup K c ch s) kinv"
proof -
  obtain V Q where r: "rep s V Q s" "table_inv V Q s" "plocks_free V" "locks_free s"
    using assms by (rule kinvE)
  have "quiet V Q s s" using r by (simp add: quiet_def)
  from wakeup_quiet [OF r(1) this, of K c ch] show ?thesis
  proof (rule okres_mono)
    fix s' assume "\<exists>V' Q' R'. rep s' V' Q' R' \<and> quiet V' Q' R' s \<and> waked V V'"
    then obtain V' Q' R' where *: "rep s' V' Q' R'" "quiet V' Q' R' s" by blast
    then show "kinv s'"
      using r(4) more_fields [of R' s] by (intro kinvI [OF *(1)]) (auto simp: quiet_def locks_free_def)
  qed simp
qed

lemma kinv_kill:
  assumes "kinv s"
  shows "okres {} (kill n s) (\<lambda>(r, s'). kinv s' \<and> (r = 0 \<or> r = -1))"
proof -
  obtain V Q where r: "rep s V Q s" "table_inv V Q s" "plocks_free V" "locks_free s"
    using assms by (rule kinvE)
  show ?thesis
    unfolding kill_def
  proof (rule okres_mono [OF kill_loop_rep [OF r(1-3)]])
    show "set [0..<NPROC] \<subseteq> {..<NPROC}" by auto
    fix x assume post: "case x of (res, s') \<Rightarrow> case find (\<lambda>i. pid (V i) = n) [0..<NPROC] of
        None \<Rightarrow> res = -1 \<and> rep s' V Q s
      | Some i \<Rightarrow> res = 0 \<and> rep s' (kill_view i V) (kill_queues i V Q) s"
    obtain res s' where x: "x = (res, s')" by (cases x)
    show "case x of (r, s') \<Rightarrow> kinv s' \<and> (r = 0 \<or> r = -1)"
    proof (cases "find (\<lambda>i. pid (V i) = n) [0..<NPROC]")
      case None
      with post x show ?thesis using r kinvI [of s' V Q s] by simp
    next
      case (Some i)
      then have i: "i < NPROC" by (auto simp: find_Some_iff)
      have "plocks_free (kill_view i V)" using r(3) by (simp add: plocks_free_def kill_view_def)
      with post x Some show ?thesis
        using kill_inv [OF r(1,2) i] r(4) kinvI [of s' "kill_view i V" "kill_queues i V Q" s] by simp
    qed
  qed simp
qed

lemma kinv_yield:
  assumes "kinv s" "myproc c s = Some p"
  shows "okres {} (sys_yield c s) kinv"
proof -
  obtain V Q where r: "rep s V Q s" "table_inv V Q s" "plocks_free V" "locks_free s"
    using assms(1) by (rule kinvE)
  have p: "cproc (cpus s c) = Some p" using assms(2) by (simp add: myproc_def)
  note run = table_inv_running [OF r(2) p]
  note ti = table_invD [OF r(2) run(2)]
  let ?n = "nat (cpu_num (V p))"
  show ?thesis
  proof (rule okres_mono [OF yield_rep [OF r p]])
    fix s' assume s': "rep s' (V(p := (V p)\<lparr>state := RUNNABLE\<rparr>)) (Q(RunnableL ?n := Q (RunnableL ?n) @ [p]))
      (set_hart c (cproc_update (\<lambda>_. None)) s)"
    have "on_lists (Q(RunnableL ?n := Q (RunnableL ?n) @ [p])) j = (if j = p then {RunnableL ?n} else on_lists Q j)" for j
      using on_lists_add [of "RunnableL ?n" Q p j] ti run(3) by simp
    then have "table_inv (V(p := (V p)\<lparr>state := RUNNABLE\<rparr>)) (Q(RunnableL ?n := Q (RunnableL ?n) @ [p]))
        (set_hart c (cproc_update (\<lambda>_. None)) s)"
      by (intro table_inv_leave [OF r(2) p]) (use ti in auto)
    then show "kinv s'"
      using r(3,4) by (intro kinvI [OF s']) (simp_all add: plocks_free_def locks_free_def set_hart_def)
  qed simp
qed

lemma table_inv_asleep:
  assumes t: "table_inv V Q R" and p: "cproc (cpus R c) = Some p"
  shows "table_inv (V(p := (V p)\<lparr>chan := ch, state := SLEEPING\<rparr>)) (Q(SleepingL := Q SleepingL @ [p]))
    (set_hart c (cproc_update (\<lambda>_. None)) R)"
proof -
  note run = table_inv_running [OF t p]
  note ti = table_invD [OF t run(2)]
  have "on_lists (Q(SleepingL := Q SleepingL @ [p])) j = (if j = p then {SleepingL} else on_lists Q j)" for j
    using on_lists_add [of SleepingL Q p j] ti run(3) by simp
  then show ?thesis by (intro table_inv_leave [OF t p]) (use ti in auto)
qed

lemma kinv_sleep:
  assumes "kinv s" "myproc c s = Some p"
  shows "okres {} (rbind (acquire_lk lk s) (sys_sleep c ch lk)) kinv"
proof -
  obtain V Q where r: "rep s V Q s" "table_inv V Q s" "plocks_free V" "locks_free s"
    using assms(1) by (rule kinvE)
  have p: "cproc (cpus s c) = Some p" using assms(2) by (simp add: myproc_def)
  have nl: "\<not> lk_held lk s" using r(4) by (cases lk) (simp_all add: locks_free_def lk_held_def)
  let ?R = "set_lk lk True s"
  show ?thesis
  proof (rule okres_bind [OF rep_acquire_lk [OF r(1) nl]])
    fix s1 assume r1: "rep s1 V Q ?R"
    show "okres {} (sys_sleep c ch lk s1) kinv"
    proof (rule okres_mono [OF sleep_rep [OF r1 _ r(3)]])
      show "table_inv V Q ?R" "lk_held lk ?R" "locks_free (set_lk lk False ?R)" "cproc (cpus ?R c) = Some p"
        using r p set_lk_back [OF nl] by simp_all
      fix s' assume "rep s' (V(p := (V p)\<lparr>chan := ch, state := SLEEPING\<rparr>)) (Q(SleepingL := Q SleepingL @ [p]))
        (set_hart c (cproc_update (\<lambda>_. None)) (set_lk lk False ?R))"
      then have s': "rep s' (V(p := (V p)\<lparr>chan := ch, state := SLEEPING\<rparr>)) (Q(SleepingL := Q SleepingL @ [p]))
        (set_hart c (cproc_update (\<lambda>_. None)) s)" by (simp only: set_lk_back [OF nl])
      show "kinv s'"
        using table_inv_asleep [OF r(2) p, of ch] r(3,4)
        by (intro kinvI [OF s']) (simp_all add: plocks_free_def locks_free_def set_hart_def)
    qed simp
  qed
qed

lemma fits_mem:
  assumes "fits st L" "l \<in> L"
  shows "L = {l}" "st = (case l of UnusedL \<Rightarrow> UNUSED | ZombieL \<Rightarrow> ZOMBIE | SleepingL \<Rightarrow> SLEEPING
    | RunnableL _ \<Rightarrow> RUNNABLE)"
  using assms by (cases st; auto)+

lemma table_inv_dispatch:
  assumes r: "rep s V Q R" and t: "table_inv V Q R" and c: "c < NCPU" "cproc (cpus R c) = None"
    and x: "Q (RunnableL c) = x # xs"
    and q: "state q = RUNNING" "index_in_proc q = index_in_proc (V x)" "cpu_num q = cpu_num (V x)"
      "pid q = pid (V x)" "parent q = parent (V x)"
  shows "table_inv (V(x := q)) (Q(RunnableL c := xs)) (set_hart c (cproc_update (\<lambda>_. Some x)) R)"
    "x < NPROC"
proof -
  show xN: "x < NPROC" using first_rep(3) [OF r, of "RunnableL c" x] c x by simp
  note ti = table_invD [OF t xN]
  have d: "distinct (Q (RunnableL c))" by (rule rep_distinct [OF r]) (use c in simp)
  have qq: "Q(RunnableL c := xs) = Q(RunnableL c := remove1 x (Q (RunnableL c)))" using x by simp
  have "RunnableL c \<in> on_lists Q x" using x c by (simp add: on_lists_def)
  from fits_mem [OF ti(4) this] have st: "state (V x) = RUNNABLE" "on_lists Q x = {RunnableL c}" by simp_all
  have on: "on_lists (Q(RunnableL c := xs)) j = (if j = x then {} else on_lists Q j)" for j
    unfolding qq using on_lists_remove [of Q "RunnableL c" x j] d st by simp
  have "placement (V(x := q)) (Q(RunnableL c := xs))"
    by (rule placement_upd [of V Q]) (use t ti on q in \<open>simp_all add: table_inv_def\<close>)
  moreover have "running (V(x := q)) ((cpus R)(c := (cpus R c)\<lparr>cproc := Some x\<rparr>))"
    by (rule running_enter) (use t q st c xN in \<open>simp_all add: table_inv_def\<close>)
  moreover have "pids (V(x := q)) (nextpid R)"
    by (rule pids_same) (use t q st in \<open>simp_all add: table_inv_def\<close>)
  moreover have "family (V(x := q)) (initproc R)"
    by (rule family_same) (use t q st in \<open>simp_all add: table_inv_def\<close>)
  ultimately show "table_inv (V(x := q)) (Q(RunnableL c := xs)) (set_hart c (cproc_update (\<lambda>_. Some x)) R)"
    by (simp add: table_inv_def set_hart_def)
qed

lemma kinv_dispatch:
  assumes "kinv s" "c < NCPU" "myproc c s = None"
  shows "okres {} (sys_dispatch c s) kinv"
proof -
  obtain V Q where r: "rep s V Q s" "table_inv V Q s" "plocks_free V" "locks_free s"
    using assms(1) by (rule kinvE)
  have c: "cproc (cpus s c) = None" using assms(3) by (simp add: myproc_def)
  show ?thesis
  proof (rule okres_mono [OF dispatch_rep [OF r(1-3) assms(2)]])
    fix s' assume post: "case Q (RunnableL c) of [] \<Rightarrow> s' = s
      | x # xs \<Rightarrow> rep s' (V(x := (V x)\<lparr>state := RUNNING\<rparr>)) (Q(RunnableL c := xs))
          (set_hart c (cproc_update (\<lambda>_. Some x)) s)"
    show "kinv s'"
    proof (cases "Q (RunnableL c)")
      case Nil
      with post assms(1) show ?thesis by simp
    next
      case (Cons x xs)
      have "table_inv (V(x := (V x)\<lparr>state := RUNNING\<rparr>)) (Q(RunnableL c := xs))
          (set_hart c (cproc_update (\<lambda>_. Some x)) s)"
        by (rule table_inv_dispatch(1) [OF r(1,2) assms(2) c Cons]) simp_all
      with post Cons r(3,4) show ?thesis
        by (simp add: kinv_rep plocks_free_def locks_free_def set_hart_def)
    qed
  qed simp
qed

lemma running_cong: "(\<And>d. cproc (C' d) = cproc (C d)) \<Longrightarrow> running V C' = running V C"
  by (simp only: running_def)

lemma table_inv_intena [simp]: "table_inv V Q (set_hart c (cintena_update f) R) = table_inv V Q R"
  using running_cong [of "(cpus R)(c := cintena_update f (cpus R c))" "cpus R" V]
  by (simp add: table_inv_def set_hart_def)

lemma kinv_resume:
  assumes "kinv s" "c < NCPU" "myproc c s = None"
  shows "okres {} (sys_resume c ie lk s) kinv"
proof -
  obtain V Q where r: "rep s V Q s" "table_inv V Q s" "plocks_free V" "locks_free s"
    using assms(1) by (rule kinvE)
  have c: "cproc (cpus s c) = None" using assms(3) by (simp add: myproc_def)
  show ?thesis
  proof (cases "Q (RunnableL c)")
    case Nil
    with pick_none [OF r(1) assms(2)] assms(1) show ?thesis by (simp add: sys_resume_def)
  next
    case (Cons x xs)
    let ?V1 = "V(x := (V x)\<lparr>plock := True, state := RUNNING\<rparr>)" and ?Q = "Q(RunnableL c := xs)"
    let ?R1 = "set_hart c (cproc_update (\<lambda>_. Some x)) s"
    let ?q = "(V x)\<lparr>state := RUNNING, chan := NoChan, plock := False\<rparr>"
    let ?R2 = "set_hart c (cintena_update (\<lambda>_. ie)) ?R1"
    have nl: "\<not> lk_held lk ?R2"
      using r(4) by (cases lk) (simp_all add: locks_free_def lk_held_def set_hart_def)
    have lx: "\<not> plock (V x)" using r(3) by (simp add: plocks_free_def)
    have t2: "table_inv (V(x := ?q)) ?Q ?R2" and xN: "x < NPROC"
    proof -
      have "table_inv (V(x := ?q)) ?Q ?R1"
        by (rule table_inv_dispatch(1) [OF r(1,2) assms(2) c Cons]) simp_all
      then show "table_inv (V(x := ?q)) ?Q ?R2" by simp
      show "x < NPROC"
        by (rule table_inv_dispatch(2) [OF r(1,2) assms(2) c Cons, of "?q"]) simp_all
    qed
    have "kinv s'" if "rep s' (V(x := ?q)) ?Q ?R2" for s'
      by (rule kinvI [OF that t2]) (use r(3,4) in \<open>simp_all add: plocks_free_def locks_free_def set_hart_def\<close>)
    moreover have "okres {} (rbind (sleep_in c x ie lk s1) (release_lk lk)) (\<lambda>s'. rep s' (V(x := ?q)) ?Q ?R2)"
      if r1: "rep s1 ?V1 ?Q ?R1" for s1
    proof -
      let ?s2 = "set_proc x (chan_update (\<lambda>_. NoChan)) (sched_in c ie s1)"
      have r2: "rep ?s2 (V(x := (V x)\<lparr>plock := True, state := RUNNING, chan := NoChan\<rparr>)) ?Q ?R2"
        using rep_set [OF rep_set_hart [OF r1, of c "cintena_update (\<lambda>_. ie)"] safe_updates(3), of x "\<lambda>_. NoChan"]
        by (simp add: sched_in_def)
      have "okres {} (release_proc x ?s2) (\<lambda>s'. rep s' (V(x := ?q)) ?Q ?R2)"
        using rep_release [OF r2, of x "{}"] by simp
      moreover have "okres {} (rbind (acquire_lk lk s3) (release_lk lk)) (\<lambda>s'. rep s' (V(x := ?q)) ?Q ?R2)"
        if "rep s3 (V(x := ?q)) ?Q ?R2" for s3
      proof (rule okres_bind [OF rep_acquire_lk [OF that nl]])
        fix s4 assume r4: "rep s4 (V(x := ?q)) ?Q (set_lk lk True ?R2)"
        show "okres {} (release_lk lk s4) (\<lambda>s'. rep s' (V(x := ?q)) ?Q ?R2)"
          using rep_release_lk [OF r4, of lk "{}"] set_lk_back [OF nl] by simp
      qed
      ultimately have "okres {} (rbind (release_proc x ?s2) (\<lambda>s3. rbind (acquire_lk lk s3) (release_lk lk)))
          (\<lambda>s'. rep s' (V(x := ?q)) ?Q ?R2)"
        by (rule okres_bind)
      then show ?thesis by (simp add: sleep_in_def Let_def rbind_assoc)
    qed
    ultimately have fin: "okres {} (rbind (sleep_in c x ie lk s1) (release_lk lk)) kinv"
      if "rep s1 ?V1 ?Q ?R1" for s1
      using okres_mono that by blast
    show ?thesis
      unfolding sys_resume_def
    proof (rule okres_bind [OF pick_some [OF r(1) assms(2) Cons lx table_invD(1) [OF r(2) xN]]])
      fix y assume "case y of (res, s') \<Rightarrow> res = Some x \<and> rep s' ?V1 ?Q ?R1"
      then show "okres {} (case y of (r, s) \<Rightarrow> case r of None \<Rightarrow> Inr s
          | Some p \<Rightarrow> rbind (sleep_in c p ie lk s) (release_lk lk)) kinv"
        using fin by (cases y) auto
    qed
  qed
qed

lemma kinv_exit:
  assumes "kinv s" "myproc c s = Some p" "initproc s \<noteq> Some p"
  shows "okres (stops (blncflg K)) (sys_exit K c status s)
    (\<lambda>s'. kinv s' \<and> state (procs s' p) = ZOMBIE \<and> xstate (procs s' p) = status \<and>
      (\<forall>i < NPROC. parent (procs s' i) \<noteq> Some p) \<and> myproc c s' = None)"
proof -
  obtain V Q where r: "rep s V Q s" "table_inv V Q s" "plocks_free V" "locks_free s"
    using assms(1) by (rule kinvE)
  have p: "cproc (cpus s c) = Some p" using assms(2) by (simp add: myproc_def)
  show ?thesis
  proof (rule okres_mono [OF exit_rep [OF r p assms(3)]])
    fix s' assume "\<exists>V' Q' R'. rep s' V' Q' R' \<and> table_inv V' Q' R' \<and> plocks_free V' \<and> locks_free R' \<and>
      state (V' p) = ZOMBIE \<and> xstate (V' p) = status \<and> (\<forall>i < NPROC. parent (V' i) \<noteq> Some p) \<and>
      cproc (cpus R' c) = None"
    then obtain V' Q' R' where *: "rep s' V' Q' R'" "table_inv V' Q' R'" "plocks_free V'" "locks_free R'"
      "state (V' p) = ZOMBIE" "xstate (V' p) = status" "\<forall>i < NPROC. parent (V' i) \<noteq> Some p"
      "cproc (cpus R' c) = None" by blast
    then show "kinv s' \<and> state (procs s' p) = ZOMBIE \<and> xstate (procs s' p) = status \<and>
        (\<forall>i < NPROC. parent (procs s' i) \<noteq> Some p) \<and> myproc c s' = None"
      using kinvI [OF *(1-4)] rep_sel(3,6,10) [OF *(1)] repD(4) [OF *(1)] by (simp add: myproc_def)
  qed simp
qed

lemma kinv_reaped:
  assumes r: "rep s V Q R" "table_inv V Q R" "plocks_free V" "locks_free R"
    and s': "rep s' V' Q' (R\<lparr>km := k\<rparr>)" "reaped p V Q n V' Q'"
  shows "kinv s'"
proof -
  have l: "locks_free (R\<lparr>km := k\<rparr>)" using r(4) by (simp add: locks_free_def)
  consider "V' = V" "Q' = Q" | i where "i < NPROC" "state (V i) = ZOMBIE" "V' = V(i := freed (V i))"
      "Q' = free_queues i Q"
    using s'(2) unfolding reaped_def by blast
  then show ?thesis
  proof cases
    case 1
    with r l s'(1) show ?thesis by (intro kinvI [OF s'(1)]) simp_all
  next
    case 2
    have "plocks_free V'" using r(3) 2(3) by (simp add: plocks_free_def freed_def)
    with 2 l table_inv_freed [OF r(1,2) 2(1,2)] show ?thesis by (intro kinvI [OF s'(1)]) simp_all
  qed
qed

lemma kinv_wait:
  assumes "kinv s" "myproc c s = Some p"
  shows "okres UNIV (sys_wait c a s) (\<lambda>(rw, s'). kinv s')"
proof -
  obtain V Q where r: "rep s V Q s" "table_inv V Q s" "plocks_free V" "locks_free s"
    using assms(1) by (rule kinvE)
  have p: "cproc (cpus s c) = Some p" using assms(2) by (simp add: myproc_def)
  show ?thesis
  proof (rule okres_mono [OF wait_rep [OF r p]])
    fix x assume post: "waited c p V Q s x"
    obtain rw s' where x: "x = (rw, s')" by (cases x)
    show "case x of (rw, s') \<Rightarrow> kinv s'"
    proof (cases rw)
      case None
      let ?V = "V(p := (V p)\<lparr>chan := ProcChan p, state := SLEEPING\<rparr>)"
      have s': "rep s' ?V (Q(SleepingL := Q SleepingL @ [p])) (set_hart c (cproc_update (\<lambda>_. None)) s)"
        using post x None by (simp add: waited_def)
      have "kinv s'"
        using table_inv_asleep [OF r(2) p, of "ProcChan p"] r(3,4)
        by (intro kinvI [OF s']) (simp_all add: plocks_free_def locks_free_def set_hart_def)
      then show ?thesis by (simp add: x)
    next
      case (Some n)
      then obtain V' Q' k where "rep s' V' Q' (s\<lparr>km := k\<rparr>)" "reaped p V Q n V' Q'"
        using post x by (auto simp: waited_def)
      then show ?thesis using kinv_reaped [OF r] x by simp
    qed
  qed simp
qed

lemma allocproc_unborn:
  assumes "kinv s" "allocproc K s = Inr (Some x, s1)" "inner f"
  obtains V Q xs q k' where "rep s V Q s" "table_inv V Q s" "plocks_free V" "locks_free s"
    "Q UnusedL = x # xs" "newborn V x (nextpid s) q"
    "rep (set_proc x f (s1\<lparr>km := k\<rparr>)) (V(x := q)) (Q(UnusedL := xs)) (s\<lparr>nextpid := nextpid s + 1, km := k'\<rparr>)"
proof -
  obtain V Q where r: "rep s V Q s" "table_inv V Q s" "plocks_free V" "locks_free s"
    using assms(1) by (rule kinvE)
  have "\<not> pid_lock s" using r(4) by (simp add: locks_free_def)
  from okres_InrD [OF allocproc_rep [OF r(1-3) this, of K] assms(2)]
  have "unborn V Q s x s1" by (simp add: allocated_def born_unborn)
  then have "unborn V Q s x (set_proc x f (s1\<lparr>km := k\<rparr>))"
    by (intro unborn_inner unborn_km assms(3))
  with that r show ?thesis unfolding unborn_def by blast
qed

lemma newborn_plock: "plocks_free V \<Longrightarrow> newborn V x n q \<Longrightarrow> plock ((V(x := q)) i) \<longleftrightarrow> i = x"
  by (simp add: plocks_free_def newborn_def)

lemma kinv_fork:
  assumes "kinv s" "myproc c s = Some p" "allocproc K s = Inr (Some x, s1)" "inner f"
  shows "okres (stops (blncflg K)) (fork_publish K p x (set_proc x f (s1\<lparr>km := k\<rparr>))) kinv"
proof -
  obtain V Q xs q k' where r: "rep s V Q s" "table_inv V Q s" "plocks_free V" "locks_free s"
      "Q UnusedL = x # xs" "newborn V x (nextpid s) q"
      "rep (set_proc x f (s1\<lparr>km := k\<rparr>)) (V(x := q)) (Q(UnusedL := xs)) (s\<lparr>nextpid := nextpid s + 1, km := k'\<rparr>)"
    using assms(1,3,4) by (rule allocproc_unborn)
  let ?R = "s\<lparr>nextpid := nextpid s + 1, km := k'\<rparr>"
  note nb = table_inv_newborn [OF r(1,2,5,6)]
  have p: "cproc (cpus s c) = Some p" using assms(2) by (simp add: myproc_def)
  note run = table_inv_running(2,3) [OF r(2) p]
  have px: "p \<noteq> x" using run nb(4) by auto
  have ap: "alive (state ((V(x := q)) p))" using run px by simp
  have st: "state ((V(x := q)) x) = USED" using r(6) by (simp add: newborn_def)
  have lf: "locks_free ?R" using r(4) by (simp add: locks_free_def)
  show ?thesis
  proof (rule okres_mono [OF fork_publish_rep [OF r(7) nb(1) newborn_plock [OF r(3,6)] lf nb(2,3) st run(1) ap px]])
    fix s' assume "\<exists>n m R'. n < NCPU \<and> ptable.more R' = ptable.more ?R \<and>
      rep s' ((V(x := q))(x := ((V(x := q)) x)\<lparr>parent := Some p, state := RUNNABLE, cpu_num := m, plock := False\<rparr>))
        ((Q(UnusedL := xs))(RunnableL n := (Q(UnusedL := xs)) (RunnableL n) @ [x])) R' \<and> 0 \<le> m \<and> m < int NCPU"
    then obtain n m R' where n: "n < NCPU" "0 \<le> m" "m < int NCPU" "ptable.more R' = ptable.more ?R"
      and s': "rep s' ((V(x := q))(x := ((V(x := q)) x)\<lparr>parent := Some p, state := RUNNABLE, cpu_num := m, plock := False\<rparr>))
        ((Q(UnusedL := xs))(RunnableL n := (Q(UnusedL := xs)) (RunnableL n) @ [x])) R'" by blast
    note mf = more_fields [OF n(4)]
    have "table_inv ((V(x := q))(x := ((V(x := q)) x)\<lparr>parent := Some p, state := RUNNABLE, cpu_num := m, plock := False\<rparr>))
        ((Q(UnusedL := xs))(RunnableL n := (Q(UnusedL := xs)) (RunnableL n) @ [x])) ?R"
      by (rule table_inv_publish [OF nb(1-3) st]) (use run ap n in auto)
    then show "kinv s'"
      using r(3) lf mf by (intro kinvI [OF s']) (simp_all add: table_inv_def plocks_free_def locks_free_def)
  qed simp
qed

lemma rep_initproc:
  assumes "rep s V Q R"
  shows "rep (s\<lparr>initproc := i\<rparr>) V Q (R\<lparr>initproc := i\<rparr>)"
proof -
  have "nxt_of (s\<lparr>initproc := i\<rparr>) = nxt_of s" "slocks_free (s\<lparr>initproc := i\<rparr>) = slocks_free s"
    by (auto simp: nxt_of_def slocks_free_def)
  moreover have "ptable.more (s\<lparr>initproc := i\<rparr>) = ptable.more (R\<lparr>initproc := i\<rparr>)"
    using assms by (cases s; cases R) (simp add: rep_def)
  ultimately show ?thesis
    using assms plists_ok_cong [of "s\<lparr>initproc := i\<rparr>" s] contents_cong [of "s\<lparr>initproc := i\<rparr>" s]
    by (simp add: rep_def view_def fun_eq_iff)
qed

lemma table_inv_initproc:
  assumes "table_inv V Q R" "x < NPROC" "alive (state (V x))"
  shows "table_inv V Q (R\<lparr>initproc := Some x\<rparr>)"
proof -
  have f: "family V (initproc R)" using assms(1) by (simp add: table_inv_def)
  have "family V (Some x)"
    by (rule familyI) (use assms familyD [OF f] in auto)
  with assms(1) show ?thesis by (simp add: table_inv_def)
qed

lemma kinv_userinit:
  assumes "kinv s" "allocproc K s = Inr (Some x, s1)" "inner f"
  shows "okres {} (userinit_publish x (set_proc x f (s1\<lparr>initproc := Some x, km := k\<rparr>))) kinv"
proof -
  obtain V Q xs q k' where r: "rep s V Q s" "table_inv V Q s" "plocks_free V" "locks_free s"
      "Q UnusedL = x # xs" "newborn V x (nextpid s) q"
      "rep (set_proc x f (s1\<lparr>km := k\<rparr>)) (V(x := q)) (Q(UnusedL := xs)) (s\<lparr>nextpid := nextpid s + 1, km := k'\<rparr>)"
    using assms by (rule allocproc_unborn)
  note nb = table_inv_newborn(1) [OF r(1,2,5,6), of k'] table_inv_newborn(2-4) [OF r(1,2,5,6)]
  let ?s2 = "set_proc x f (s1\<lparr>initproc := Some x, km := k\<rparr>)" and ?Q = "Q(UnusedL := xs)"
  let ?R = "s\<lparr>nextpid := nextpid s + 1, km := k'\<rparr>\<lparr>initproc := Some x\<rparr>"
  let ?q1 = "q\<lparr>state := RUNNABLE\<rparr>" and ?Q1 = "?Q(RunnableL 0 := ?Q (RunnableL 0) @ [x])"
  have nq: "plock q" "state q = USED" "index_in_proc q = int x" "parent q = None"
      "0 \<le> cpu_num q" "cpu_num q < int NCPU"
    using r(6) table_invD [OF r(2) nb(2)] familyD(3) [of V "initproc s" x] nb(2,4) r(2)
    by (simp_all add: newborn_def table_inv_def)
  have s2: "?s2 = (set_proc x f (s1\<lparr>km := k\<rparr>))\<lparr>initproc := Some x\<rparr>"
    by (simp add: set_proc_def)
  have r2: "rep ?s2 (V(x := q)) ?Q ?R" unfolding s2 by (rule rep_initproc [OF r(7)])
  have r3: "rep (set_proc x (state_update (\<lambda>_. RUNNABLE)) ?s2) (V(x := ?q1)) ?Q ?R"
    using rep_set [OF r2 safe_updates(2), of x "\<lambda>_. RUNNABLE"] by simp
  have t: "table_inv (V(x := q)) ?Q ?R"
    by (rule table_inv_initproc [OF nb(1,2)]) (simp add: nq)
  have pub: "table_inv ((V(x := q))(x := ((V(x := q)) x)\<lparr>parent := None, state := RUNNABLE, cpu_num := cpu_num q,
      plock := False\<rparr>)) ?Q1 ?R"
    by (rule table_inv_publish [OF t nb(2,3)]) (use nq in \<open>auto simp: NCPU_def\<close>)
  have qq: "q\<lparr>parent := None, state := RUNNABLE, plock := False\<rparr> =
      q\<lparr>state := RUNNABLE, plock := False\<rparr>" using nq(4) by (cases q) simp
  have tq: "table_inv (V(x := q\<lparr>state := RUNNABLE, plock := False\<rparr>)) ?Q1 ?R"
    using pub by (simp add: qq)
  show ?thesis
    unfolding userinit_publish_def Let_def
  proof (rule okres_bind [OF rep_add_on [OF r3 _ nb(2,3)]])
    show "RunnableL 0 \<in> all_lists" "index_in_proc ((V(x := ?q1)) x) = int x"
      using nq by (simp_all add: NCPU_def)
    fix s4 assume r4: "rep s4 (V(x := ?q1)) ?Q1 ?R"
    have "okres {} (release_proc x s4) (\<lambda>s'. rep s' (V(x := q\<lparr>state := RUNNABLE, plock := False\<rparr>)) ?Q1 ?R)"
      using rep_release [OF r4, of x "{}"] nq by simp
    then show "okres {} (release_proc x s4) kinv"
    proof (rule okres_mono)
      fix s' assume s': "rep s' (V(x := q\<lparr>state := RUNNABLE, plock := False\<rparr>)) ?Q1 ?R"
      show "kinv s'"
        by (rule kinvI [OF s' tq]) (use r(3,4) in \<open>simp_all add: plocks_free_def locks_free_def\<close>)
    qed simp
  qed
qed

lemma kinv_user:
  assumes "kinv s" "myproc c s = Some p" "inner f"
  shows "kinv (set_proc p f (s\<lparr>km := k\<rparr>))"
proof -
  obtain V Q where r: "rep s V Q s" "table_inv V Q s" "plocks_free V" "locks_free s"
    using assms(1) by (rule kinvE)
  have p: "cproc (cpus s c) = Some p" using assms(2) by (simp add: myproc_def)
  note run = table_inv_running(2,3) [OF r(2) p]
  note ti = table_invD [OF r(2) run(1)]
  have f: "safe f" "plock (f (V p)) = plock (V p)" "state (f (V p)) = state (V p)" "pid (f (V p)) = pid (V p)"
      "parent (f (V p)) = parent (V p)" "cpu_num (f (V p)) = cpu_num (V p)"
      "index_in_proc (f (V p)) = index_in_proc (V p)"
    using assms(3) by (simp_all add: inner_def)
  have r1: "rep (set_proc p f (s\<lparr>km := k\<rparr>)) (V(p := f (V p))) Q (s\<lparr>km := k\<rparr>)"
    by (rule rep_set [OF rep_km [OF r(1)] f(1)])
  have "placement (V(p := f (V p))) Q"
    by (rule placement_upd [of V Q]) (use r(2) ti f in \<open>simp_all add: table_inv_def\<close>)
  moreover have "running (V(p := f (V p))) (cpus s)"
    by (rule running_same) (use r(2) f in \<open>simp_all add: table_inv_def\<close>)
  moreover have "pids (V(p := f (V p))) (nextpid s)"
    by (rule pids_same) (use r(2) f in \<open>simp_all add: table_inv_def\<close>)
  moreover have "family (V(p := f (V p))) (initproc s)"
    by (rule family_same) (use r(2) f in \<open>simp_all add: table_inv_def\<close>)
  ultimately show ?thesis
    using r(3,4) f by (intro kinvI [OF r1]) (simp_all add: table_inv_def plocks_free_def locks_free_def)
qed

lemma kstep_kinv:
  assumes "kinv s" "kstep K s s'"
  shows "kinv s'"
  using assms(2,1)
proof (induction rule: kstep.induct)
  case (sleep c s p lk s1 ch s')
  from okres_InrD [OF kinv_sleep [OF sleep.prems sleep.hyps(1), of lk ch]] sleep.hyps(2,3) show ?case by simp
next
  case (kill n s r s')
  from okres_InrD [OF kinv_kill [OF kill.prems] kill.hyps] show ?case by simp
next
  case (exit c s p status s')
  from okres_InrD [OF kinv_exit [OF exit.prems exit.hyps(1,2)] exit.hyps(3)] show ?case by simp
next
  case (wait c s p a rw s')
  from okres_InrD [OF kinv_wait [OF wait.prems wait.hyps(1)] wait.hyps(2)] show ?case by simp
qed (blast intro: okres_InrD kinv_yield kinv_dispatch kinv_resume kinv_wakeup kinv_fork kinv_userinit kinv_user)+

lemma kreach_kinv: "kreach K s \<Longrightarrow> kinv s"
proof (induction rule: kreach.induct)
  case (boot s0 s)
  from okres_InrD [OF procinit_kinv [OF boot.hyps(1)] boot.hyps(2)] show ?case by simp
next
  case (step s s')
  then show ?case by (blast intro: kstep_kinv)
qed

section \<open>A running process\<close>

text \<open>The kernel as the loader leaves it, with memory from \<open>KERNBASE\<close> on.\<close>

definition boot_state :: sstate where
  "boot_state = \<lparr>procs = (\<lambda>_. bss_proc), lists = (\<lambda>_. \<lparr>llock = False, first = 0\<rparr>), procCount = (\<lambda>_. 0),
     cpus = (\<lambda>_. \<lparr>cproc = None, cintena = False\<rparr>), initproc = None, nextpid = 1, pid_lock = False,
     wait_lock = False, other_lock = False, km = bss_kmem\<rparr>"

definition sample_params :: kparams where
  "sample_params = \<lparr>trampoline = 0x80007000, forkret_addr = 0x80001000, blncflg = False\<rparr>"

lemma sample_blncflg [simp]: "\<not> blncflg sample_params"
  by (simp add: sample_params_def)

lemma boot_boot_state: "boot boot_state"
  by (simp add: boot_def boot_state_def bss_proc_def)

lemma okres_total: "okres {} r P \<Longrightarrow> \<exists>x. r = Inr x \<and> P x"
  by (cases r) simp_all

lemma booted: "\<exists>s. procinit boot_state = Inr s \<and> kinv s \<and> contents s UnusedL = [0..<NPROC] \<and>
    kreach K s \<and> (\<forall>c. myproc c s = None)"
proof -
  obtain s where s: "procinit boot_state = Inr s" "kinv s" "contents s UnusedL = [0..<NPROC]"
    using okres_total [OF procinit_kinv [OF boot_boot_state]] by blast
  moreover have "myproc c s = None" for c
    using repD(4) [OF okres_InrD [OF procinit_rep [OF boot_boot_state] s(1)]]
    by (simp add: myproc_def boot_state_def)
  ultimately show ?thesis using kreach.boot [OF boot_boot_state] by blast
qed

text \<open>From there to a state where slot 0 holds the only process, running on hart 0.\<close>

lemma one_runnable:
  "\<exists>s :: sstate. kinv s \<and> contents s (RunnableL 0) = [0] \<and> (\<forall>c. myproc c s = None) \<and>
     (\<forall>i < NPROC. parent (procs s i) = None) \<and> initproc s = None \<and> contents s UnusedL = [1..<NPROC]"
proof -
  obtain s where s: "procinit boot_state = Inr s" "kinv s" "contents s UnusedL = [0..<NPROC]"
      "\<forall>c. myproc c s = None"
    using booted by blast
  let ?V = "init_view NPROC (view boot_state)"
  have r0: "rep s ?V (init_queues NPROC) (boot_state\<lparr>procCount := procCount (initlists boot_state),
      pid_lock := False, wait_lock := False\<rparr>)"
    using okres_InrD [OF procinit_rep [OF boot_boot_state] s(1)] .
  have r: "rep s ?V (init_queues NPROC) s"
    using r0 by (simp add: rep_def)
  have t: "table_inv ?V (init_queues NPROC) s" "plocks_free ?V" "locks_free s"
    using kinv_rep [OF r] s(2) by simp_all
  have un: "init_queues NPROC UnusedL = 0 # [1..<NPROC]"
    by (simp add: init_queues_def NPROC_def upt_rec)
  let ?q = "(?V 0)\<lparr>plock := True, pid := nextpid s, state := USED\<rparr>"
  let ?V1 = "?V(0 := ?q)" and ?Q1 = "(init_queues NPROC)(UnusedL := [1..<NPROC])"
  let ?R1 = "s\<lparr>nextpid := nextpid s + 1, km := km s\<rparr>"
  note nb = table_inv_newborn(1) [OF r t(1) un, of ?q "km s"] table_inv_newborn(2-4) [OF r t(1) un, of ?q]
  have nq: "newborn ?V 0 (nextpid s) ?q" by (simp add: newborn_def)
  let ?V2 = "?V1(0 := (?V1 0)\<lparr>parent := None, state := RUNNABLE, cpu_num := 0, plock := False\<rparr>)"
  let ?Q2 = "?Q1(RunnableL 0 := ?Q1 (RunnableL 0) @ [0])"
  have t2: "table_inv ?V2 ?Q2 ?R1"
    by (rule table_inv_publish [OF nb(1-3) [OF nq]]) (auto simp: NCPU_def)
  let ?f = "\<lambda>q. q\<lparr>pid := 1, parent := None, state := RUNNABLE, cpu_num := 0\<rparr>"
  have sf: "safe ?f" by (simp add: safe_def core_def)
  obtain s1 where s1: "remove_proc_from_list UnusedL (int 0) s = Inr s1"
      "rep s1 ?V ((init_queues NPROC)(UnusedL := remove1 0 (init_queues NPROC UnusedL))) s"
    using okres_total [OF rep_remove [OF r, of UnusedL 0 "{}"]] un by auto
  have r1: "rep (set_proc 0 ?f s1) (?V(0 := ?f (?V 0))) ?Q1 s"
    using rep_set [OF s1(2) sf, of 0] un by simp
  have "\<forall>m \<in> all_lists. 0 \<notin> set (?Q1 m)" by (simp add: init_queues_def)
  then obtain s2 where s2: "rep s2 (?V(0 := ?f (?V 0))) ?Q2 s"
    using okres_total [OF rep_add [OF r1, of "RunnableL 0" 0 "{}"]] by (auto simp: NCPU_def NPROC_def)
  have np: "nextpid s = 1" using repD(6) [OF r0] by (simp add: boot_state_def)
  have v: "?V(0 := ?f (?V 0)) = ?V2"
    using t(2) by (simp add: np plocks_free_def)
  have r3: "rep (s2\<lparr>nextpid := 2, pid_lock := pid_lock s\<rparr>) ?V2 ?Q2 (s\<lparr>nextpid := 2, pid_lock := pid_lock s\<rparr>)"
    using rep_pid [OF s2, where n = 2 and b = "pid_lock s"] unfolding v .
  let ?s = "s2\<lparr>nextpid := 2, pid_lock := pid_lock s\<rparr>"
  have "kinv ?s"
    using t2 t(2,3) by (intro kinvI [OF r3]) (simp_all add: table_inv_def np plocks_free_def locks_free_def)
  moreover have "contents ?s (RunnableL 0) = [0]"
    using repD(3) [OF r3, of "RunnableL 0"] by (simp add: NCPU_def init_queues_def)
  moreover have "contents ?s UnusedL = [1..<NPROC]"
    using repD(3) [OF r3, of UnusedL] by simp
  moreover have "\<forall>c. myproc c ?s = None" "initproc ?s = None"
    using repD(4,5) [OF r3] repD(4,5) [OF r0] by (simp_all add: myproc_def boot_state_def)
  moreover have "parent (procs ?s i) = None" if "i < NPROC" for i
    using rep_sel(10) [OF r3, of i]
    by (simp add: init_view_def init_entry_def view_def boot_state_def bss_proc_def)
  ultimately show ?thesis by blast
qed

lemma one_running:
  "\<exists>s :: sstate. kinv s \<and> myproc 0 s = Some 0 \<and> initproc s = None \<and> (\<forall>i < NPROC. parent (procs s i) = None) \<and>
     1 \<in> set (contents s UnusedL)"
proof -
  obtain s :: sstate where s: "kinv s" "contents s (RunnableL 0) = [0]" "\<forall>c. myproc c s = None"
      "\<forall>i < NPROC. parent (procs s i) = None" "initproc s = None" "contents s UnusedL = [1..<NPROC]"
    using one_runnable by blast
  obtain V Q where r: "rep s V Q s" "table_inv V Q s" "plocks_free V" "locks_free s"
    using s(1) by (rule kinvE)
  have q: "Q (RunnableL 0) = [0]" using repD(3) [OF r(1), of "RunnableL 0"] s(2) by (simp add: NCPU_def)
  have c: "0 < NCPU" by (simp add: NCPU_def)
  obtain s' where s': "sys_dispatch 0 s = Inr s'" "rep s' (V(0 := (V 0)\<lparr>state := RUNNING\<rparr>))
      (Q(RunnableL 0 := [])) (set_hart 0 (cproc_update (\<lambda>_. Some 0)) s)"
    using okres_total [OF dispatch_rep [OF r(1-3) c]] q by auto
  have "kinv s'" using okres_InrD [OF kinv_dispatch [OF s(1) c] s'(1)] s(3) by simp
  moreover have "contents s' UnusedL = [1..<NPROC]"
    using repD(3) [OF s'(2), of UnusedL] repD(3) [OF r(1), of UnusedL] s(6) by simp
  then have "1 \<in> set (contents s' UnusedL)" by (simp add: NPROC_def)
  moreover have "myproc 0 s' = Some 0" "initproc s' = None"
    using repD(4,5) [OF s'(2)] s(5) by (simp_all add: myproc_def set_hart_def)
  moreover have "parent (procs s' i) = None" if "i < NPROC" for i
    using rep_sel(10) [OF s'(2), of i] rep_sel(10) [OF r(1)] s(4) that by (cases "i = 0") simp_all
  ultimately show ?thesis by blast
qed

section \<open>Properties\<close>

lemma kinv_where:
  assumes "kinv s" "i < NPROC"
  shows "l \<in> all_lists \<Longrightarrow> i \<in> set (contents s l) \<Longrightarrow>
      state (procs s i) = (case l of UnusedL \<Rightarrow> UNUSED | ZombieL \<Rightarrow> ZOMBIE | SleepingL \<Rightarrow> SLEEPING
        | RunnableL _ \<Rightarrow> RUNNABLE)"
    "fits (state (procs s i)) (on_lists (contents s) i)"
proof -
  show f: "fits (state (procs s i)) (on_lists (contents s) i)"
    using assms table_invD(4) [of "view s" "contents s" s i] by (simp add: kinv_def view_def)
  show "l \<in> all_lists \<Longrightarrow> i \<in> set (contents s l) \<Longrightarrow>
      state (procs s i) = (case l of UnusedL \<Rightarrow> UNUSED | ZombieL \<Rightarrow> ZOMBIE | SleepingL \<Rightarrow> SLEEPING
        | RunnableL _ \<Rightarrow> RUNNABLE)"
    using fits_mem(2) [OF f, of l] by (simp add: on_lists_def)
qed

lemma kinv_on:
  assumes "kinv s" "i < NPROC"
  shows "i \<in> set (contents s UnusedL) \<longleftrightarrow> state (procs s i) = UNUSED"
    "i \<in> set (contents s ZombieL) \<longleftrightarrow> state (procs s i) = ZOMBIE"
    "i \<in> set (contents s SleepingL) \<longleftrightarrow> state (procs s i) = SLEEPING"
    "(\<exists>c < NCPU. i \<in> set (contents s (RunnableL c))) \<longleftrightarrow> state (procs s i) = RUNNABLE"
proof -
  note w = kinv_where(1) [OF assms] and f = kinv_where(2) [OF assms]
  show "i \<in> set (contents s UnusedL) \<longleftrightarrow> state (procs s i) = UNUSED"
    using w [of UnusedL] f on_lists_mem [of "contents s" i UnusedL] by auto
  show "i \<in> set (contents s ZombieL) \<longleftrightarrow> state (procs s i) = ZOMBIE"
    using w [of ZombieL] f on_lists_mem [of "contents s" i ZombieL] by auto
  show "i \<in> set (contents s SleepingL) \<longleftrightarrow> state (procs s i) = SLEEPING"
    using w [of SleepingL] f on_lists_mem [of "contents s" i SleepingL] by auto
  show "(\<exists>c < NCPU. i \<in> set (contents s (RunnableL c))) \<longleftrightarrow> state (procs s i) = RUNNABLE"
  proof
    assume "\<exists>c < NCPU. i \<in> set (contents s (RunnableL c))"
    then show "state (procs s i) = RUNNABLE" using w [of "RunnableL _"] by auto
  next
    assume "state (procs s i) = RUNNABLE"
    then obtain c where "c < NCPU" "on_lists (contents s) i = {RunnableL c}" using f by auto
    with on_lists_mem show "\<exists>c < NCPU. i \<in> set (contents s (RunnableL c))" by blast
  qed
qed

lemma kinv_running: 
  assumes "kinv s" "i < NPROC"
  shows "state (procs s i) = RUNNING \<longleftrightarrow> (\<exists>!c. myproc c s = Some i)"
proof -
  have r: "running (view s) (cpus s)" using assms(1) by (simp add: kinv_def table_inv_def)
  have "state (procs s i) = RUNNING \<longleftrightarrow> (\<exists>c. myproc c s = Some i)"
    using runningD(1) [OF r, of _ i] runningD(3) [OF r assms(2)] by (auto simp: myproc_def view_def)
  then show ?thesis using runningD(2) [OF r, of _ i] by (auto simp: myproc_def)
qed

text \<open>
  C2: The process table and the lists agree in every reachable state of the kernel,
  under any interleaving of system calls, wakeups and scheduling on all CPUs. Every process is
  on exactly the list of its state: an unused one on \<open>unusedList\<close>, a zombie on \<open>zombieList\<close>, a
  sleeping one on \<open>sleepingList\<close>, a runnable one on the queue of a CPU, and a running one on no
  list but on exactly one CPU. Two processes in use never have the same pid, and no lock is
  left held.
\<close>
theorem kernel_invariant:
  assumes "kreach K s" "i < NPROC"
  shows "(i \<in> set (contents s UnusedL) \<longleftrightarrow> state (procs s i) = UNUSED) \<and>
    (i \<in> set (contents s ZombieL) \<longleftrightarrow> state (procs s i) = ZOMBIE) \<and>
    (i \<in> set (contents s SleepingL) \<longleftrightarrow> state (procs s i) = SLEEPING) \<and>
    ((\<exists>c < NCPU. i \<in> set (contents s (RunnableL c))) \<longleftrightarrow> state (procs s i) = RUNNABLE) \<and>
    (state (procs s i) = RUNNING \<longleftrightarrow> (\<exists>!c. myproc c s = Some i)) \<and>
    (\<forall>j < NPROC. state (procs s i) \<noteq> UNUSED \<longrightarrow> pid (procs s i) = pid (procs s j) \<longrightarrow> i = j) \<and>
    plists_ok s \<and> \<not> plock (procs s i) \<and> \<not> pid_lock s \<and> \<not> wait_lock s"
proof -
  have k: "kinv s" using assms(1) by (rule kreach_kinv)
  then have "pids (view s) (nextpid s)" "plists_ok s" "\<not> plock (procs s i)" "\<not> pid_lock s" "\<not> wait_lock s"
    by (simp_all add: kinv_def table_inv_def plocks_free_def locks_free_def view_def)
  moreover have "i = j" if "j < NPROC" "state (procs s i) \<noteq> UNUSED" "pid (procs s i) = pid (procs s j)" for j
    using pidsD(4) [OF calculation(1) assms(2), of j] that by (simp add: view_def)
  ultimately show ?thesis using kinv_on [OF k assms(2)] kinv_running [OF k assms(2)] by blast
qed

theorem kernel_invariant_witness:
  "\<exists>s :: sstate. kreach sample_params s \<and> 5 \<in> set (contents s UnusedL) \<and> state (procs s 5) = UNUSED"
proof -
  obtain s :: sstate where s: "kreach sample_params s" "contents s UnusedL = [0..<NPROC]"
    using booted by blast
  with kernel_invariant [OF s(1), of 5] show ?thesis by (auto simp: NPROC_def)
qed

text \<open>
  C3: Without BLNCFLG no operation of the scheduler stops in a reachable state: \<open>yield\<close>
  and \<open>sleep\<close> pass the four checks of \<open>sched\<close> and reach the scheduler, the scheduler's
  choice of the next process, \<open>wakeup\<close> and \<open>kill\<close> return, and \<open>exit\<close> of any process but init
  reaches the scheduler. No list operation in them meets an empty list or walks off
  its end.
\<close>
theorem scheduler_never_stuck:
  assumes "kreach K s" "\<not> blncflg K"
  shows "(\<exists>s'. wakeup K c ch s = Inr s') \<and> (\<exists>r s'. kill n s = Inr (r, s')) \<and>
    (case myproc c s of
       Some p \<Rightarrow>
         (\<exists>s'. sys_yield c s = Inr s') \<and>
         (\<exists>s'. rbind (acquire_lk lk s) (sys_sleep c ch lk) = Inr s') \<and>
         (initproc s = Some p \<or> (\<exists>s'. sys_exit K c status s = Inr s'))
     | None \<Rightarrow> NCPU \<le> c \<or> (\<exists>s'. sys_dispatch c s = Inr s'))"
proof -
  have k: "kinv s" using assms(1) by (rule kreach_kinv)
  have b: "stops (blncflg K) = {}" using assms(2) by (simp add: stops_def)
  have "\<exists>s'. wakeup K c ch s = Inr s'" using okres_total kinv_wakeup [OF k, of K c ch] b by metis
  moreover have "\<exists>r s'. kill n s = Inr (r, s')" using okres_total [OF kinv_kill [OF k, of n]] by auto
  moreover have "(\<exists>s'. sys_yield c s = Inr s') \<and>
      (\<exists>s'. rbind (acquire_lk lk s) (sys_sleep c ch lk) = Inr s') \<and>
      (initproc s = Some p \<or> (\<exists>s'. sys_exit K c status s = Inr s'))" if "myproc c s = Some p" for p
  proof (intro conjI)
    show "\<exists>s'. sys_yield c s = Inr s'" using okres_total [OF kinv_yield [OF k that]] by blast
    show "\<exists>s'. rbind (acquire_lk lk s) (sys_sleep c ch lk) = Inr s'"
      using okres_total [OF kinv_sleep [OF k that, of lk ch]] by (elim exE conjE) (rule exI)
    show "initproc s = Some p \<or> (\<exists>s'. sys_exit K c status s = Inr s')"
      using okres_total [OF kinv_exit [OF k that, of K status, unfolded b]] by blast
  qed
  moreover have "NCPU \<le> c \<or> (\<exists>s'. sys_dispatch c s = Inr s')" if "myproc c s = None"
    using okres_total [OF kinv_dispatch [OF k _ that]] not_le by blast
  ultimately show ?thesis by (auto split: option.split)
qed

theorem scheduler_never_stuck_witness:
  "\<exists>s :: sstate. kreach sample_params s \<and>
     (\<exists>s'. sys_dispatch 0 s = Inr s')"
proof -
  obtain s :: sstate where s: "kreach sample_params s" "\<forall>c. myproc c s = None"
    using booted by blast
  have "\<exists>s'. sys_dispatch 0 s = Inr s'"
    using scheduler_never_stuck [OF s(1) sample_blncflg, of 0 NoChan 0 WaitLk 0] s(2) by (simp add: NCPU_def)
  with s(1) show ?thesis by blast
qed

text \<open>
  C4: \<open>wakeup\<close> without BLNCFLG makes runnable exactly the processes that sleep on the channel,
  other than the caller, and puts them at the end of the queue of CPU 0 in the order of the
  process table; every other process, list and field is unchanged.
\<close>
theorem wakeup_wakes_exactly:
  assumes "kinv s" "\<not> blncflg K"
  shows "\<exists>s'. wakeup K c ch s = Inr s' \<and> kinv s' \<and>
    (\<forall>i < NPROC. view s' i = (if wakes c ch s i then (view s i)\<lparr>state := RUNNABLE\<rparr> else view s i)) \<and>
    contents s' SleepingL = filter (\<lambda>i. \<not> wakes c ch s i) (contents s SleepingL) \<and>
    contents s' (RunnableL 0) = contents s (RunnableL 0) @ filter (wakes c ch s) [0..<NPROC] \<and>
    (\<forall>l \<in> all_lists - {SleepingL, RunnableL 0}. contents s' l = contents s l)"
proof -
  have r: "rep s (view s) (contents s) s" "table_inv (view s) (contents s) s" "plocks_free (view s)"
    using assms(1) by (simp_all add: kinv_def rep_self)
  obtain s' where s': "wakeup K c ch s = Inr s'" and r':
      "rep s' (woken_table (wakes c ch s) NPROC (view s)) (woken_queues (wakes c ch s) NPROC (contents s)) s"
    using okres_total [OF wakeup_fun [OF r assms(2)]] by blast
  have "kinv s'" using okres_InrD [OF kinv_wakeup [OF assms(1)] s'] .
  moreover have "view s' i = (if wakes c ch s i then (view s i)\<lparr>state := RUNNABLE\<rparr> else view s i)"
    if "i < NPROC" for i
    using r' that by (simp add: rep_def woken_table_def)
  moreover have "contents s' SleepingL = filter (\<lambda>i. \<not> wakes c ch s i) (contents s SleepingL)"
    using repD(3) [OF r', of SleepingL] first_rep(3) [OF r(1), of SleepingL]
    by (auto simp: woken_queues_def intro: filter_cong)
  moreover have "contents s' (RunnableL 0) = contents s (RunnableL 0) @ filter (wakes c ch s) [0..<NPROC]"
    using repD(3) [OF r', of "RunnableL 0"] by (simp add: woken_queues_def NCPU_def)
  moreover have "contents s' l = contents s l" if "l \<in> all_lists - {SleepingL, RunnableL 0}" for l
    using repD(3) [OF r', of l] that by (simp add: woken_queues_def)
  ultimately show ?thesis using s' by blast
qed

theorem wakeup_wakes_exactly_witness:
  "\<exists>(s :: sstate) s'. kinv s \<and> wakeup sample_params 0 TicksChan s = Inr s' \<and> kinv s'"
proof -
  obtain s :: sstate where "kinv s" using booted by blast
  with wakeup_wakes_exactly [OF this sample_blncflg, of 0 TicksChan] show ?thesis by blast
qed

text \<open>
  C5: Without BLNCFLG, the end of \<open>exit\<close> of a process other than init, from
  \<open>acquire(&wait_lock)\<close> on, after its files were closed and its directory released, with the
  kernel invariant: it reaches the scheduler, the process is a zombie with the given status, the
  CPU is free, no process has it as parent any more, and the invariant holds again.
\<close>
theorem exit_leaves_zombie:
  assumes "kinv s" "myproc c s = Some p" "initproc s \<noteq> Some p" "\<not> blncflg K"
  shows "\<exists>s'. sys_exit K c status s = Inr s' \<and> kinv s' \<and> state (procs s' p) = ZOMBIE \<and>
    xstate (procs s' p) = status \<and> (\<forall>i < NPROC. parent (procs s' i) \<noteq> Some p) \<and> myproc c s' = None"
proof -
  have "stops (blncflg K) = {}" using assms(4) by (simp add: stops_def)
  from okres_total [OF kinv_exit [OF assms(1-3), of K status, unfolded this]] show ?thesis .
qed

theorem exit_leaves_zombie_witness:
  "\<exists>(s :: sstate) s'. sys_exit sample_params 0 7 s = Inr s' \<and>
     state (procs s' 0) = ZOMBIE \<and> xstate (procs s' 0) = 7"
proof -
  obtain s :: sstate where s: "kinv s" "myproc 0 s = Some 0" "initproc s = None" using one_running by blast
  with exit_leaves_zombie [of s 0 0 sample_params 7]
  show ?thesis by auto
qed

end
