(* ===== verification/Waiting.thy ===== *)
theory Waiting
  imports Kernel
begin

text \<open>
  \<open>wait\<close>, on every path: what it returns, when it sleeps, and what it does to the process table.
  The scan stops at the first child in table order that is a zombie.
\<close>

section \<open>The scan\<close>

definition zombie_kid :: "nat \<Rightarrow> 'a sstate_scheme \<Rightarrow> nat \<Rightarrow> bool" where
  "zombie_kid p s i \<longleftrightarrow> parent (procs s i) = Some p \<and> state (procs s i) = ZOMBIE"

lemma set_plock_id: "\<not> plock (procs s i) \<Longrightarrow> set_proc i (plock_update (\<lambda>_. False)) (set_proc i (plock_update (\<lambda>_. True)) s) = s"
  by (cases s) (auto simp: set_proc_def fun_upd_idem)

lemma wait_scan_skip:
  assumes "\<forall>i \<in> set xs. \<not> zombie_kid p s i \<and> \<not> plock (procs s i)"
  shows "wait_scan (xs @ ys) p a hk s =
    wait_scan ys p a (hk \<or> (\<exists>i \<in> set xs. parent (procs s i) = Some p)) s"
  using assms
proof (induction xs arbitrary: hk)
  case (Cons i xs)
  then have "\<not> plock (procs s i)" "parent (procs s i) = Some p \<Longrightarrow> state (procs s i) \<noteq> ZOMBIE"
    by (auto simp: zombie_kid_def)
  with Cons show ?case by (auto simp: acquire_proc_def release_proc_def set_plock_id)
qed simp

text \<open>The status that is copied to the caller, and the memory of a process that is given back.\<close>

definition status_out :: "u64 \<Rightarrow> nat \<Rightarrow> nat \<Rightarrow> 'a sstate_scheme \<Rightarrow> (int \<times> kmem) res" where
  "status_out a p i s =
     (if a = 0 then Inr (0, km s)
      else copyout (pagetable (procs s p)) a (int_bytes (xstate (procs s i))) (km s))"

definition free_pages :: "proc \<Rightarrow> kmem \<Rightarrow> kmem res" where
  "free_pages q k =
     rbind (if trapframe q \<noteq> 0 then kfree (trapframe q) k else Inr k) (\<lambda>k.
     if pagetable q \<noteq> 0 then proc_freepagetable (pagetable q) (sz q) k else Inr k)"

lemma free_memory_pages:
  "free_memory i s = rbind (free_pages (procs s i) (km s)) (\<lambda>k.
     Inr ((set_proc i (trapframe_update (\<lambda>_. 0)) s)\<lparr>km := k\<rparr>))"
proof -
  have c: "set_proc i f (s\<lparr>km := k\<rparr>) = (set_proc i f s)\<lparr>km := k\<rparr>" for f k by (simp add: set_proc_def)
  have d: "s\<lparr>km := k, procs := P\<rparr> = s\<lparr>procs := P, km := k\<rparr>" for k P by simp
  show ?thesis
    by (auto simp: free_memory_def free_pages_def Let_def rbind_assoc c d set_proc_def split: sum.split)
qed

lemma freeproc_total:
  assumes r: "rep s V Q R" and i: "i < NPROC" "on_lists Q i = {ZombieL}" "index_in_proc (V i) = int i"
    and k: "free_pages (procs s i) (km s) = Inr k"
  shows "\<exists>s'. freeproc i s = Inr s' \<and> rep s' (V(i := freed (V i))) (free_queues i Q) (R\<lparr>km := k\<rparr>)"
proof -
  let ?s1 = "(set_proc i (trapframe_update (\<lambda>_. 0)) s)\<lparr>km := k\<rparr>"
  let ?V1 = "V(i := (V i)\<lparr>trapframe := 0\<rparr>)" and ?Q1 = "Q(ZombieL := remove1 i (Q ZombieL))"
  let ?f = "\<lambda>p. p\<lparr>pagetable := 0, sz := 0, pid := 0, parent := None, pname := [],
                chan := NoChan, killed := False, xstate := 0, state := UNUSED\<rparr>"
  have r1: "rep ?s1 ?V1 Q (R\<lparr>km := k\<rparr>)"
    by (rule rep_km, rule rep_set [OF r]) simp
  obtain s2 where s2: "remove_proc_from_list ZombieL (index_in_proc (procs ?s1 i)) ?s1 = Inr s2"
      "rep s2 ?V1 ?Q1 (R\<lparr>km := k\<rparr>)"
    using okres_total [OF rep_remove_on [OF r1 i(2)]] i(3) by auto
  have r3: "rep (set_proc i ?f s2) (V(i := freed (V i))) ?Q1 (R\<lparr>km := k\<rparr>)"
    using rep_set [OF s2(2) safe_updates(14), of i] by (simp add: freed_def)
  have "on_lists ?Q1 i = {}"
    using on_lists_remove [of Q ZombieL i i] rep_distinct [OF r, of ZombieL] i(2) by simp
  then obtain s3 where s3: "add_proc_to_list UnusedL (index_in_proc (procs (set_proc i ?f s2) i)) (set_proc i ?f s2) = Inr s3"
      "rep s3 (V(i := freed (V i))) (?Q1(UnusedL := ?Q1 UnusedL @ [i])) (R\<lparr>km := k\<rparr>)"
    using okres_total [OF rep_add_on [OF r3 _ i(1), of UnusedL]] i(3) by (auto simp: freed_def)
  have "freeproc i s = Inr s3"
    using s2(1) s3(1) by (simp add: freeproc_split free_memory_pages k Let_def)
  with s3(2) show ?thesis by (simp add: free_queues_def)
qed

section \<open>Every path of wait\<close>

lemma wait_unfold:
  assumes "myproc c s = Some p" "\<not> wait_lock s"
  shows "sys_wait c a s =
    rbind (wait_scan [0..<NPROC] p a False (s\<lparr>wait_lock := True\<rparr>)) (\<lambda>(r, s).
      case r of
        Inl n \<Rightarrow> Inr (Some n, s)
      | Inr havekids \<Rightarrow>
          if \<not> havekids \<or> killed (procs s p) then rbind (release_lk WaitLk s) (\<lambda>s. Inr (Some (-1), s))
          else rbind (sleep_out c (ProcChan p) WaitLk s) (\<lambda>(ie, s). rbind (scheduler_back c p s) (\<lambda>s. Inr (None, s))))"
proof -
  have "curproc c (s\<lparr>wait_lock := True\<rparr>) = Inr p" "curproc c s = Inr p"
    using assms(1) by (simp_all add: curproc_def myproc_def)
  then show ?thesis
    using assms(2)
    by (simp add: sys_wait_def wait_start_def wait_body_def acquire_lk_def rbind_assoc)
      (auto simp: rbind_def split: sum.splits prod.splits intro!: arg_cong2 [where f = rbind])
qed

lemma wait_no_zombie:
  assumes k: "kinv s" and p: "myproc c s = Some p" and no: "\<forall>i < NPROC. \<not> zombie_kid p s i"
  shows "if (\<exists>i < NPROC. parent (procs s i) = Some p) \<and> \<not> killed (procs s p)
    then \<exists>s'. sys_wait c a s = Inr (None, s')
    else sys_wait c a s = Inr (Some (-1), s)"
proof -
  have r: "rep s (view s) (contents s) s" "table_inv (view s) (contents s) s" "plocks_free (view s)" "locks_free s"
    using k by (simp_all add: kinv_def rep_self)
  have wl: "\<not> wait_lock s" using r(4) by (simp add: locks_free_def)
  let ?s = "s\<lparr>wait_lock := True\<rparr>" and ?h = "\<exists>i < NPROC. parent (procs s i) = Some p"
  have pl: "\<not> plock (procs s i)" for i using r(3) by (simp add: plocks_free_def view_def)
  have scan: "wait_scan [0..<NPROC] p a False ?s = Inr (Inr ?h, ?s)"
    using wait_scan_skip [of "[0..<NPROC]" p ?s "[]" a False] no pl by (auto simp: zombie_kid_def)
  have bk: "s\<lparr>wait_lock := False\<rparr> = s" using wl by (cases s) simp
  have slp: "\<exists>s'. sys_wait c a s = Inr (None, s')" if "?h" "\<not> killed (procs s p)"
  proof -
    have r1: "rep ?s (view s) (contents s) (set_lk WaitLk True s)"
      using rep_set_lk [OF r(1), of WaitLk True] by (simp add: set_lk_def)
    have lf: "locks_free (set_lk WaitLk False (set_lk WaitLk True s))"
      using r(4) by (simp add: set_lk_def locks_free_def)
    obtain s' where "sys_sleep c (ProcChan p) WaitLk ?s = Inr s'"
      using okres_total [OF sleep_rep [OF r1 _ r(3) _ lf, of c p "{}" "ProcChan p"]] r(2) p
      by (auto simp: myproc_def)
    moreover have "curproc c ?s = Inr p" using p by (simp add: curproc_def myproc_def)
    ultimately show ?thesis
      unfolding wait_unfold [OF p wl] scan using that
      by (auto simp: sys_sleep_def rbind_def split: sum.splits)
  qed
  show ?thesis
  proof (cases "?h \<and> \<not> killed (procs s p)")
    case True
    with slp show ?thesis by simp
  next
    case False
    then have "sys_wait c a s = Inr (Some (-1), s)"
      unfolding wait_unfold [OF p wl] scan by (auto simp: release_lk_def bk)
    with False show ?thesis by auto
  qed
qed

lemma wait_first_zombie:
  assumes k: "kinv s" and p: "myproc c s = Some p" and i: "i < NPROC" "zombie_kid p s i"
    and before: "\<forall>j < i. \<not> zombie_kid p s j" and st: "status_out a p i s = Inr (r, k1)"
  shows "r < 0 \<Longrightarrow> sys_wait c a s = Inr (Some (-1), s\<lparr>km := k1\<rparr>)"
    and "\<not> r < 0 \<Longrightarrow> free_pages (procs s i) k1 = Inr k2 \<Longrightarrow>
      \<exists>s'. sys_wait c a s = Inr (Some (pid (procs s i)), s') \<and>
        rep s' ((view s)(i := freed (view s i))) (free_queues i (contents s)) (s\<lparr>km := k2\<rparr>)"
proof -
  have rp: "rep s (view s) (contents s) s" "table_inv (view s) (contents s) s" "plocks_free (view s)" "locks_free s"
    using k by (simp_all add: kinv_def rep_self)
  have wl: "\<not> wait_lock s" using rp(4) by (simp add: locks_free_def)
  have pl: "\<not> plock (procs s j)" for j using rp(3) by (simp add: plocks_free_def view_def)
  let ?s = "s\<lparr>wait_lock := True\<rparr>" and ?s1 = "(set_proc i (plock_update (\<lambda>_. True)) s)\<lparr>wait_lock := True, km := k1\<rparr>"
  have split: "[0..<NPROC] = [0..<i] @ i # [Suc i..<NPROC]"
    using i(1) upt_add_eq_append [of 0 i "NPROC - i"] by (simp add: upt_conv_Cons)
  define h where "h = (\<exists>j \<in> set [0..<i]. parent (procs ?s j) = Some p)"
  have skip: "wait_scan [0..<NPROC] p a False ?s = wait_scan (i # [Suc i..<NPROC]) p a h ?s"
    unfolding split h_def
    using wait_scan_skip [of "[0..<i]" p ?s "i # [Suc i..<NPROC]" a False] before pl
    by (simp add: zombie_kid_def)
  have zk: "parent (procs s i) = Some p" "state (procs s i) = ZOMBIE" using i(2) by (simp_all add: zombie_kid_def)
  have acq: "acquire_proc i ?s = Inr (set_proc i (plock_update (\<lambda>_. True)) ?s)"
    using pl by (simp add: acquire_proc_def)
  let ?t = "set_proc i (plock_update (\<lambda>_. True)) ?s"
  have t: "state (procs ?t i) = ZOMBIE" "pid (procs ?t i) = pid (procs s i)" "parent (procs ?s i) = Some p"
    using zk by simp_all
  have "km ?t = km s" by (simp add: set_proc_def)
  then have cp: "(if a \<noteq> 0 then rbind (copyout (pagetable (procs ?t p)) a (int_bytes (xstate (procs ?t i))) (km ?t))
        (\<lambda>(r, k). Inr (r, ?t\<lparr>km := k\<rparr>)) else Inr (0, ?t)) = Inr (r, ?s1)"
    using st by (auto simp: status_out_def set_proc_def split: if_splits)
  have found: "wait_scan (i # [Suc i..<NPROC]) p a h ?s =
      (if r < 0 then rbind (release_proc i ?s1) (\<lambda>u. rbind (release_lk WaitLk u) (\<lambda>u. Inr (Inl (-1), u)))
       else rbind (freeproc i ?s1) (\<lambda>u. rbind (release_proc i u) (\<lambda>u.
         rbind (release_lk WaitLk u) (\<lambda>u. Inr (Inl (pid (procs s i)), u)))))"
    unfolding wait_scan.simps if_P [OF t(3)] acq rbind_simps if_P [OF t(1)] Let_def cp prod.case t(2) ..
  have bk: "s\<lparr>km := k1, wait_lock := False\<rparr> = s\<lparr>km := k1\<rparr>" using wl by (cases s) simp
  have "set_proc i (plock_update (\<lambda>_. False)) ?s1 = s\<lparr>wait_lock := True, km := k1\<rparr>"
    using set_plock_id [of s i] pl by (cases s) (simp add: set_proc_def)
  then have "rbind (release_proc i ?s1) (\<lambda>u. rbind (release_lk WaitLk u) (\<lambda>u. Inr (Inl (-1) :: int + bool, u))) =
      Inr (Inl (-1), s\<lparr>km := k1\<rparr>)"
    using bk by (simp add: release_proc_def release_lk_def)
  then show "r < 0 \<Longrightarrow> sys_wait c a s = Inr (Some (-1), s\<lparr>km := k1\<rparr>)"
    unfolding wait_unfold [OF p wl] skip found by simp
  assume r0: "\<not> r < 0" and fp: "free_pages (procs s i) k1 = Inr k2"
  let ?V1 = "(view s)(i := (view s i)\<lparr>plock := True\<rparr>)" and ?R1 = "(set_lk WaitLk True s)\<lparr>km := k1\<rparr>"
  have r1: "rep ?s1 ?V1 (contents s) ?R1"
    using rep_km [OF rep_set_lk [OF rep_set [OF rp(1) safe_updates(1) [of "\<lambda>_. True"], of i], of WaitLk True], of k1]
    by (simp add: set_lk_def)
  note ti = table_invD [OF rp(2) i(1)]
  have "free_pages (procs ?s1 i) (km ?s1) = free_pages (procs s i) k1" by (simp add: free_pages_def)
  with fp have fp1: "free_pages (procs ?s1 i) (km ?s1) = Inr k2" by (rule trans [rotated])
  obtain s2 where s2: "freeproc i ?s1 = Inr s2"
      "rep s2 (?V1(i := freed (?V1 i))) (free_queues i (contents s)) (?R1\<lparr>km := k2\<rparr>)"
    using freeproc_total [OF r1 i(1) _ _ fp1] ti zk(2) by (auto simp: view_def)
  have lk: "lk_held WaitLk (?R1\<lparr>km := k2\<rparr>)" by (simp add: set_lk_def lk_held_def)
  obtain s3 where s3: "release_proc i s2 = Inr s3"
      "rep s3 (?V1(i := (freed (?V1 i))\<lparr>plock := False\<rparr>)) (free_queues i (contents s)) (?R1\<lparr>km := k2\<rparr>)"
    using okres_total [OF rep_release [OF s2(2), of i]] by (auto simp: freed_def)
  obtain s4 where s4: "release_lk WaitLk s3 = Inr s4"
      "rep s4 (?V1(i := (freed (?V1 i))\<lparr>plock := False\<rparr>)) (free_queues i (contents s)) (set_lk WaitLk False (?R1\<lparr>km := k2\<rparr>))"
    using okres_total [OF rep_release_lk [OF s3(2) lk]] by blast
  have V: "?V1(i := (freed (?V1 i))\<lparr>plock := False\<rparr>) = (view s)(i := freed (view s i))"
    using pl [of i] by (simp add: freed_def view_def)
  have R: "set_lk WaitLk False (?R1\<lparr>km := k2\<rparr>) = s\<lparr>km := k2\<rparr>"
    using wl by (cases s) (simp add: set_lk_def)
  show "\<exists>s'. sys_wait c a s = Inr (Some (pid (procs s i)), s') \<and>
        rep s' ((view s)(i := freed (view s i))) (free_queues i (contents s)) (s\<lparr>km := k2\<rparr>)"
    using s4(2) r0 unfolding V R wait_unfold [OF p wl] skip found by (simp add: s2(1) s3(1) s4(1))
qed

section \<open>Properties\<close>

text \<open>
  C6: \<open>wait\<close> on every path, from a state with the kernel invariant. Without a child that is a
  zombie it returns -1 and changes nothing if there is no child at all or the caller was killed,
  and otherwise goes to sleep on the caller's own channel. With one, it takes the first in table order:
  if its status cannot be copied out, \<open>wait\<close> returns -1 and only memory has changed; if it is copied and
  the child's memory is freed, \<open>wait\<close> returns the child's pid, the child's slot is unused and
  last on \<open>unusedList\<close>, no other process has changed and the invariant holds.
\<close>
theorem wait_every_path:
  assumes "kinv s" "myproc c s = Some p"
  shows "case find (zombie_kid p s) [0..<NPROC] of
      None \<Rightarrow>
        if (\<exists>i < NPROC. parent (procs s i) = Some p) \<and> \<not> killed (procs s p)
        then \<exists>s'. sys_wait c a s = Inr (None, s') \<and> kinv s' \<and> myproc c s' = None \<and>
          view s' = (view s)(p := (view s p)\<lparr>chan := ProcChan p, state := SLEEPING\<rparr>)
        else sys_wait c a s = Inr (Some (-1), s)
    | Some i \<Rightarrow>
        (\<forall>r k. status_out a p i s = Inr (r, k) \<longrightarrow>
          (if r < 0 then sys_wait c a s = Inr (Some (-1), s\<lparr>km := k\<rparr>)
           else \<forall>k'. free_pages (procs s i) k = Inr k' \<longrightarrow>
             (\<exists>s'. sys_wait c a s = Inr (Some (pid (procs s i)), s') \<and> kinv s' \<and> km s' = k' \<and>
                state (procs s' i) = UNUSED \<and> contents s' UnusedL = contents s UnusedL @ [i] \<and>
                (\<forall>j. j \<noteq> i \<longrightarrow> view s' j = view s j))))"
proof (cases "find (zombie_kid p s) [0..<NPROC]")
  case None
  have r: "rep s (view s) (contents s) s" "table_inv (view s) (contents s) s" "plocks_free (view s)" "locks_free s"
      "cproc (cpus s c) = Some p"
    using assms by (simp_all add: kinv_def rep_self myproc_def)
  have no: "\<forall>i < NPROC. \<not> zombie_kid p s i" using None by (auto simp: find_None_iff)
  have "kinv s' \<and> myproc c s' = None \<and> view s' = (view s)(p := (view s p)\<lparr>chan := ProcChan p, state := SLEEPING\<rparr>)"
    if "sys_wait c a s = Inr (None, s')" for s'
  proof -
    have "waited c p (view s) (contents s) s (None, s')" by (rule okres_InrD [OF wait_rep [OF r] that])
    then have r': "rep s' ((view s)(p := (view s p)\<lparr>chan := ProcChan p, state := SLEEPING\<rparr>))
         ((contents s)(SleepingL := contents s SleepingL @ [p])) (set_hart c (cproc_update (\<lambda>_. None)) s)"
      by (simp add: waited_def)
    have "kinv s'" using okres_InrD [OF kinv_wait [OF assms] that] by simp
    with r' repD(4) [OF r'] show ?thesis by (simp add: rep_def myproc_def set_hart_def)
  qed
  with wait_no_zombie [OF assms no, of a] None show ?thesis by (auto split: if_splits)
next
  case (Some i)
  then have i: "i < NPROC" "zombie_kid p s i" "\<forall>j < i. \<not> zombie_kid p s j"
    by (auto simp: find_Some_iff)
  have r: "rep s (view s) (contents s) s" "table_inv (view s) (contents s) s" "plocks_free (view s)" "locks_free s"
    using assms by (simp_all add: kinv_def rep_self)
  have post: "kinv s' \<and> km s' = k' \<and> state (procs s' i) = UNUSED \<and> contents s' UnusedL = contents s UnusedL @ [i] \<and>
      (\<forall>j. j \<noteq> i \<longrightarrow> view s' j = view s j)"
    if r': "rep s' ((view s)(i := freed (view s i))) (free_queues i (contents s)) (s\<lparr>km := k'\<rparr>)" for s' k'
  proof (intro conjI)
    have "reaped p (view s) (contents s) (pid (view s i)) ((view s)(i := freed (view s i))) (free_queues i (contents s))"
      using i by (auto simp: reaped_def zombie_kid_def view_def)
    then show "kinv s'" by (rule kinv_reaped [OF r r'])
    show "km s' = k'" using repD(10) [OF r'] by simp
    show "state (procs s' i) = UNUSED" using rep_sel(3) [OF r', of i] by (simp add: freed_def)
    show "contents s' UnusedL = contents s UnusedL @ [i]" using repD(3) [OF r', of UnusedL] by (simp add: free_queues_def)
    show "\<forall>j. j \<noteq> i \<longrightarrow> view s' j = view s j" using r' by (simp add: rep_def)
  qed
  have reap: "\<exists>s'. sys_wait c a s = Inr (Some (pid (procs s i)), s') \<and> kinv s' \<and> km s' = k' \<and>
      state (procs s' i) = UNUSED \<and> contents s' UnusedL = contents s UnusedL @ [i] \<and>
      (\<forall>j. j \<noteq> i \<longrightarrow> view s' j = view s j)"
    if st: "status_out a p i s = Inr (r, k)" and r0: "\<not> r < 0" and fp: "free_pages (procs s i) k = Inr k'" for r k k'
  proof -
    obtain s' where "sys_wait c a s = Inr (Some (pid (procs s i)), s')"
        "rep s' ((view s)(i := freed (view s i))) (free_queues i (contents s)) (s\<lparr>km := k'\<rparr>)"
      using wait_first_zombie(2) [OF assms i st r0 fp] by blast
    with post show ?thesis by blast
  qed
  with wait_first_zombie(1) [OF assms i] Some show ?thesis by simp
qed

text \<open>A state with a zombie: slot 1 is a child of the process that runs on hart 0.\<close>

lemma table_inv_zombie:
  assumes r: "rep s V Q R" and t: "table_inv V Q R" and x: "x \<in> set (Q UnusedL)"
    and p: "p < NPROC" "alive (state (V p))"
    and q: "state q = ZOMBIE" "parent q = Some p" "pid q = nextpid R" "cpu_num q = cpu_num (V x)"
      "index_in_proc q = index_in_proc (V x)"
  shows "table_inv (V(x := q)) (Q(UnusedL := remove1 x (Q UnusedL), ZombieL := Q ZombieL @ [x]))
    (R\<lparr>nextpid := nextpid R + 1, pid_lock := b\<rparr>)"
proof -
  let ?Q1 = "Q(UnusedL := remove1 x (Q UnusedL))"
  have xN: "x < NPROC" using first_rep(3) [OF r, of UnusedL x] x by simp
  note ti = table_invD [OF t xN]
  have "UnusedL \<in> on_lists Q x" using x by (simp add: on_lists_def)
  then have st: "state (V x) = UNUSED" using ti(4) by (cases "state (V x)") auto
  have d: "distinct (Q UnusedL)" by (rule rep_distinct [OF r]) simp
  have Q: "Q(UnusedL := remove1 x (Q UnusedL), ZombieL := Q ZombieL @ [x]) = ?Q1(ZombieL := ?Q1 ZombieL @ [x])" by simp
  have on: "on_lists (?Q1(ZombieL := ?Q1 ZombieL @ [x])) j = (if j = x then {ZombieL} else on_lists Q j)" for j
    using on_lists_add [of ZombieL ?Q1 x j] on_lists_remove [of Q UnusedL x j] d ti(4) st
    by (cases "j = x") simp_all
  have "placement (V(x := q)) (?Q1(ZombieL := ?Q1 ZombieL @ [x]))"
    by (rule placement_upd [of V Q]) (use t ti on q in \<open>simp_all add: table_inv_def\<close>)
  moreover have "running (V(x := q)) (cpus R)"
    by (rule running_same) (use t q st in \<open>simp_all add: table_inv_def\<close>)
  moreover have "pids (V(x := q)) (nextpid R + 1)"
    by (rule pids_alloc) (use t q st in \<open>simp_all add: table_inv_def\<close>)
  moreover have "family (V(x := q)) (initproc R)"
  proof (rule familyI)
    have f: "family V (initproc R)" using t by (simp add: table_inv_def)
    have al: "alive (state ((V(x := q)) j))" if "alive (state (V j))" for j
      using that st by (auto simp: alive_def)
    {
      fix j assume "initproc R = Some j"
      then show "j < NPROC \<and> alive (state ((V(x := q)) j))" using familyD(1) [OF f, of j] al by blast
    }
    {
      fix i j assume i: "i < NPROC" "parent ((V(x := q)) i) = Some j"
      show "j < NPROC \<and> alive (state ((V(x := q)) j))"
        using familyD(2) [OF f i(1), of j] al [of j] i p q(2) by (cases "i = x") auto
    }
    fix i assume "i < NPROC" "state ((V(x := q)) i) = UNUSED"
    then show "parent ((V(x := q)) i) = None"
      using familyD(3) [OF f, of i] q(1) by (cases "i = x") simp_all
  qed
  ultimately show ?thesis unfolding Q by (simp add: table_inv_def)
qed

lemma zombie_child:
  "\<exists>s :: sstate. kinv s \<and> myproc 0 s = Some 0 \<and> find (zombie_kid 0 s) [0..<NPROC] = Some 1 \<and>
     trapframe (procs s 1) = 0 \<and> pagetable (procs s 1) = 0"
proof -
  obtain s :: sstate where s: "kinv s" "myproc 0 s = Some 0" "\<forall>i < NPROC. parent (procs s i) = None"
      "1 \<in> set (contents s UnusedL)"
    using one_running by blast
  have r: "rep s (view s) (contents s) s" "table_inv (view s) (contents s) s" "plocks_free (view s)" "locks_free s"
    using s by (simp_all add: kinv_def rep_self)
  have c: "cproc (cpus s 0) = Some 0" using s(2) by (simp add: myproc_def)
  note run = table_inv_running(2,3) [OF r(2) c]
  let ?f = "\<lambda>q. q\<lparr>pagetable := 0, sz := 0, pid := nextpid s, parent := Some 0, pname := [],
    chan := NoChan, killed := False, xstate := 7, state := ZOMBIE\<rparr>" and ?g = "trapframe_update (\<lambda>_. 0)"
  let ?V = "(view s)(1 := ?f (?g (view s 1)))"
  let ?Q = "(contents s)(UnusedL := remove1 1 (contents s UnusedL), ZombieL := contents s ZombieL @ [1])"
  obtain s1 where s1: "rep s1 (view s) ((contents s)(UnusedL := remove1 1 (contents s UnusedL))) s"
    using okres_total [OF rep_remove [OF r(1), of UnusedL 1 "{}"]] s(4) by auto
  have r2: "rep (set_proc 1 ?f (set_proc 1 ?g s1)) ?V ((contents s)(UnusedL := remove1 1 (contents s UnusedL))) s"
    using rep_set [OF rep_set [OF s1 safe_updates(10) [of "\<lambda>_. 0"], of 1] safe_updates(14), of 1] by simp
  have N: "(1 :: nat) < NPROC" by (simp add: NPROC_def)
  have "state (procs s 1) = UNUSED" using kinv_on(1) [OF s(1) N] s(4) by simp
  then have "on_lists (contents s) 1 = {UnusedL}" using kinv_where(2) [OF s(1) N] by simp
  then have "on_lists ((contents s)(UnusedL := remove1 1 (contents s UnusedL))) 1 = {}"
    using on_lists_remove [of "contents s" UnusedL 1 1] rep_distinct [OF r(1), of UnusedL] by simp
  then obtain s3 where s3: "rep s3 ?V ?Q s"
    using okres_total [OF rep_add [OF r2, of ZombieL 1 "{}"]] N by (auto simp: on_lists_empty)
  let ?s = "s3\<lparr>nextpid := nextpid s + 1, pid_lock := pid_lock s\<rparr>"
  have r4: "rep ?s ?V ?Q (s\<lparr>nextpid := nextpid s + 1, pid_lock := pid_lock s\<rparr>)"
    by (rule rep_pid [OF s3])
  have t: "table_inv ?V ?Q (s\<lparr>nextpid := nextpid s + 1, pid_lock := pid_lock s\<rparr>)"
    by (rule table_inv_zombie [OF r(1,2) s(4) run(1)]) (use run in simp_all)
  have "kinv ?s"
    using r(3,4) by (intro kinvI [OF r4 t]) (simp_all add: plocks_free_def locks_free_def)
  moreover have "myproc 0 ?s = Some 0" using repD(4) [OF r4] c by (simp add: myproc_def)
  moreover have "zombie_kid 0 ?s i \<longleftrightarrow> i = 1" if "i < NPROC" for i
    using rep_sel(3,10) [OF r4, of i] s(3) that by (cases "i = 1") (auto simp: zombie_kid_def view_def)
  then have "find (zombie_kid 0 ?s) [0..<NPROC] = Some 1"
    using N by (auto simp: find_Some_iff intro!: exI [of _ 1])
  moreover have "trapframe (procs ?s 1) = 0" "pagetable (procs ?s 1) = 0"
    using rep_sel(13,14) [OF r4, of 1] by simp_all
  ultimately show ?thesis by blast
qed

theorem wait_every_path_witness:
  "\<exists>(s :: sstate) s'. kinv s \<and> myproc 0 s = Some 0 \<and> state (procs s 1) = ZOMBIE \<and>
     sys_wait 0 0 s = Inr (Some (pid (procs s 1)), s') \<and> state (procs s' 1) = UNUSED"
proof -
  obtain s :: sstate where s: "kinv s" "myproc 0 s = Some 0" "find (zombie_kid 0 s) [0..<NPROC] = Some 1"
      "trapframe (procs s 1) = 0" "pagetable (procs s 1) = 0"
    using zombie_child by blast
  have "zombie_kid 0 s 1" using s(3) by (auto simp: find_Some_iff)
  then have "state (procs s 1) = ZOMBIE" by (simp add: zombie_kid_def)
  moreover have "status_out 0 0 1 s = Inr (0, km s)" "free_pages (procs s 1) (km s) = Inr (km s)"
    using s(4,5) by (simp_all add: status_out_def free_pages_def)
  ultimately show ?thesis using wait_every_path [OF s(1,2), of 0] s by auto
qed

end
