(* ===== verification/Onecpu.thy ===== *)
theory Onecpu
  imports Kernel
begin

text \<open>
  Which CPUs get work. A process is only ever queued on the CPU that its \<open>cpu_num\<close> names or on
  the one that \<open>leastUsedCpu\<close> returns, \<open>cpu_num\<close> starts as 0 and nothing but the unused
  \<open>setcpu\<close> and the BLNCFLG code of \<open>fork\<close> and \<open>wakeup\<close> changes it, and \<open>leastUsedCpu\<close> returns the
  smallest count, not the CPU that has it. So the queues of all CPUs but the first stay empty.
  The lemmas follow the code of every operation; they do not need the invariant of the lists.
\<close>

definition quiet_cpus :: "'a sstate_scheme \<Rightarrow> bool" where
  "quiet_cpus s \<longleftrightarrow>
     (\<forall>i < NPROC. cpu_num (procs s i) = 0) \<and>
     (\<forall>c. 0 < c \<and> c < NCPU \<longrightarrow> first (lists s (RunnableL c)) = -1 \<and> procCount s c = 0) \<and>
     (\<forall>c p. cproc (cpus s c) = Some p \<longrightarrow> c = 0 \<and> p < NPROC)"

text \<open>What the list operations leave alone.\<close>

definition cpu_frame :: "'a ptable_scheme \<Rightarrow> 'a ptable_scheme \<Rightarrow> bool" where
  "cpu_frame s s' \<longleftrightarrow> (\<forall>i. cpu_num (procs s' i) = cpu_num (procs s i)) \<and> procCount s' = procCount s \<and>
     (\<forall>c. 0 < c \<longrightarrow> first (lists s' (RunnableL c)) = first (lists s (RunnableL c))) \<and>
     ptable.more s' = ptable.more s"

lemma cpu_frame_refl [simp]: "cpu_frame s s"
  by (simp add: cpu_frame_def)

lemma cpu_frame_trans: "cpu_frame s s' \<Longrightarrow> cpu_frame s' s'' \<Longrightarrow> cpu_frame s s''"
  by (simp add: cpu_frame_def)

lemma cpu_frame_sets [simp]:
  "cpu_frame s (set_slock i b s)" "cpu_frame s (set_nxt i n s)" "cpu_frame s (set_llock l b s)"
  "(\<And>p. cpu_num (f p) = cpu_num p) \<Longrightarrow> cpu_frame s (set_proc i f s)"
  by (auto simp: cpu_frame_def set_slock_def set_nxt_def set_llock_def set_proc_def)

lemma cpu_frame_first: "\<forall>c. 0 < c \<longrightarrow> l \<noteq> RunnableL c \<Longrightarrow> cpu_frame s (set_first l i s)"
  by (auto simp: cpu_frame_def set_first_def)

text \<open>
  The operations on lists and locks keep the frame of any earlier state \<open>s0\<close>, if they return.
\<close>

named_theorems framed

lemma frame_bind:
  "okres UNIV r (cpu_frame s0) \<Longrightarrow> (\<And>s. cpu_frame s0 s \<Longrightarrow> okres UNIV (f s) P) \<Longrightarrow> okres UNIV (rbind r f) P"
  by (rule okres_bind)

lemma value_bind: "(\<And>x. okres UNIV (f x) P) \<Longrightarrow> okres UNIV (rbind r f) P"
  by (cases r) simp_all

lemmas value_binds = value_bind [where r = "proc_at i" for i] value_bind [where r = "get_next i s" for i s]
  value_bind [where r = "spin_acquire b" for b] value_bind [where r = "spin_release b" for b]

lemma frame_set:
  assumes "cpu_frame s0 s"
  shows "cpu_frame s0 (set_slock i b s)" "cpu_frame s0 (set_nxt i n s)" "cpu_frame s0 (set_llock l b s)"
    "(\<And>p. cpu_num (f p) = cpu_num p) \<Longrightarrow> cpu_frame s0 (set_proc i f s)"
    "\<forall>c. 0 < c \<longrightarrow> l \<noteq> RunnableL c \<Longrightarrow> cpu_frame s0 (set_first l n s)"
  using assms by (auto intro: cpu_frame_trans cpu_frame_first)

lemma frame_prims [framed]:
  assumes "cpu_frame s0 s"
  shows "okres UNIV (acquire_list l s) (cpu_frame s0)" "okres UNIV (release_list l s) (cpu_frame s0)"
    "okres UNIV (acquire_state i s) (cpu_frame s0)" "okres UNIV (release_state i s) (cpu_frame s0)"
    "okres UNIV (put_next i n s) (cpu_frame s0)" "okres UNIV (acquire_proc k s) (cpu_frame s0)"
    "okres UNIV (release_proc k s) (cpu_frame s0)"
  using assms by (auto simp: acquire_list_def release_list_def acquire_state_def release_state_def
      put_next_def acquire_proc_def release_proc_def intro!: value_bind frame_set)

lemma frame_add_walk:
  "cpu_frame s0 s \<Longrightarrow> okres UNIV (add_walk fuel l cur nxt b s) (\<lambda>(cur, b, s'). cpu_frame s0 s')"
proof (induction fuel arbitrary: cur nxt b s)
  case 0
  then show ?case by (simp add: add_walk.simps)
next
  case (Suc fuel)
  from Suc.prems show ?case
    by (subst add_walk.simps) (auto intro!: frame_bind [OF frame_prims(2)] frame_bind [OF frame_prims(3)]
      frame_bind [OF frame_prims(4)] value_binds Suc.IH)
qed

lemma frame_remove_walk:
  "cpu_frame s0 s \<Longrightarrow> okres UNIV (remove_walk fuel l ind prev cur nxt b s) (\<lambda>(prev, cur, nxt, b, s'). cpu_frame s0 s')"
proof (induction fuel arbitrary: prev cur nxt b s)
  case 0
  then show ?case by (simp add: remove_walk.simps)
next
  case (Suc fuel)
  have r: "okres UNIV (if prev \<noteq> -1 then release_state prev s else Inr s) (cpu_frame s0)" if "cpu_frame s0 s" for s
    using that by (auto intro: framed)
  from Suc.prems show ?case
    by (subst remove_walk.simps) (auto intro!: frame_bind [OF frame_prims(2)] frame_bind [OF frame_prims(3)]
      frame_bind [OF r] value_binds Suc.IH)
qed

lemmas frame_binds = frame_bind [OF frame_prims(1)] frame_bind [OF frame_prims(2)] frame_bind [OF frame_prims(3)]
  frame_bind [OF frame_prims(4)] frame_bind [OF frame_prims(5)] frame_bind [OF frame_prims(6)]
  frame_bind [OF frame_prims(7)]

lemma frame_add [framed]:
  assumes "cpu_frame s0 s" "\<forall>c. 0 < c \<longrightarrow> l \<noteq> RunnableL c"
  shows "okres UNIV (add_proc_to_list l i s) (cpu_frame s0)"
proof -
  have rest: "okres UNIV (add_rest NPROC l i cur nxt b s) (cpu_frame s0)" if "cpu_frame s0 s" for cur nxt b s
    unfolding add_rest_def
    by (rule okres_bind [OF frame_add_walk [OF that]])
      (auto intro!: frame_binds framed)
  from assms show ?thesis
    by (auto simp: add_proc_to_list_def Let_def intro!: frame_binds framed value_binds rest frame_set)
qed

lemma frame_remove [framed]:
  assumes "cpu_frame s0 s" "\<forall>c. 0 < c \<longrightarrow> l \<noteq> RunnableL c"
  shows "okres UNIV (remove_proc_from_list l i s) (cpu_frame s0)"
proof -
  have r: "okres UNIV (if prev \<noteq> -1 then release_state prev s else Inr s) (cpu_frame s0)"
    if "cpu_frame s0 s" for s and prev :: int
    using that by (auto intro: framed)
  have rest: "okres UNIV (remove_rest NPROC l i prev cur nxt b s) (cpu_frame s0)" if "cpu_frame s0 s" for prev cur nxt b s
    unfolding remove_rest_def
    by (rule okres_bind [OF frame_remove_walk [OF that]])
      (auto intro!: frame_binds frame_bind [OF r] framed value_binds)
  from assms show ?thesis
    by (auto simp: remove_proc_from_list_def Let_def intro!: frame_binds framed value_binds rest frame_set)
qed

section \<open>Every operation keeps the other CPUs idle\<close>

named_theorems quiet_ops

lemma quiet_frame: "quiet_cpus s0 \<Longrightarrow> cpu_frame s0 s \<Longrightarrow> quiet_cpus s"
  using more_fields(1) [of s s0] by (simp add: quiet_cpus_def cpu_frame_def)

lemma quiet_framed:
  assumes "okres UNIV r (cpu_frame s)" "quiet_cpus s"
  shows "okres UNIV r quiet_cpus"
  by (rule okres_mono [OF assms(1)]) (use quiet_frame [OF assms(2)] in auto)

lemma quiet_bind:
  "okres UNIV r quiet_cpus \<Longrightarrow> (\<And>s. quiet_cpus s \<Longrightarrow> okres UNIV (f s) P) \<Longrightarrow> okres UNIV (rbind r f) P"
  by (rule okres_bind)

lemma quiet_prims [quiet_ops]:
  assumes "quiet_cpus s"
  shows "okres UNIV (acquire_list l s) quiet_cpus" "okres UNIV (release_list l s) quiet_cpus"
    "okres UNIV (acquire_proc k s) quiet_cpus" "okres UNIV (release_proc k s) quiet_cpus"
    "okres UNIV (acquire_lk lk s) quiet_cpus" "okres UNIV (release_lk lk s) quiet_cpus"
    "\<forall>c. 0 < c \<longrightarrow> m \<noteq> RunnableL c \<Longrightarrow> okres UNIV (add_proc_to_list m i s) quiet_cpus"
    "\<forall>c. 0 < c \<longrightarrow> m \<noteq> RunnableL c \<Longrightarrow> okres UNIV (remove_proc_from_list m i s) quiet_cpus"
proof -
  show "okres UNIV (acquire_lk lk s) quiet_cpus" "okres UNIV (release_lk lk s) quiet_cpus"
    using assms by (cases lk; auto simp: acquire_lk_def release_lk_def quiet_cpus_def intro!: value_bind)+
qed (auto intro!: quiet_framed [OF _ assms] framed)

lemma quiet_sets [quiet_ops]:
  assumes "quiet_cpus s"
  shows "(\<And>p. cpu_num p = 0 \<Longrightarrow> cpu_num (f p) = 0) \<Longrightarrow> quiet_cpus (set_proc i f s)"
    "quiet_cpus (s\<lparr>km := k\<rparr>)" "quiet_cpus (s\<lparr>nextpid := n, pid_lock := b\<rparr>)" "quiet_cpus (s\<lparr>initproc := ip\<rparr>)"
    "quiet_cpus (sched_in c ie s)" "quiet_cpus (set_hart c (cproc_update (\<lambda>_. None)) s)"
  using assms by (auto simp: quiet_cpus_def set_proc_def sched_in_def set_hart_def)

lemmas quiet_binds = quiet_bind [OF quiet_prims(1)] quiet_bind [OF quiet_prims(2)] quiet_bind [OF quiet_prims(3)]
  quiet_bind [OF quiet_prims(4)] quiet_bind [OF quiet_prims(5)] quiet_bind [OF quiet_prims(6)]
  quiet_bind [OF quiet_prims(7)] quiet_bind [OF quiet_prims(8)] value_binds
  value_bind [where r = "sched c s" for c s] value_bind [where r = "kalloc k" for k]
  value_bind [where r = "proc_pagetable K p k" for K p k] value_bind [where r = "kfree a k" for a k]
  value_bind [where r = "proc_freepagetable a b k" for a b k] value_bind [where r = "copyout a b d k" for a b d k]

lemma quiet_least: "quiet_cpus s \<Longrightarrow> leastUsedCpu s = 0"
proof -
  assume q: "quiet_cpus s"
  have "fold (\<lambda>i m. if m > procCount s i then procCount s i else m) xs m = 0"
    if "1 \<in> set xs \<or> m = 0" for xs and m :: u64
    using that
  proof (induction xs arbitrary: m)
    case (Cons x xs)
    show ?case
    proof (cases "x = 1")
      case True
      have "procCount s 1 = 0" using q by (simp add: quiet_cpus_def NCPU_def)
      with True Cons.IH [of 0] show ?thesis by (auto simp: word_gt_0)
    next
      case False
      with Cons show ?thesis by auto
    qed
  qed simp
  from this [of "[0..<NCPU]" "of_nat NPROC"] show ?thesis by (simp add: leastUsedCpu_def NCPU_def)
qed

lemma quiet_balance [quiet_ops]: "quiet_cpus s \<Longrightarrow> okres UNIV (balance i s) quiet_cpus"
  using quiet_least [of s]
  by (auto simp: balance_def count_up_def cpu_at_def runnable_of_def Let_def NCPU_def intro!: quiet_ops)
    (auto simp: quiet_cpus_def set_proc_def)

lemma quiet_runnable_of:
  assumes "quiet_cpus s" "i < NPROC"
  shows "runnable_of (cpu_num (procs s i)) = Inr (RunnableL 0)"
  using assms by (simp add: quiet_cpus_def runnable_of_def NCPU_def)

lemma quiet_wakeup_one [quiet_ops]: "quiet_cpus s \<Longrightarrow> okres UNIV (wakeup_one b ch i s) quiet_cpus"
  unfolding wakeup_one_def
  by (intro quiet_binds(3) quiet_bind [where f = "release_proc i"])
    (auto simp: Let_def intro!: quiet_binds quiet_ops)

lemma quiet_wakeup [quiet_ops]: "quiet_cpus s \<Longrightarrow> okres UNIV (wakeup K c ch s) quiet_cpus"
  unfolding wakeup_def
  by (rule okres_for_each [where P = "\<lambda>_. quiet_cpus"]) (auto intro!: quiet_ops)

lemma quiet_kill_one:
  "quiet_cpus s \<Longrightarrow> i < NPROC \<Longrightarrow> okres UNIV (kill_one i s) quiet_cpus"
  unfolding kill_one_def Let_def
  by (auto simp: runnable_of_def quiet_cpus_def set_proc_def intro!: quiet_binds quiet_ops)

lemma quiet_kill_loop:
  "quiet_cpus s \<Longrightarrow> set xs \<subseteq> {..<NPROC} \<Longrightarrow> okres UNIV (kill_loop xs n s) (\<lambda>(r, s'). quiet_cpus s')"
proof (induction xs arbitrary: s)
  case (Cons i xs)
  then show ?case
    by (auto intro!: quiet_binds quiet_bind [OF quiet_kill_one] Cons.IH)
qed simp

lemma quiet_back [quiet_ops]: "quiet_cpus s \<Longrightarrow> okres UNIV (scheduler_back c p s) quiet_cpus"
  unfolding scheduler_back_def by (intro quiet_ops)

lemma quiet_curproc:
  assumes "quiet_cpus s" "\<And>p. p < NPROC \<Longrightarrow> okres UNIV (f p) P"
  shows "okres UNIV (rbind (curproc c s) f) P"
  using assms by (auto simp: curproc_def myproc_def quiet_cpus_def split: option.split)

lemma quiet_yield: "quiet_cpus s \<Longrightarrow> okres UNIV (sys_yield c s) quiet_cpus"
  unfolding sys_yield_def yield_out_def rbind_assoc Let_def
  by (auto simp: rbind_assoc quiet_runnable_of quiet_ops intro!: quiet_curproc quiet_binds quiet_ops)

lemma quiet_sleep [quiet_ops]: "quiet_cpus s \<Longrightarrow> okres UNIV (sys_sleep c ch lk s) quiet_cpus"
  unfolding sys_sleep_def sleep_out_def rbind_assoc Let_def
  by (auto simp: rbind_assoc intro!: quiet_curproc quiet_binds quiet_ops)

lemma quiet_pick:
  assumes "quiet_cpus s" "c < NCPU"
  shows "okres UNIV (scheduler_pick c s) (\<lambda>(r, s'). quiet_cpus s')"
proof (cases "c = 0")
  case True
  have hart: "quiet_cpus (set_hart 0 (cproc_update (\<lambda>_. Some p)) s)" if "quiet_cpus s" "p < NPROC"
    for p and s :: "'a sstate_scheme"
    using that by (auto simp: quiet_cpus_def set_hart_def)
  have pa: "okres UNIV (rbind (proc_at i) f) P" if "\<And>p. p < NPROC \<Longrightarrow> okres UNIV (f p) P"
    for i and f :: "nat \<Rightarrow> (nat option \<times> 'a sstate_scheme) res" and P
    using that by (auto simp: proc_at_def)
  from assms True show ?thesis
    unfolding scheduler_pick_def Let_def
    by (auto intro!: pa quiet_binds(1-8) quiet_ops hart)
next
  case False
  then have "first (lists s (RunnableL c)) = -1" using assms by (simp add: quiet_cpus_def)
  then have "\<not> first (lists (set_llock (RunnableL c) b s) (RunnableL c)) \<ge> 0" for b
    by (simp add: set_llock_def)
  moreover have "quiet_cpus (set_llock (RunnableL c) b s)" for b
    using quiet_frame [OF assms(1)] by simp
  ultimately show ?thesis
    unfolding scheduler_pick_def acquire_list_def
    by (auto simp: Let_def rbind_assoc intro!: value_binds(3) quiet_binds)
qed

lemma quiet_dispatch: "quiet_cpus s \<Longrightarrow> c < NCPU \<Longrightarrow> okres UNIV (sys_dispatch c s) quiet_cpus"
  unfolding sys_dispatch_def
  by (rule okres_bind [OF quiet_pick]) (auto intro!: quiet_ops split: option.split)

lemma quiet_resume: "quiet_cpus s \<Longrightarrow> c < NCPU \<Longrightarrow> okres UNIV (sys_resume c ie lk s) quiet_cpus"
  unfolding sys_resume_def sleep_in_def
  by (rule okres_bind [OF quiet_pick]) (auto simp: Let_def rbind_assoc intro!: quiet_binds quiet_ops split: option.split)

lemma quiet_reparent [quiet_ops]: "quiet_cpus s \<Longrightarrow> okres UNIV (reparent K c p s) quiet_cpus"
  unfolding reparent_def
  by (rule okres_for_each [where P = "\<lambda>_. quiet_cpus"]) (auto simp: Let_def intro!: quiet_ops)

lemma quiet_exit: "quiet_cpus s \<Longrightarrow> okres UNIV (sys_exit K c status s) quiet_cpus"
  unfolding sys_exit_def exit_rest_def rbind_assoc Let_def
  by (auto simp: rbind_assoc intro!: quiet_curproc quiet_binds quiet_bind [OF quiet_reparent] quiet_bind [OF quiet_wakeup] quiet_ops)

lemma quiet_free_memory: "quiet_cpus s \<Longrightarrow> okres UNIV (free_memory i s) quiet_cpus"
proof -
  assume q: "quiet_cpus s"
  have "okres UNIV (if trapframe (procs s i) \<noteq> 0
            then rbind (kfree (trapframe (procs s i)) (km s)) (\<lambda>k. Inr (s\<lparr>km := k\<rparr>)) else Inr s) quiet_cpus"
    using q by (auto intro!: value_bind quiet_ops)
  then show ?thesis
    unfolding free_memory_def
    by (rule quiet_bind) (auto simp: Let_def intro!: quiet_binds quiet_ops)
qed

lemma quiet_freeproc [quiet_ops]: "quiet_cpus s \<Longrightarrow> okres UNIV (freeproc i s) quiet_cpus"
  unfolding freeproc_split Let_def
  by (auto intro!: quiet_bind [OF quiet_free_memory] quiet_binds quiet_ops)

lemma quiet_allocproc:
  assumes "quiet_cpus s"
  shows "okres UNIV (allocproc K s) (\<lambda>(r, s'). quiet_cpus s')"
proof -
  have pid: "okres UNIV (rbind (allocpid s) f) P"
    if "quiet_cpus s" "\<And>n s'. quiet_cpus s' \<Longrightarrow> okres UNIV (f (n, s')) P" for s :: "'a sstate_scheme"
      and f :: "_ \<Rightarrow> (nat option \<times> 'a sstate_scheme) res" and P
    using that(1) by (auto simp: allocpid_def Let_def rbind_assoc intro!: value_binds(3,4) that(2) quiet_ops)
  from assms show ?thesis
    unfolding allocproc_def Let_def
    by (auto intro!: pid quiet_binds quiet_bind [OF quiet_freeproc] quiet_ops)
qed

lemma quiet_wait_scan:
  "quiet_cpus s \<Longrightarrow> okres UNIV (wait_scan xs p a hk s) (\<lambda>(r, s'). quiet_cpus s')"
proof (induction xs arbitrary: s hk a)
  case (Cons i xs)
  from Cons.prems show ?case
    by (auto simp: Let_def rbind_assoc intro!: quiet_binds quiet_bind [OF quiet_freeproc] quiet_ops Cons.IH)
qed simp

lemma quiet_wait: "quiet_cpus s \<Longrightarrow> okres UNIV (sys_wait c a s) (\<lambda>(r, s'). quiet_cpus s')"
  unfolding sys_wait_def wait_start_def wait_body_def sleep_out_def
  by (auto simp: rbind_assoc Let_def intro!: quiet_curproc quiet_binds okres_bind [OF quiet_wait_scan]
      quiet_bind [OF quiet_back] quiet_ops split: sum.split)

lemma quiet_fork:
  assumes "quiet_cpus s" "p < NPROC"
  shows "okres UNIV (fork_publish K p x s) quiet_cpus"
proof -
  have p: "runnable_of (cpu_num (procs s p)) = Inr (RunnableL 0)" if "quiet_cpus s" for s :: "'a sstate_scheme"
    using that assms(2) by (rule quiet_runnable_of)
  have body: "okres UNIV (if blncflg K then balance x (set_proc x (state_update (\<lambda>_. RUNNABLE)) s)
      else rbind (runnable_of (cpu_num (procs (set_proc x (state_update (\<lambda>_. RUNNABLE)) s) p))) (\<lambda>l.
        add_proc_to_list l (index_in_proc (procs (set_proc x (state_update (\<lambda>_. RUNNABLE)) s) x))
          (set_proc x (state_update (\<lambda>_. RUNNABLE)) s))) quiet_cpus" if "quiet_cpus s" for s :: "'a sstate_scheme"
    using that p [of "set_proc x (state_update (\<lambda>_. RUNNABLE)) s"] quiet_sets(1) [OF that, of "state_update (\<lambda>_. RUNNABLE)" x]
    by (simp add: quiet_ops del: procs_set_proc)
  from assms(1) show ?thesis
    unfolding fork_publish_def Let_def
    by - (rule quiet_binds, (assumption | rule quiet_bind [OF body] quiet_binds(3-6) quiet_ops | simp)+)
qed

lemma quiet_userinit: "quiet_cpus s \<Longrightarrow> okres UNIV (userinit_publish x s) quiet_cpus"
  unfolding userinit_publish_def Let_def by (auto intro!: quiet_binds quiet_ops)

lemma quiet_inner: "quiet_cpus s \<Longrightarrow> inner f \<Longrightarrow> quiet_cpus (set_proc i f s)"
  by (rule quiet_sets(1)) (simp_all add: inner_def)

lemma quiet_boot:
  assumes "boot s0" "procinit s0 = Inr s"
  shows "quiet_cpus s"
proof -
  have r: "rep s (init_view NPROC (view s0)) (init_queues NPROC)
      (s0\<lparr>procCount := procCount (initlists s0), pid_lock := False, wait_lock := False\<rparr>)"
    using okres_InrD [OF procinit_rep [OF assms(1)] assms(2)] .
  have "first (lists s (RunnableL c)) = -1" if "c < NCPU" for c
    using first_rep(1) [OF r, of "RunnableL c"] that by (simp add: init_queues_def)
  moreover have "cpu_num (procs s i) = 0" if "i < NPROC" for i
    using rep_sel(8) [OF r, of i] that by (simp add: init_view_def init_entry_def)
  ultimately show ?thesis
    using repD(4,11) [OF r] assms(1) by (simp add: quiet_cpus_def initlists_def boot_def)
qed

lemma quiet_kstep:
  assumes "quiet_cpus s" "kstep K s s'"
  shows "quiet_cpus s'"
  using assms(2,1)
proof (induction rule: kstep.induct)
  case (sleep c s p lk s1 ch s')
  from okres_InrD [OF quiet_prims(5) [OF sleep.prems] sleep.hyps(2)] sleep.hyps(3) show ?case
    using okres_InrD [OF quiet_sleep] by blast
next
  case (kill n s r s')
  have "okres UNIV (kill n s) (\<lambda>(r, s'). quiet_cpus s')"
    unfolding kill_def by (rule quiet_kill_loop [OF kill.prems]) auto
  from okres_InrD [OF this kill.hyps] show ?case by simp
next
  case (wait c s p a rw s')
  from okres_InrD [OF quiet_wait [OF wait.prems] wait.hyps(2)] show ?case by simp
next
  case (fork c s p x s1 f k s')
  have "quiet_cpus s1" using okres_InrD [OF quiet_allocproc [OF fork.prems] fork.hyps(2)] by simp
  then have "quiet_cpus (set_proc x f (s1\<lparr>km := k\<rparr>))" by (intro quiet_inner quiet_ops fork.hyps(3))
  moreover have "p < NPROC" using fork.prems fork.hyps(1) by (simp add: quiet_cpus_def myproc_def)
  ultimately show ?case using okres_InrD [OF quiet_fork fork.hyps(4)] by blast
next
  case (userinit s x s1 f k s')
  have "quiet_cpus s1" using okres_InrD [OF quiet_allocproc [OF userinit.prems] userinit.hyps(2)] by simp
  then have "quiet_cpus ((s1\<lparr>initproc := Some x\<rparr>)\<lparr>km := k\<rparr>)" by (intro quiet_ops)
  then have "quiet_cpus (set_proc x f (s1\<lparr>initproc := Some x, km := k\<rparr>))"
    by (intro quiet_inner userinit.hyps(3)) simp
  then show ?case using okres_InrD [OF quiet_userinit userinit.hyps(4)] by blast
next
  case (user c s p f k)
  then show ?case by (intro quiet_inner quiet_ops)
qed (blast intro: okres_InrD quiet_yield quiet_dispatch quiet_resume quiet_wakeup quiet_exit)+

lemma kreach_quiet: "kreach K s \<Longrightarrow> quiet_cpus s"
  by (induction rule: kreach.induct) (blast intro: quiet_boot quiet_kstep)+

section \<open>Properties\<close>

text \<open>
  C10: Only CPU 0 ever gets work, with BLNCFLG and without. In every reachable state every
  process has \<open>cpu_num\<close> 0, the queue of every other CPU is empty, no process runs there and
  its process count is 0. \<open>leastUsedCpu\<close>, which returns the smallest count and not the
  CPU that has it, therefore always returns 0, and the queue that \<open>fork\<close> and \<open>wakeup\<close> then choose under
  BLNCFLG is always that of CPU 0.
\<close>
theorem only_cpu_zero_works:
  assumes "kreach K s"
  shows "(\<forall>i < NPROC. cpu_num (procs s i) = 0) \<and>
    (\<forall>c. 0 < c \<and> c < NCPU \<longrightarrow>
       contents s (RunnableL c) = [] \<and> myproc c s = None \<and> cpu_process_count (int c) s = Inr 0) \<and>
    leastUsedCpu s = 0"
proof -
  have q: "quiet_cpus s" using assms by (rule kreach_quiet)
  have r: "rep s (view s) (contents s) s" using kreach_kinv [OF assms] by (simp add: kinv_def rep_self)
  have "contents s (RunnableL c) = [] \<and> myproc c s = None \<and> cpu_process_count (int c) s = Inr 0"
    if "0 < c" "c < NCPU" for c
  proof (intro conjI)
    show "contents s (RunnableL c) = []"
      using first_rep(1) [OF r, of "RunnableL c"] q that
      by (cases "contents s (RunnableL c)") (auto simp: quiet_cpus_def)
    show "myproc c s = None" using q that by (cases "myproc c s") (auto simp: quiet_cpus_def myproc_def)
    show "cpu_process_count (int c) s = Inr 0"
      using q that by (simp add: quiet_cpus_def cpu_process_count_def cpu_at_def)
  qed
  with q quiet_least [OF q] show ?thesis by (simp add: quiet_cpus_def)
qed

theorem only_cpu_zero_works_witness:
  "\<exists>s :: sstate. kreach (sample_params\<lparr>blncflg := True\<rparr>) s \<and> contents s (RunnableL 3) = [] \<and> leastUsedCpu s = 0"
proof -
  obtain s :: sstate where s: "kreach (sample_params\<lparr>blncflg := True\<rparr>) s" using booted by blast
  with only_cpu_zero_works [OF s] show ?thesis by (auto simp: NCPU_def)
qed

end
