(* ===== verification/Defects.thy ===== *)
theory Defects
  imports Waiting Onecpu
begin

text \<open>
  \<open>kill\<close>, and places where the process code of kernel/proc.c does not do what it means to: the
  failure path of \<open>allocproc\<close>, \<open>kill\<close> of pid 0, and the order in which \<open>allocproc\<close> takes its two
  locks.
\<close>

section \<open>allocproc without memory\<close>

lemma allocproc_no_page:
  assumes k: "kinv s" and x: "contents s UnusedL = x # xs" and m: "kalloc (km s) = Inr (0, km s)"
    and n: "nextpid s < 2 ^ 31 - 1" and g: "pagetable (procs s x) = 0"
  shows "allocproc K s = Inl (if contents s ZombieL = [] then Panic ''Trying to remove from an empty list''
    else Undef ''proc[]'')"
proof -
  have r: "rep s (view s) (contents s) s" "table_inv (view s) (contents s) s" "plocks_free (view s)" "\<not> pid_lock s"
    using k by (simp_all add: kinv_def rep_self locks_free_def)
  have xN: "x < NPROC" using first_rep(3) [OF r(1), of UnusedL x] x by simp
  note ti = table_invD [OF r(2) xN]
  have lx: "\<not> plock (view s x)" using r(3) by (simp add: plocks_free_def)
  have nz: "x \<notin> set (contents s ZombieL)"
    using plists_okD(5) [OF repD(1) [OF r(1)], of UnusedL ZombieL] x by auto
  let ?s1 = "set_proc x (plock_update (\<lambda>_. True)) s"
  let ?s2 = "?s1\<lparr>nextpid := nextpid s + 1, pid_lock := False\<rparr>"
  let ?s3 = "set_proc x (pid_update (\<lambda>_. nextpid s)) ?s2"
  have fl: "nextpid ?s1 = nextpid s" "\<not> pid_lock ?s1" using r(4) by (simp_all add: set_proc_def)
  then have pid: "allocpid ?s1 = Inr (nextpid s, ?s2)" using n by (simp add: allocpid_def Let_def)
  have r3: "rep ?s3 ((view s)(x := (view s x)\<lparr>plock := True, pid := nextpid s\<rparr>)) (contents s)
      (s\<lparr>nextpid := nextpid s + 1, pid_lock := False\<rparr>)"
    using rep_set [OF rep_pid [OF rep_set [OF r(1) safe_updates(1) [of "\<lambda>_. True"], of x], where n = "nextpid s + 1" and b = False]
        safe_updates(5) [of "\<lambda>_. nextpid s"], of x]
    by simp
  obtain s4 where s4: "remove_proc_from_list UnusedL (int x) ?s3 = Inr s4"
      "rep s4 ((view s)(x := (view s x)\<lparr>plock := True, pid := nextpid s\<rparr>)) ((contents s)(UnusedL := remove1 x (contents s UnusedL)))
        (s\<lparr>nextpid := nextpid s + 1, pid_lock := False\<rparr>)"
    using okres_total [OF rep_remove [OF r3, of UnusedL x "{}"]] x by auto
  let ?s5 = "set_proc x (trapframe_update (\<lambda>_. 0)) ((set_proc x (state_update (\<lambda>_. USED)) s4)\<lparr>km := km s\<rparr>)"
  have r5: "rep ?s5 ((view s)(x := (view s x)\<lparr>plock := True, pid := nextpid s, state := USED, trapframe := 0\<rparr>))
      ((contents s)(UnusedL := remove1 x (contents s UnusedL))) (s\<lparr>nextpid := nextpid s + 1, pid_lock := False, km := km s\<rparr>)"
    using rep_set [OF rep_km [OF rep_set [OF s4(2) safe_updates(2) [of "\<lambda>_. USED"], of x], of "km s"]
        safe_updates(10) [of "\<lambda>_. 0"], of x]
    by simp
  have km: "km (set_proc x (state_update (\<lambda>_. USED)) s4) = km s"
    using repD(10) [OF s4(2)] by (simp add: set_proc_def)
  have "free_memory x ?s5 = Inr (set_proc x (trapframe_update (\<lambda>_. 0)) ?s5)"
    using rep_sel(13) [OF r5, of x] g by (simp add: free_memory_def Let_def view_def)
  moreover have "set_proc x (trapframe_update (\<lambda>_. 0)) ?s5 = ?s5" by (simp add: set_proc_def)
  ultimately have fm: "free_memory x ?s5 = Inr ?s5" by simp
  have ix: "index_in_proc (procs ?s5 x) = int x" using rep_sel(9) [OF r5, of x] ti(1) by simp
  have z: "contents ?s5 ZombieL = contents s ZombieL" using repD(3) [OF r5, of ZombieL] by simp
  have "freeproc x ?s5 = Inl (if contents s ZombieL = [] then Panic ''Trying to remove from an empty list''
    else Undef ''proc[]'')"
    using remove_not_in [OF repD(1) [OF r5], of ZombieL x] nz z by (simp add: freeproc_split fm ix del: procs_set_proc)
  then show ?thesis
    unfolding allocproc_first [OF r(1) x lx] pid by (simp add: Let_def s4(1) km m)
qed

text \<open>
  C8: \<open>allocproc\<close> never returns 0 for want of memory, although its comment says that it returns 0
  "if a memory allocation fails": whenever it returns 0, \<open>unusedList\<close> was empty. With an unused
  slot (whose page table pointer is null, as \<open>freeproc\<close> leaves it), a pid left and an empty page pool it calls
  \<open>freeproc\<close>, which takes the new process off \<open>zombieList\<close>, where it is not: it panics if
  \<open>zombieList\<close> is empty, and otherwise indexes \<open>proc[-1]\<close>.
\<close>
theorem allocproc_out_of_memory:
  assumes "kinv s"
  shows "(\<forall>s'. allocproc K s = Inr (None, s') \<longrightarrow> contents s UnusedL = [] \<and> s' = s) \<and>
    (contents s UnusedL \<noteq> [] \<and> kalloc (km s) = Inr (0, km s) \<and> nextpid s < 2 ^ 31 - 1 \<and>
     pagetable (procs s (hd (contents s UnusedL))) = 0 \<longrightarrow>
       allocproc K s = Inl (if contents s ZombieL = [] then Panic ''Trying to remove from an empty list''
         else Undef ''proc[]''))"
proof -
  have r: "rep s (view s) (contents s) s" "table_inv (view s) (contents s) s" "plocks_free (view s)"
      "\<not> pid_lock s"
    using assms by (simp_all add: kinv_def rep_self locks_free_def)
  have "contents s UnusedL = [] \<and> s' = s" if "allocproc K s = Inr (None, s')" for s'
    using okres_InrD [OF allocproc_rep [OF r] that] by (simp add: allocated_def)
  moreover have "allocproc K s = Inl (if contents s ZombieL = [] then Panic ''Trying to remove from an empty list''
         else Undef ''proc[]'')"
    if "contents s UnusedL \<noteq> [] \<and> kalloc (km s) = Inr (0, km s) \<and> nextpid s < 2 ^ 31 - 1 \<and>
     pagetable (procs s (hd (contents s UnusedL))) = 0"
  proof (cases "contents s UnusedL")
    case (Cons x xs)
    with that show ?thesis by (intro allocproc_no_page [OF assms Cons]) simp_all
  qed (use that in simp)
  ultimately show ?thesis by blast
qed

theorem allocproc_out_of_memory_witness:
  "\<exists>s :: sstate. kinv s \<and> contents s UnusedL \<noteq> [] \<and> kalloc (km s) = Inr (0, km s) \<and>
     allocproc sample_params s = Inl (Panic ''Trying to remove from an empty list'')"
proof -
  obtain s :: sstate where p: "procinit boot_state = Inr s" and s: "kinv s" using booted by blast
  let ?s = "s\<lparr>km := bss_kmem\<rparr>"
  have r0: "rep s (init_view NPROC (view boot_state)) (init_queues NPROC) (boot_state\<lparr>procCount := procCount (initlists boot_state),
      pid_lock := False, wait_lock := False\<rparr>)"
    using okres_InrD [OF procinit_rep [OF boot_boot_state] p] .
  have r: "rep ?s (init_view NPROC (view boot_state)) (init_queues NPROC) (boot_state\<lparr>procCount := procCount (initlists boot_state),
      pid_lock := False, wait_lock := False, km := bss_kmem\<rparr>)"
    by (rule rep_km [OF r0])
  have k: "kinv ?s"
    using kinv_rep [OF rep_km [OF rep_self, of s bss_kmem]] s by (simp add: kinv_def locks_free_def)
  have c: "contents ?s UnusedL = [0..<NPROC]" "contents ?s ZombieL = []"
    using repD(3) [OF r, of UnusedL] repD(3) [OF r, of ZombieL] by (simp_all add: init_queues_def)
  have u: "contents ?s UnusedL \<noteq> []" "hd (contents ?s UnusedL) = 0" by (simp_all add: c NPROC_def)
  have m: "kalloc (km ?s) = Inr (0, km ?s)" by (simp add: kalloc_eq bss_kmem_def)
  have "nextpid ?s < 2 ^ 31 - 1" using repD(6) [OF r] by (simp add: boot_state_def)
  moreover have "pagetable (procs ?s 0) = 0"
    using rep_sel(13) [OF r, of 0] by (simp add: init_view_def init_entry_def view_def boot_state_def bss_proc_def)
  ultimately have "allocproc sample_params ?s = Inl (Panic ''Trying to remove from an empty list'')"
    using allocproc_out_of_memory [OF k, of sample_params] u m c(2) by simp
  with k m u show ?thesis by blast
qed

section \<open>kill\<close>

lemma kill_found:
  assumes "kinv s"
  shows "\<exists>r s'. kill n s = Inr (r, s') \<and> kinv s' \<and>
    (case find (\<lambda>i. pid (procs s i) = n) [0..<NPROC] of
       None \<Rightarrow> r = -1 \<and> view s' = view s
     | Some i \<Rightarrow> r = 0 \<and> view s' = kill_view i (view s))"
proof -
  have r: "rep s (view s) (contents s) s" "table_inv (view s) (contents s) s" "plocks_free (view s)"
    using assms by (simp_all add: kinv_def rep_self)
  have f: "find (\<lambda>i. pid (view s i) = n) [0..<NPROC] = find (\<lambda>i. pid (procs s i) = n) [0..<NPROC]"
    by (simp add: view_def)
  have N: "set [0..<NPROC] \<subseteq> {..<NPROC}" by auto
  obtain x where x: "kill n s = Inr x" "case x of (res, s') \<Rightarrow>
      case find (\<lambda>i. pid (view s i) = n) [0..<NPROC] of
        None \<Rightarrow> res = -1 \<and> rep s' (view s) (contents s) s
      | Some i \<Rightarrow> res = 0 \<and> rep s' (kill_view i (view s)) (kill_queues i (view s) (contents s)) s"
    using okres_total [OF kill_loop_rep [OF r N]] unfolding kill_def by blast
  have "kinv (snd x)" using okres_InrD [OF kinv_kill [OF assms] x(1)] by (simp add: split_beta)
  with x show ?thesis
    unfolding f by (cases x; cases "find (\<lambda>i. pid (procs s i) = n) [0..<NPROC]") (auto simp: rep_def)
qed

text \<open>
  C7: \<open>kill\<close> of a positive pid: it returns 0 exactly if a process in use has that pid; then that
  process is marked killed, and made runnable if it was asleep, and no other process is
  touched. Otherwise it returns -1 and changes no process. The invariant is kept.
\<close>
theorem kill_by_pid:
  assumes "kinv s" "0 < n"
  shows "\<exists>r s'. kill n s = Inr (r, s') \<and> kinv s' \<and>
    (r = -1 \<and> view s' = view s \<and> (\<forall>i < NPROC. pid (procs s i) \<noteq> n) \<or>
     r = 0 \<and> (\<exists>i < NPROC. state (procs s i) \<noteq> UNUSED \<and> pid (procs s i) = n \<and>
       view s' = (view s)(i := (view s i)\<lparr>killed := True,
         state := if state (procs s i) = SLEEPING then RUNNABLE else state (procs s i)\<rparr>)))"
proof -
  obtain r s' where k: "kill n s = Inr (r, s')" "kinv s'"
      "case find (\<lambda>i. pid (procs s i) = n) [0..<NPROC] of
         None \<Rightarrow> r = -1 \<and> view s' = view s
       | Some i \<Rightarrow> r = 0 \<and> view s' = kill_view i (view s)"
    using kill_found [OF assms(1)] by blast
  have pd: "pids (view s) (nextpid s)" using assms(1) by (simp add: kinv_def table_inv_def)
  show ?thesis
  proof (cases "find (\<lambda>i. pid (procs s i) = n) [0..<NPROC]")
    case None
    then have "\<forall>i < NPROC. pid (procs s i) \<noteq> n" by (auto simp: find_None_iff)
    with k None show ?thesis by auto
  next
    case (Some i)
    then have i: "i < NPROC" "pid (procs s i) = n" by (auto simp: find_Some_iff)
    then have "state (procs s i) \<noteq> UNUSED" using pidsD(2) [OF pd i(1)] assms(2) by (auto simp: view_def)
    moreover have "view s' = (view s)(i := (view s i)\<lparr>killed := True,
         state := if state (procs s i) = SLEEPING then RUNNABLE else state (procs s i)\<rparr>)"
      using k(3) Some by (simp add: kill_view_def view_def)
    moreover have "r = 0" using k(3) Some by simp
    ultimately show ?thesis using k(1,2) i by blast
  qed
qed

theorem kill_by_pid_witness:
  "\<exists>(s :: sstate) s'. kinv s \<and> kill 5 s = Inr (-1, s') \<and> view s' = view s"
proof -
  obtain s :: sstate where s: "kinv s" "contents s UnusedL = [0..<NPROC]" using booted by blast
  have un: "state (procs s i) = UNUSED" if "i < NPROC" for i
    using kinv_on(1) [OF s(1) that] s(2) that by simp
  obtain r s' where "kill 5 s = Inr (r, s')" "r = -1 \<and> view s' = view s \<or>
      r = 0 \<and> (\<exists>i < NPROC. state (procs s i) \<noteq> UNUSED)"
    using kill_by_pid [OF s(1), of 5] by auto
  with un s(1) show ?thesis by blast
qed

text \<open>
  C11: \<open>kill(0)\<close> reports success whenever a slot is unused: it takes the first unused slot of the table
  for a process with pid 0, sets its \<open>killed\<close> flag and changes nothing else. \<open>allocproc\<close> does not clear the
  flag: if it gives out that slot next, the new process starts out killed.
\<close>
theorem kill_zero_marks_unused_slot:
  assumes "kinv s" "contents s UnusedL \<noteq> []"
  shows "\<exists>i s'. find (\<lambda>i. state (procs s i) = UNUSED) [0..<NPROC] = Some i \<and> kill 0 s = Inr (0, s') \<and>
    view s' = (view s)(i := (view s i)\<lparr>killed := True\<rparr>) \<and>
    (\<forall>K s''. allocproc K s' = Inr (Some i, s'') \<longrightarrow> state (procs s'' i) = USED \<and> killed (procs s'' i))"
proof -
  obtain r s' where k: "kill 0 s = Inr (r, s')" "kinv s'"
      "case find (\<lambda>i. pid (procs s i) = 0) [0..<NPROC] of
         None \<Rightarrow> r = -1 \<and> view s' = view s
       | Some i \<Rightarrow> r = 0 \<and> view s' = kill_view i (view s)"
    using kill_found [OF assms(1)] by blast
  have pd: "pids (view s) (nextpid s)" using assms(1) by (simp add: kinv_def table_inv_def)
  have r: "rep s (view s) (contents s) s" using assms(1) by (simp add: kinv_def rep_self)
  have un: "pid (procs s j) = 0 \<longleftrightarrow> state (procs s j) = UNUSED" if "j < NPROC" for j
    using pidsD(2,3) [OF pd that] by (cases "state (procs s j) = UNUSED") (simp_all add: view_def)
  obtain j where j: "j \<in> set (contents s UnusedL)" using assms(2) by (cases "contents s UnusedL") auto
  have jN: "j < NPROC" using first_rep(3) [OF r, of UnusedL j] j by simp
  have "state (procs s j) = UNUSED" using kinv_on(1) [OF assms(1) jN] j by simp
  then obtain i where i: "find (\<lambda>i. state (procs s i) = UNUSED) [0..<NPROC] = Some i"
    using jN by (cases "find (\<lambda>i. state (procs s i) = UNUSED) [0..<NPROC]") (auto simp: find_None_iff)
  have f: "find (\<lambda>i. pid (procs s i) = 0) [0..<NPROC] = find (\<lambda>i. state (procs s i) = UNUSED) [0..<NPROC]"
    by (rule find_cong) (use un in auto)
  have st: "state (procs s i) = UNUSED" using i by (auto simp: find_Some_iff)
  have eq: "(view s i)\<lparr>killed := True, state := UNUSED\<rparr> = (view s i)\<lparr>killed := True\<rparr>"
    using st by (cases "view s i") (simp add: view_def, metis core_sel(3) proc.select_convs(3))
  have v0: "view s' = (view s)(i := (view s i)\<lparr>killed := True, state := UNUSED\<rparr>)" and r0: "r = 0"
    using k(3) st unfolding f i by (simp_all add: kill_view_def view_def)
  note v = v0 [unfolded eq] r0
  have "state (procs s'' i) = USED \<and> killed (procs s'' i)" if a: "allocproc K s' = Inr (Some i, s'')" for K s''
  proof -
    have r': "rep s' (view s') (contents s') s'" "table_inv (view s') (contents s') s'" "plocks_free (view s')"
        "\<not> pid_lock s'"
      using k(2) by (simp_all add: kinv_def rep_self locks_free_def)
    have "born (view s') (contents s') s' i s''"
      using okres_InrD [OF allocproc_rep [OF r'] a] by (simp add: allocated_def)
    then obtain xs t g pc k' where "rep s'' ((view s')(i := (view s' i)\<lparr>plock := True, pid := nextpid s', state := USED,
        trapframe := t, pagetable := g, pcontext := pc\<rparr>)) ((contents s')(UnusedL := xs)) (s'\<lparr>nextpid := nextpid s' + 1, km := k'\<rparr>)"
      unfolding born_def by blast
    from rep_sel(3,5) [OF this, of i] v(1) show ?thesis by simp
  qed
  with k(1) v i show ?thesis by blast
qed

theorem kill_zero_marks_unused_slot_witness:
  "\<exists>(s :: sstate) s'. kinv s \<and> state (procs s 0) = UNUSED \<and> kill 0 s = Inr (0, s') \<and> killed (procs s' 0)"
proof -
  obtain s :: sstate where s: "kinv s" "contents s UnusedL = [0..<NPROC]" using booted by blast
  then have ne: "contents s UnusedL \<noteq> []" by (simp add: NPROC_def)
  have un: "state (procs s 0) = UNUSED" using kinv_on(1) [OF s(1), of 0] s(2) by (simp add: NPROC_def)
  have N: "[0..<NPROC] = 0 # [1..<NPROC]" by (simp add: NPROC_def upt_rec)
  from kill_zero_marks_unused_slot [OF s(1) ne] obtain s' where "kill 0 s = Inr (0, s')"
      "view s' = (view s)(0 := (view s 0)\<lparr>killed := True\<rparr>)"
    unfolding N using un by auto
  moreover from this(2) have "killed (view s' 0)" by simp
  then have "killed (procs s' 0)" by (simp add: view_def)
  ultimately show ?thesis using s(1) un by blast
qed

section \<open>The locks of allocproc\<close>

text \<open>
  The lock operations of \<open>allocproc\<close>, in program order, on the path that finds slot \<open>i\<close> first on \<open>unusedList\<close>:
  the two of the search, those of \<open>allocpid\<close> and those of \<open>remove_proc_from_list\<close> for the
  first element. Two harts run it with the locks of spinlock.c.
\<close>

datatype alloc_lock = UnusedLock | ProcLock nat | PidLock | StateLock nat

datatype lock_op = Acquire alloc_lock | Release alloc_lock

definition allocproc_locks :: "nat \<Rightarrow> lock_op list" where
  "allocproc_locks i =
     [Acquire UnusedLock, Acquire (ProcLock i), Release UnusedLock,
      Acquire PidLock, Release PidLock,
      Acquire UnusedLock, Acquire (StateLock i), Release (StateLock i), Release UnusedLock]"

fun lock_exec :: "nat \<Rightarrow> lock_op \<Rightarrow> alloc_lock lockst \<Rightarrow> alloc_lock lockst res" where
  "lock_exec c (Acquire l) s = acquire c l s"
| "lock_exec c (Release l) s = release c l s"

inductive alloc_race :: "nat \<Rightarrow> (nat \<Rightarrow> lock_op list) \<Rightarrow> alloc_lock lockst \<Rightarrow> bool" for i :: nat where
  start: "alloc_race i (\<lambda>c. if c < 2 then allocproc_locks i else [])
     \<lparr>locks = (\<lambda>_. \<lparr>locked = 0, lname = [], lcpu = None\<rparr>), harts = (\<lambda>_. \<lparr>noff = 0, intena = False, sie = True\<rparr>)\<rparr>"
| step: "alloc_race i todo s \<Longrightarrow> todo c = x # xs \<Longrightarrow> lock_exec c x s = Inr s' \<Longrightarrow>
    alloc_race i (todo(c := xs)) s'"

lemmas lock_code = acquire_def acquire_enter_def release_def holding_def push_off_def pop_off_def
  test_and_set_def set_cpu_def lock_release_def

fun lock_run :: "nat \<Rightarrow> lock_op list \<Rightarrow> alloc_lock lockst \<Rightarrow> alloc_lock lockst res" where
  "lock_run c [] s = Inr s"
| "lock_run c (x # xs) s = rbind (lock_exec c x s) (lock_run c xs)"

lemma alloc_race_run:
  "alloc_race i todo s \<Longrightarrow> todo c = xs @ ys \<Longrightarrow> lock_run c xs s = Inr s' \<Longrightarrow>
   alloc_race i (todo(c := ys)) s'"
proof (induction xs arbitrary: todo s)
  case Nil
  then show ?case by (metis append_Nil fun_upd_triv lock_run.simps(1) sum.inject(2))
next
  case (Cons x xs)
  from Cons.prems(3) obtain s1 where s1: "lock_exec c x s = Inr s1" "lock_run c xs s1 = Inr s'"
    by (cases "lock_exec c x s") auto
  have "alloc_race i (todo(c := xs @ ys)) s1"
    by (rule alloc_race.step [OF Cons.prems(1) _ s1(1)]) (simp add: Cons.prems(2))
  from Cons.IH [OF this _ s1(2)] show ?case by (simp only: fun_upd_upd fun_upd_same)
qed


end
