(* ===== verification/Pagetable.thy ===== *)
theory Pagetable
  imports Vm
begin

text \<open>
  Correctness of kernel/vm.c. A page table denotes a partial map from virtual pages to
  entries (\<open>pte\<close>), read off the tree with \<open>node\<close>. \<open>table_ok\<close> says that the pages of the tree
  are distinct managed pages, none of them on the free list; \<open>walk\<close> and \<open>mappages\<close> keep it and
  change the map exactly as intended. \<open>user_ok\<close> adds that user pages are shared neither
  with the tree nor with one another; under it \<open>copyout\<close> and \<open>copyin\<close> write and read the
  memory that the user program sees (\<open>ubyte\<close>).
\<close>

section \<open>The tree of pages\<close>

definition child :: "mem \<Rightarrow> nat \<Rightarrow> nat \<Rightarrow> nat option" where
  "child m p i =
     (if load64 m (p + 8 * i) AND PTE_V \<noteq> 0 then Some (unat (PTE2PA (load64 m (p + 8 * i))))
      else None)"

fun node :: "mem \<Rightarrow> nat \<Rightarrow> nat list \<Rightarrow> nat option" where
  "node m p [] = Some p"
| "node m p (i # is) = (case child m p i of None \<Rightarrow> None | Some q \<Rightarrow> node m q is)"

definition path_ok :: "nat list \<Rightarrow> bool" where
  "path_ok is \<longleftrightarrow> length is \<le> 2 \<and> (\<forall>i \<in> set is. i < 512)"

definition table_ok :: "kmem \<Rightarrow> nat list \<Rightarrow> nat \<Rightarrow> bool" where
  "table_ok k ps pt \<longleftrightarrow>
     (\<forall>is a. path_ok is \<longrightarrow> node (ram k) pt is = Some a \<longrightarrow> managed (kend k) a \<and> a \<notin> set ps) \<and>
     (\<forall>is js a. path_ok is \<longrightarrow> path_ok js \<longrightarrow> node (ram k) pt is = Some a \<longrightarrow>
        node (ram k) pt js = Some a \<longrightarrow> is = js)"

definition idx :: "u64 \<Rightarrow> nat list" where
  "idx va = [unat (PX 2 va), unat (PX 1 va)]"

definition slot :: "mem \<Rightarrow> nat \<Rightarrow> u64 \<Rightarrow> nat" where
  "slot m pt va = (case node m pt (idx va) of None \<Rightarrow> 0 | Some p \<Rightarrow> p + 8 * unat (PX 0 va))"

definition pte :: "mem \<Rightarrow> nat \<Rightarrow> u64 \<Rightarrow> u64" where
  "pte m pt va =
     (case node m pt (idx va) of None \<Rightarrow> 0 | Some p \<Rightarrow> load64 m (p + 8 * unat (PX 0 va)))"

lemma node_append:
  "node m p (is @ [j]) = (case node m p is of None \<Rightarrow> None | Some a \<Rightarrow> child m a j)"
  by (induction "is" arbitrary: p) (auto split: option.splits)

lemma path_ok_idx [simp]: "path_ok (idx va)"
  using PX_lt [of 2 va] PX_lt [of 1 va] by (simp add: path_ok_def idx_def)

lemma path_ok_append: "path_ok (is @ [j]) \<longleftrightarrow> path_ok is \<and> length is \<le> 1 \<and> j < 512"
  by (auto simp: path_ok_def)

lemma table_okD:
  assumes "table_ok k ps pt" "path_ok is" "node (ram k) pt is = Some a"
  shows "managed (kend k) a" "a \<notin> set ps"
    "path_ok js \<Longrightarrow> node (ram k) pt js = Some a \<Longrightarrow> js = is"
  using assms unfolding table_ok_def by blast+

lemma table_ok_cong:
  "(\<And>js. path_ok js \<Longrightarrow> node (ram k') pt js = node (ram k) pt js) \<Longrightarrow> kend k' = kend k \<Longrightarrow>
     table_ok k' ps pt = table_ok k ps pt"
  unfolding table_ok_def by simp

lemma entry_apart:
  assumes "managed e a" "managed e b" "i < 512" "j < 512" "(a, i) \<noteq> (b, j)"
  shows "a + 8 * i + 8 \<le> b + 8 * j \<or> b + 8 * j + 8 \<le> a + 8 * i"
proof (cases "a = b")
  case True
  with assms show ?thesis by auto
next
  case False
  with assms(1,2) have "a + PGSIZE \<le> b \<or> b + PGSIZE \<le> a" by (rule managed_apart)
  with assms(3,4) show ?thesis by (auto simp: PGSIZE_def)
qed

section \<open>Walking without allocation\<close>

lemma walk_noalloc:
  assumes "va < MAXVA"
  shows "walk pt va False k = Inr (slot (ram k) pt va, k)"
  using assms
  by (auto simp: walk_def numeral_2_eq_2 slot_def idx_def child_def Let_def)

lemma slot_zero_iff:
  assumes "table_ok k ps pt" "0 < kend k"
  shows "slot (ram k) pt va = 0 \<longleftrightarrow> node (ram k) pt (idx va) = None"
  using table_okD(1) [OF assms(1) path_ok_idx, of va] assms(2)
  by (force simp: slot_def managed_def split: option.splits)

lemma PTE_V_zero: "(0 :: u64) AND PTE_V = 0"
  by simp

text \<open>\<open>walkaddr\<close> translates the pages that are mapped for the user, and only those.\<close>

definition user_page :: "mem \<Rightarrow> nat \<Rightarrow> u64 \<Rightarrow> u64 option" where
  "user_page m pt va =
     (if va < MAXVA \<and> pte m pt va AND PTE_V \<noteq> 0 \<and> pte m pt va AND PTE_U \<noteq> 0
      then Some (PTE2PA (pte m pt va)) else None)"

lemma walkaddr_eq:
  assumes "table_ok k ps pt" "0 < kend k"
  shows "walkaddr pt va k = Inr (case user_page (ram k) pt va of None \<Rightarrow> 0 | Some pa \<Rightarrow> pa)"
  using slot_zero_iff [OF assms, of va]
  by (auto simp: walkaddr_def walk_noalloc user_page_def not_le slot_def pte_def
      split: option.splits)

section \<open>Installing a page of the tree\<close>

lemma load64_install:
  assumes "managed e q" "managed e p" "managed e a" "i < 512" "j < 512" "p \<noteq> q"
    and out: "same_outside q m m1"
  shows "load64 (store64 (memset m1 q 0 PGSIZE) (p + 8 * i) v) (a + 8 * j) =
    (if (a, j) = (p, i) then v else if a = q then 0 else load64 m (a + 8 * j))"
proof (cases "(a, j) = (p, i)")
  case True
  then show ?thesis by simp
next
  case False
  then have 1: "load64 (store64 (memset m1 q 0 PGSIZE) (p + 8 * i) v) (a + 8 * j) =
      load64 (memset m1 q 0 PGSIZE) (a + 8 * j)"
    by (intro load64_store64_other entry_apart) (use assms in auto)
  show ?thesis
  proof (cases "a = q")
    case True
    with 1 False assms(5) show ?thesis
      by (auto simp: load64_memset_zero PGSIZE_def)
  next
    case aq: False
    then have "a + PGSIZE \<le> q \<or> q + PGSIZE \<le> a"
      by (intro managed_apart [OF assms(3,1)])
    then have ap: "a + 8 * j + 8 \<le> q \<or> q + PGSIZE \<le> a + 8 * j"
      using assms(5) by (auto simp: PGSIZE_def)
    have "load64 (memset m1 q 0 PGSIZE) (a + 8 * j) = load64 m1 (a + 8 * j)"
      using ap by (rule load64_memset_other)
    also have "\<dots> = load64 m (a + 8 * j)"
      using out ap by (rule same_outside_load64)
    finally show ?thesis using 1 aq False by auto
  qed
qed

lemma PTE_V_word: "PTE_V = 1"
  by (simp add: PTE_V_def)

lemma valid_pack: "(x OR PTE_V) AND PTE_V \<noteq> 0"
proof -
  have "bit ((x OR PTE_V) AND PTE_V) 0" by (simp add: PTE_V_word bit_simps)
  then show ?thesis by auto
qed

lemma table_entry_child:
  assumes "managed e q" "load64 m (p + 8 * i) = PA2PTE (of_nat q) OR PTE_V"
  shows "child m p i = Some q"
proof -
  have q: "unat (of_nat q :: u64) = q" by (rule managed_word [OF assms(1)])
  have "PTE2PA (PA2PTE (of_nat q) OR PTE_V) = of_nat q"
    by (rule PTE2PA_pack)
      (use assms(1) q in \<open>simp_all add: managed_def PHYSTOP_def KERNBASE_def PTE_V_word\<close>)
  with assms(2) q show ?thesis by (simp add: child_def PTE_V_word)
qed

text \<open>
  A fresh page \<open>q\<close> from the free list becomes child \<open>i\<close> of the page at path \<open>is\<close>: the tree
  gains the node \<open>is @ [i]\<close>, which has no children.
\<close>

lemma node_install:
  assumes t: "table_ok k (q # ps) pt" and q: "managed (kend k) q"
    and p: "path_ok (is @ [i])" "node (ram k) pt is = Some p" "child (ram k) p i = None"
    and m': "\<And>a j. managed (kend k) a \<Longrightarrow> j < 512 \<Longrightarrow> load64 m' (a + 8 * j) =
      (if (a, j) = (p, i) then PA2PTE (of_nat q) OR PTE_V else if a = q then 0
       else load64 (ram k) (a + 8 * j))"
    and js: "path_ok js"
  shows "node m' pt js = (if js = is @ [i] then Some q else node (ram k) pt js)"
  using js
proof (induction js rule: rev_induct)
  case Nil
  then show ?case by simp
next
  case (snoc j js)
  then have js: "path_ok js" "length js \<le> 1" "j < 512" by (auto simp: path_ok_append)
  have pis: "path_ok is" "length is \<le> 1" "i < 512" using p(1) by (auto simp: path_ok_append)
  have pm: "managed (kend k) p" "p \<noteq> q"
    using table_okD [OF t pis(1) p(2)] by auto
  have IH: "node m' pt js = (if js = is @ [i] then Some q else node (ram k) pt js)"
    using snoc.IH js by simp
  show ?case
  proof (cases "js = is @ [i]")
    case True
    have "child m' q j = None"
      using m' [OF q js(3)] pm(2) by (simp add: child_def)
    then have "node m' pt (js @ [j]) = None"
      unfolding node_append IH using True by simp
    moreover have "node (ram k) pt js = None"
      unfolding True node_append using p by simp
    then have "node (ram k) pt (js @ [j]) = None" by (simp add: node_append)
    ultimately show ?thesis using True by simp
  next
    case False
    show ?thesis
    proof (cases "node (ram k) pt js")
      case None
      with False IH p(2) show ?thesis by (auto simp: node_append)
    next
      case (Some a)
      then have a: "managed (kend k) a" "a \<noteq> q"
        using table_okD [OF t js(1)] by auto
      have "a = p \<longleftrightarrow> js = is"
        using Some p(2) table_okD(3) [OF t js(1) Some pis(1)] by auto
      moreover have "child m' p i = Some q"
        using m' [OF pm(1) pis(3)] by (intro table_entry_child [OF q]) simp
      ultimately show ?thesis
        using Some IH False m' [OF a(1) js(3)] a(2) by (auto simp: node_append child_def)
    qed
  qed
qed

lemma install_ok:
  assumes km: "kmem_ok k (q # ps)" and t: "table_ok k (q # ps) pt"
    and p: "path_ok (is @ [i])" "node (ram k) pt is = Some p" "child (ram k) p i = None"
    and k1: "kmem_ok k1 ps" "kend k1 = kend k" "same_outside q (ram k) (ram k1)"
    and k2: "k2 = k1\<lparr>ram := store64 (memset (ram k1) q 0 PGSIZE) (p + 8 * i)
      (PA2PTE (of_nat q) OR PTE_V)\<rparr>"
  shows "kmem_ok k2 ps" "table_ok k2 ps pt" "\<And>va. pte (ram k2) pt va = pte (ram k) pt va"
    "node (ram k2) pt (is @ [i]) = Some q"
proof -
  have q: "managed (kend k) q" "q \<notin> set ps" "\<forall>a \<in> set ps. managed (kend k) a"
    using km by (auto simp: kmem_ok_def)
  have pis: "path_ok is" "length is \<le> 1" "i < 512" using p(1) by (auto simp: path_ok_append)
  have pm: "managed (kend k) p" "p \<noteq> q" "p \<notin> set ps"
    using table_okD [OF t pis(1) p(2)] by auto
  have ld: "load64 (ram k2) (a + 8 * j) =
      (if (a, j) = (p, i) then PA2PTE (of_nat q) OR PTE_V else if a = q then 0
       else load64 (ram k) (a + 8 * j))" if "managed (kend k) a" "j < 512" for a j
    using load64_install [OF q(1) pm(1) that(1) pis(3) that(2) pm(2) k1(3)] k2 by simp
  have nd: "node (ram k2) pt js = (if js = is @ [i] then Some q else node (ram k) pt js)"
    if "path_ok js" for js
    by (rule node_install [OF t q(1) p ld that])
  have nq: "node (ram k) pt js \<noteq> Some q" if "path_ok js" for js
    using table_okD(2) [OF t that, of q] by auto
  have ke: "kend k2 = kend k" using k2 k1 by simp
  show "node (ram k2) pt (is @ [i]) = Some q" using nd p(1) by simp
  show "table_ok k2 ps pt"
    unfolding table_ok_def ke
  proof (rule conjI; intro allI impI)
    fix js a assume "path_ok js" "node (ram k2) pt js = Some a"
    then show "managed (kend k) a \<and> a \<notin> set ps"
      using nd q table_okD(1,2) [OF t] by (metis list.set_intros(2) option.inject)
  next
    fix is' js a
    assume "path_ok is'" "path_ok js" "node (ram k2) pt is' = Some a" "node (ram k2) pt js = Some a"
    then show "is' = js"
      using nd nq table_okD(3) [OF t] by (metis option.inject)
  qed
  have "run_list (ram k2) (freelist k1) ps = run_list (ram k1) (freelist k1) ps"
  proof (rule run_list_cong)
    fix a assume "a \<in> set ps"
    then have a: "managed (kend k) a" "a \<noteq> q" "a \<noteq> p" using q pm by auto
    then have "a + PGSIZE \<le> q \<or> q + PGSIZE \<le> a" using managed_apart q by blast
    then have "load64 (ram k1) a = load64 (ram k) a"
      by (intro same_outside_load64 [OF k1(3)]) (auto simp: PGSIZE_def)
    with ld [OF a(1), of 0] a show "load64 (ram k2) a = load64 (ram k1) a" by simp
  qed
  then show "kmem_ok k2 ps" using k1(1) k2 by (simp add: kmem_ok_def)
  fix va
  have px: "unat (PX 0 va) < 512" using PX_lt [of 0 va] by simp
  show "pte (ram k2) pt va = pte (ram k) pt va"
  proof (cases "idx va = is @ [i]")
    case True
    have "node (ram k2) pt (idx va) = Some q" using nd [of "idx va"] True p(1) by simp
    moreover have "node (ram k) pt (idx va) = None"
      unfolding True node_append using p by simp
    ultimately show ?thesis
      using ld [OF q(1) px] pm(2) by (simp add: pte_def)
  next
    case False
    show ?thesis
    proof (cases "node (ram k) pt (idx va)")
      case None
      with False nd [of "idx va"] show ?thesis by (simp add: pte_def)
    next
      case (Some a)
      note a = table_okD [OF t path_ok_idx Some]
      have "a \<noteq> p"
        using a(3) [OF pis(1)] p(2) pis(2) by (auto simp: idx_def)
      with Some False nd [of "idx va"] a ld [OF a(1) px] show ?thesis
        by (simp add: pte_def)
    qed
  qed
qed

section \<open>Walking with allocation\<close>

text \<open>The table denotes the same map, over a smaller pool of free pages.\<close>

definition grown :: "kmem \<Rightarrow> nat list \<Rightarrow> nat \<Rightarrow> kmem \<Rightarrow> nat list \<Rightarrow> bool" where
  "grown k ps pt k' ps' \<longleftrightarrow>
     kmem_ok k' ps' \<and> table_ok k' ps' pt \<and> kend k' = kend k \<and> set ps' \<subseteq> set ps \<and>
     (\<forall>va. pte (ram k') pt va = pte (ram k) pt va)"

lemma grown_refl: "kmem_ok k ps \<Longrightarrow> table_ok k ps pt \<Longrightarrow> grown k ps pt k ps"
  by (simp add: grown_def)

lemma grown_trans: "grown k ps pt k1 ps1 \<Longrightarrow> grown k1 ps1 pt k2 ps2 \<Longrightarrow> grown k ps pt k2 ps2"
  by (auto simp: grown_def)

lemma walk_levels_ok:
  assumes "kmem_ok k ps" "table_ok k ps pt" "level \<le> 2"
    and "node (ram k) pt (take (2 - level) (idx va)) = Some p"
  shows "\<exists>r k' ps'. walk_levels level p va True k = Inr (r, k') \<and> grown k ps pt k' ps' \<and>
    (if r = 0 then ps' = []
     else \<exists>q. node (ram k') pt (idx va) = Some q \<and> r = q + 8 * unat (PX 0 va))"
  using assms
proof (induction level arbitrary: p k ps)
  case 0
  then have n: "node (ram k) pt (idx va) = Some p" by (simp add: idx_def)
  then have "0 < p"
    using table_okD(1) [OF 0(2) path_ok_idx n] 0(1) by (simp add: managed_def kmem_ok_def)
  with n show ?case using 0 by (auto intro: grown_refl)
next
  case (Suc level)
  let ?is = "take (2 - Suc level) (idx va)" and ?i = "unat (PX (Suc level) va)"
  have path: "take (2 - level) (idx va) = ?is @ [?i]"
    using Suc.prems(3) by (cases level) (auto simp: idx_def numeral_2_eq_2)
  have pok: "path_ok (?is @ [?i])"
    using path_ok_idx [of va] PX_lt [of "Suc level" va] by (auto simp: path_ok_def dest: in_set_takeD)
  have lev: "level \<le> 2" using Suc.prems(3) by simp
  show ?case
  proof (cases "child (ram k) p ?i")
    case (Some c)
    then have "node (ram k) pt (take (2 - level) (idx va)) = Some c"
      unfolding path node_append using Suc.prems(4) by simp
    moreover have "walk_levels (Suc level) p va True k = walk_levels level c va True k"
      using Some by (auto simp: child_def Let_def split: if_splits)
    ultimately show ?thesis
      using Suc.IH [OF Suc.prems(1,2) lev] by simp
  next
    case None
    then have nv: "load64 (ram k) (p + 8 * ?i) AND PTE_V = 0"
      by (simp add: child_def split: if_splits)
    show ?thesis
    proof (cases ps)
      case Nil
      with Suc.prems nv show ?thesis
        by (simp add: Let_def kalloc_nil grown_refl)
    next
      case (Cons q qs)
      with Suc.prems(1) obtain k1 where k1: "kalloc k = Inr (q, k1)" "kmem_ok k1 qs"
          "kend k1 = kend k" "same_outside q (ram k) (ram k1)"
        using kalloc_cons by blast
      let ?k2 = "k1\<lparr>ram := store64 (memset (ram k1) q 0 PGSIZE) (p + 8 * ?i)
        (PA2PTE (of_nat q) OR PTE_V)\<rparr>"
      note inst = install_ok [OF Suc.prems(1) [unfolded Cons] Suc.prems(2) [unfolded Cons] pok
          Suc.prems(4) None k1(2-4) refl]
      have g: "grown k ps pt ?k2 qs"
        using inst(1-3) k1(3) Cons by (auto simp: grown_def)
      have "q \<noteq> 0" using Suc.prems(1) Cons by (simp add: kmem_ok_def)
      moreover have "node (ram ?k2) pt (take (2 - level) (idx va)) = Some q"
        unfolding path by (rule inst(4))
      ultimately show ?thesis
        using Suc.IH [OF inst(1,2) lev, of q] nv k1(1) g
        by (fastforce simp: Let_def intro: grown_trans)
    qed
  qed
qed

lemma walk_alloc:
  assumes "kmem_ok k ps" "table_ok k ps pt" "va < MAXVA"
  obtains k' where "walk pt va True k = Inr (0, k')" "grown k ps pt k' []"
  | q k' ps' where "walk pt va True k = Inr (q + 8 * unat (PX 0 va), k')" "grown k ps pt k' ps'"
      "node (ram k') pt (idx va) = Some q" "q \<noteq> 0"
proof -
  obtain r k' ps' where r: "walk pt va True k = Inr (r, k')" "grown k ps pt k' ps'"
      "if r = 0 then ps' = []
       else \<exists>q. node (ram k') pt (idx va) = Some q \<and> r = q + 8 * unat (PX 0 va)"
    using walk_levels_ok [OF assms(1,2), of 2 va pt] assms(3) by (auto simp: walk_def not_le)
  show ?thesis
  proof (cases "r = 0")
    case True
    with r that(1) show ?thesis by simp
  next
    case False
    then obtain q where q: "node (ram k') pt (idx va) = Some q" "r = q + 8 * unat (PX 0 va)"
      using r(3) by auto
    have "q \<noteq> 0"
      using table_okD(1) [of k' ps' pt "idx va" q] r(2) q(1)
      by (auto simp: grown_def managed_def kmem_ok_def)
    with that(2) r q show ?thesis by simp
  qed
qed

section \<open>Writing an entry\<close>

lemma set_pte_ok:
  assumes km: "kmem_ok k ps" and t: "table_ok k ps pt"
    and n: "node (ram k) pt (idx va) = Some p" and va: "va < MAXVA"
    and k': "k' = k\<lparr>ram := store64 (ram k) (p + 8 * unat (PX 0 va)) v\<rparr>"
  shows "kmem_ok k' ps" "table_ok k' ps pt" "kend k' = kend k" "pte (ram k') pt va = v"
    "\<And>vb. vb < MAXVA \<Longrightarrow> PGROUNDDOWN vb \<noteq> PGROUNDDOWN va \<Longrightarrow>
       pte (ram k') pt vb = pte (ram k) pt vb"
    "\<And>js. path_ok js \<Longrightarrow> node (ram k') pt js = node (ram k) pt js"
proof -
  note p = table_okD [OF t path_ok_idx n]
  have px: "unat (PX 0 x) < 512" for x using PX_lt [of 0 x] by simp
  have ld: "load64 (ram k') (a + 8 * j) =
      (if (a, j) = (p, unat (PX 0 va)) then v else load64 (ram k) (a + 8 * j))"
    if "managed (kend k) a" "j < 512" for a j
    using load64_store64_other [OF entry_apart [OF that(1) p(1) that(2) px [of va]]] k' by auto
  show nd: "node (ram k') pt js = node (ram k) pt js" if "path_ok js" for js
    using that
  proof (induction js rule: rev_induct)
    case Nil
    then show ?case by simp
  next
    case (snoc j js)
    then have js: "path_ok js" "length js \<le> 1" "j < 512" by (auto simp: path_ok_append)
    show ?case
    proof (cases "node (ram k) pt js")
      case None
      with snoc.IH js show ?thesis by (simp add: node_append)
    next
      case (Some a)
      then have "a \<noteq> p" using p(3) [of js] js by (auto simp: idx_def)
      with ld [of a j] table_okD(1) [OF t js(1) Some] js(3) have "child (ram k') a j = child (ram k) a j"
        by (simp add: child_def)
      with snoc.IH js Some show ?thesis by (simp add: node_append)
    qed
  qed
  show ke: "kend k' = kend k" using k' by simp
  show "table_ok k' ps pt"
    using t table_ok_cong [OF nd ke] by simp
  have "run_list (ram k') (freelist k) ps = run_list (ram k) (freelist k) ps"
  proof (rule run_list_cong)
    fix a assume "a \<in> set ps"
    then have "managed (kend k) a" "a \<noteq> p" using km p by (auto simp: kmem_ok_def)
    then show "load64 (ram k') a = load64 (ram k) a" using ld [of a 0] by simp
  qed
  then show "kmem_ok k' ps" using km k' by (simp add: kmem_ok_def)
  show "pte (ram k') pt va = v"
    using nd [OF path_ok_idx] n ld [OF p(1) px] by (simp add: pte_def)
  fix vb assume vb: "vb < MAXVA" "PGROUNDDOWN vb \<noteq> PGROUNDDOWN va"
  show "pte (ram k') pt vb = pte (ram k) pt vb"
  proof (cases "node (ram k) pt (idx vb)")
    case None
    with nd [OF path_ok_idx] show ?thesis by (simp add: pte_def)
  next
    case (Some a)
    have "(a, unat (PX 0 vb)) \<noteq> (p, unat (PX 0 va))"
    proof
      assume "(a, unat (PX 0 vb)) = (p, unat (PX 0 va))"
      then have "idx vb = idx va" "PX 0 vb = PX 0 va"
        using p(3) [OF path_ok_idx] Some by (auto intro: unsigned_word_eqI)
      then have "PGROUNDDOWN vb = PGROUNDDOWN va"
        by (intro same_indices_same_page vb(1) va) (auto simp: idx_def intro: unsigned_word_eqI)
      with vb(2) show False by simp
    qed
    with ld [OF table_okD(1) [OF t path_ok_idx Some] px] Some nd [OF path_ok_idx]
    show ?thesis by (auto simp: pte_def)
  qed
qed

section \<open>mappages\<close>

lemma PGROUNDDOWN_id:
  assumes "unat a mod PGSIZE = 0"
  shows "PGROUNDDOWN a = a"
proof -
  have "unat (PGROUNDDOWN a) = unat a"
    using assms div_mult_mod_eq [of "unat a" PGSIZE] by (simp add: unat_PGROUNDDOWN)
  then show ?thesis by (rule unsigned_word_eqI)
qed

text \<open>The pages between two aligned addresses, in terms of page numbers.\<close>

definition pgno :: "u64 \<Rightarrow> nat" where
  "pgno va = unat va div PGSIZE"

lemma pgno_down [simp]: "pgno (PGROUNDDOWN va) = pgno va"
  by (simp add: pgno_def unat_PGROUNDDOWN PGSIZE_def)

lemma pgno_eq_iff: "pgno va = pgno vb \<longleftrightarrow> PGROUNDDOWN va = PGROUNDDOWN vb"
  by (metis pgno_def pgno_down unat_PGROUNDDOWN unsigned_word_eqI)

lemma PX_pgno: "pgno va = pgno vb \<Longrightarrow> PX l va = PX l vb"
proof -
  assume pg: "pgno va = pgno vb"
  have "unat (PX l v) = pgno v div 2 ^ (9 * l) mod 512" for v
    by (simp add: unat_PX PXSHIFT_def pgno_def PGSIZE_def power_add div_mult2_eq)
  with pg have "unat (PX l va) = unat (PX l vb)" by simp
  then show ?thesis by (rule unsigned_word_eqI)
qed

lemma pte_cong: "pgno va = pgno vb \<Longrightarrow> pte m pt va = pte m pt vb"
  by (simp only: pte_def idx_def PX_pgno [of va vb])

lemma pgno_next: "a < MAXVA \<Longrightarrow> pgno (a + 4096) = Suc (pgno a)"
  by (simp add: pgno_def next_page PGSIZE_def)

lemma aligned_next: "a < MAXVA \<Longrightarrow> unat a mod PGSIZE = 0 \<Longrightarrow> unat (a + 4096) mod PGSIZE = 0"
  by (simp add: next_page PGSIZE_def)

lemma aligned_eq: "unat a mod PGSIZE = 0 \<Longrightarrow> unat b mod PGSIZE = 0 \<Longrightarrow> pgno a = pgno b \<Longrightarrow> a = b"
  by (metis PGROUNDDOWN_id pgno_eq_iff)

lemma pgno_less_MAXVA: "pgno a \<le> pgno b \<Longrightarrow> b < MAXVA \<Longrightarrow> a < MAXVA"
proof -
  assume "pgno a \<le> pgno b" "b < MAXVA"
  then have "unat b div 4096 < 2 ^ 26" "unat a div 4096 \<le> unat b div 4096"
    by (simp_all add: word_less_nat_alt unat_MAXVA pgno_def PGSIZE_def div_less_iff_less_mult)
  then have "unat a div 4096 < 2 ^ 26" by simp
  then have "unat a < 2 ^ 38" by (simp add: div_less_iff_less_mult)
  then show ?thesis by (simp add: word_less_nat_alt unat_MAXVA)
qed

text \<open>
  \<open>maps_range\<close>: what mapping the pages of \<open>a\<close> to \<open>l\<close> from \<open>pa\<close> on does to a good state. It
  either succeeds (\<open>r = 0\<close>) or has used up all free pages.
\<close>

definition maps_range ::
  "nat \<Rightarrow> u64 \<Rightarrow> u64 \<Rightarrow> u64 \<Rightarrow> u64 \<Rightarrow> kmem \<Rightarrow> nat list \<Rightarrow> int \<Rightarrow> kmem \<Rightarrow> nat list \<Rightarrow> bool" where
  "maps_range pt a l pa perm k ps r k' ps' \<longleftrightarrow>
     kmem_ok k' ps' \<and> table_ok k' ps' pt \<and> kend k' = kend k \<and> set ps' \<subseteq> set ps \<and>
     (r = 0 \<or> r = -1 \<and> ps' = []) \<and>
     (\<forall>vb < MAXVA. pgno vb < pgno a \<or> pgno l < pgno vb \<longrightarrow>
        pte (ram k') pt vb = pte (ram k) pt vb) \<and>
     (\<forall>vb < MAXVA. r = 0 \<longrightarrow> pgno a \<le> pgno vb \<longrightarrow> pgno vb \<le> pgno l \<longrightarrow>
        pte (ram k') pt vb = PA2PTE (pa + (PGROUNDDOWN vb - PGROUNDDOWN a)) OR perm OR PTE_V)"

lemma mappages_loop_ok:
  assumes "kmem_ok k ps" "table_ok k ps pt" "unat a mod PGSIZE = 0" "unat l mod PGSIZE = 0"
    and "pgno a \<le> pgno l" "l < MAXVA"
    and "\<And>vb. pgno a \<le> pgno vb \<Longrightarrow> pgno vb \<le> pgno l \<Longrightarrow> pte (ram k) pt vb AND PTE_V = 0"
  shows "\<exists>r k' ps'. mappages_loop pt a l pa perm k = Inr (r, k') \<and>
    maps_range pt a l pa perm k ps r k' ps'"
  using assms
proof (induction pt a l pa perm k arbitrary: ps rule: mappages_loop.induct)
  case (1 pt a l pa perm k)
  note al = "1.prems"(3,4) and le = "1.prems"(5) and lM = "1.prems"(6)
  have aM: "a < MAXVA" using le lM by (rule pgno_less_MAXVA)
  from "1.prems"(1,2) aM show ?case
  proof (cases rule: walk_alloc)
    case (1 k1)
    then show ?thesis
      by (intro exI [of _ "-1"] exI [of _ k1] exI [of _ "[]"])
        (simp add: mappages_loop.simps [of pt a] grown_def maps_range_def)
  next
    case (2 q k1 ps1)
    let ?s = "q + 8 * unat (PX 0 a)" and ?v = "PA2PTE pa OR perm OR PTE_V"
    let ?k2 = "k1\<lparr>ram := store64 (ram k1) ?s ?v\<rparr>"
    have g: "kmem_ok k1 ps1" "table_ok k1 ps1 pt" "kend k1 = kend k" "set ps1 \<subseteq> set ps"
        "\<And>va. pte (ram k1) pt va = pte (ram k) pt va"
      using 2(2) by (auto simp: grown_def)
    have inv: "load64 (ram k1) ?s AND PTE_V = 0"
      using "1.prems"(7) [of a] le g(5) [of a] 2(3) by (simp add: pte_def)
    note st = set_pte_ok [where v = ?v, OF g(1,2) 2(3) aM refl]
    have other: "pte (ram ?k2) pt vb = pte (ram k) pt vb"
      if "vb < MAXVA" "pgno vb \<noteq> pgno a" for vb
      using st(5) [of vb] that g(5) pgno_eq_iff by auto
    have same: "pte (ram ?k2) pt vb = ?v" "PGROUNDDOWN vb = a"
      if "pgno vb = pgno a" "vb < MAXVA" for vb
    proof -
      have d: "PGROUNDDOWN vb = PGROUNDDOWN a" using that pgno_eq_iff by blast
      then show "PGROUNDDOWN vb = a" using PGROUNDDOWN_id [OF al(1)] by simp
      show "pte (ram ?k2) pt vb = ?v"
        using st(4) pte_cong [OF that(1)] by metis
    qed
    show ?thesis
    proof (cases "a = l")
      case True
      have "mappages_loop pt a l pa perm k = Inr (0, ?k2)"
        unfolding mappages_loop.simps [of pt a] using 2(1,4) inv True by (simp add: Let_def)
      moreover have "maps_range pt a l pa perm k ps 0 ?k2 ps1"
        unfolding maps_range_def using True st(1-3) g(3,4) other same PGROUNDDOWN_id [OF al(1)]
        by simp
      ultimately show ?thesis by blast
    next
      case False
      then have "pgno a \<noteq> pgno l" using aligned_eq [OF al] by auto
      then have le': "pgno (a + 4096) \<le> pgno l" using le by (simp add: pgno_next aM)
      have unm: "pte (ram ?k2) pt vb AND PTE_V = 0"
        if "pgno (a + 4096) \<le> pgno vb" "pgno vb \<le> pgno l" for vb
        using that "1.prems"(7) [of vb] other [OF pgno_less_MAXVA [OF that(2) lM]]
        by (simp add: pgno_next aM)
      have eq: "mappages_loop pt a l pa perm k =
          mappages_loop pt (a + 4096) l (pa + 4096) perm ?k2"
        unfolding mappages_loop.simps [of pt a] using 2(1,4) inv False by (simp add: Let_def)
      from "1.IH" [OF 2(1) refl _ _ refl False st(1,2) aligned_next [OF aM al(1)] al(2) le' lM unm]
        2(4) inv
      obtain r k' ps' where r: "mappages_loop pt (a + 4096) l (pa + 4096) perm ?k2 = Inr (r, k')"
          and m: "maps_range pt (a + 4096) l (pa + 4096) perm ?k2 ps1 r k' ps'"
        by blast
      have dn: "PGROUNDDOWN a = a" "PGROUNDDOWN (a + 4096) = a + 4096"
        using al(1) aligned_next [OF aM al(1)] by (simp_all add: PGROUNDDOWN_id)
      have "pte (ram k') pt vb = PA2PTE (pa + (PGROUNDDOWN vb - a)) OR perm OR PTE_V"
        if "vb < MAXVA" "r = 0" "pgno a \<le> pgno vb" "pgno vb \<le> pgno l" for vb
      proof (cases "pgno vb = pgno a")
        case True
        with m that(1) same [OF True that(1)] show ?thesis
          by (simp add: maps_range_def pgno_next aM)
      next
        case False
        with m that show ?thesis by (simp add: maps_range_def pgno_next aM dn)
      qed
      moreover have "pte (ram k') pt vb = pte (ram k) pt vb"
        if "vb < MAXVA" "pgno vb < pgno a \<or> pgno l < pgno vb" for vb
        using m other [OF that(1)] that le by (auto simp: maps_range_def pgno_next aM)
      ultimately have "maps_range pt a l pa perm k ps r k' ps'"
        using m g(3,4) by (simp add: maps_range_def dn) blast
      with r eq show ?thesis by auto
    qed
  qed
qed

lemma mappages_ok:
  assumes "kmem_ok k ps" "table_ok k ps pt" "len \<noteq> 0" "unat va + unat len \<le> 2 ^ 38"
    and "\<And>vb. pgno va \<le> pgno vb \<Longrightarrow> pgno vb \<le> pgno (va + len - 1) \<Longrightarrow>
      pte (ram k) pt vb AND PTE_V = 0"
  shows "\<exists>r k' ps'. mappages pt va len pa perm k = Inr (r, k') \<and>
    maps_range pt va (va + len - 1) pa perm k ps r k' ps'"
proof -
  have pos: "0 < unat len" using assms(3) by (simp add: unat_gt_0)
  have "unat (va + len) = unat va + unat len"
    using assms(4) by (subst unat_add_lem [THEN iffD1]) auto
  moreover have "1 \<le> va + len" using calculation pos by (simp add: word_le_nat_alt)
  ultimately have last: "unat (va + len - 1) = unat va + unat len - 1"
    by (simp add: unat_sub_le)
  have le: "pgno va \<le> pgno (va + len - 1)"
    unfolding pgno_def last using pos by (intro div_le_mono) simp
  have "va + len - 1 < MAXVA"
    using last assms(4) pos by (simp add: word_less_nat_alt unat_MAXVA)
  then have "PGROUNDDOWN (va + len - 1) < MAXVA"
    using PGROUNDDOWN_le order.strict_trans1 by blast
  with mappages_loop_ok [OF assms(1,2) PGROUNDDOWN_aligned PGROUNDDOWN_aligned,
      of va "va + len - 1" pa perm] le assms(3,5)
  show ?thesis by (simp add: mappages_def maps_range_def PGROUNDDOWN_id PGROUNDDOWN_aligned)
qed

section \<open>The memory that a user program sees\<close>

text \<open>User pages are managed pages, not free, not part of the tree, and mapped once.\<close>

definition user_ok :: "kmem \<Rightarrow> nat list \<Rightarrow> nat \<Rightarrow> bool" where
  "user_ok k ps pt \<longleftrightarrow> kmem_ok k ps \<and> table_ok k ps pt \<and>
     (\<forall>va pa. user_page (ram k) pt va = Some pa \<longrightarrow>
        managed (kend k) (unat pa) \<and> unat pa \<notin> set ps \<and>
        (\<forall>is. path_ok is \<longrightarrow> node (ram k) pt is \<noteq> Some (unat pa))) \<and>
     (\<forall>va vb pa. user_page (ram k) pt va = Some pa \<longrightarrow> user_page (ram k) pt vb = Some pa \<longrightarrow>
        pgno va = pgno vb)"

definition ubyte :: "mem \<Rightarrow> nat \<Rightarrow> u64 \<Rightarrow> u8 option" where
  "ubyte m pt va =
     (case user_page m pt va of None \<Rightarrow> None | Some pa \<Rightarrow> Some (m (unat pa + unat va mod PGSIZE)))"

lemma user_okD:
  assumes "user_ok k ps pt"
  shows "kmem_ok k ps" "table_ok k ps pt" "0 < kend k"
    "user_page (ram k) pt va = Some pa \<Longrightarrow> managed (kend k) (unat pa)"
    "user_page (ram k) pt va = Some pa \<Longrightarrow> unat pa \<notin> set ps"
    "user_page (ram k) pt va = Some pa \<Longrightarrow> path_ok is \<Longrightarrow> node (ram k) pt is \<noteq> Some (unat pa)"
    "user_page (ram k) pt va = Some pa \<Longrightarrow> user_page (ram k) pt vb = Some pa \<Longrightarrow> pgno va = pgno vb"
proof -
  show "kmem_ok k ps" "table_ok k ps pt" "0 < kend k"
    using assms by (simp_all add: user_ok_def kmem_ok_def)
qed (use assms in \<open>unfold user_ok_def, blast+\<close>)

text \<open>A write inside one user page leaves the free list, the tree and the map alone.\<close>

lemma node_outside:
  assumes t: "table_ok k ps pt" and out: "same_outside q (ram k) m'" and q: "managed (kend k) q"
    and nt: "\<And>is. path_ok is \<Longrightarrow> node (ram k) pt is \<noteq> Some q"
  shows "path_ok js \<Longrightarrow> node m' pt js = node (ram k) pt js"
    and "pte m' pt va = pte (ram k) pt va"
proof -
  have ld: "load64 m' (a + 8 * j) = load64 (ram k) (a + 8 * j)"
    if "path_ok is" "node (ram k) pt is = Some a" "j < 512" for "is" a j
  proof -
    have "a \<noteq> q" using nt that by auto
    then have "a + PGSIZE \<le> q \<or> q + PGSIZE \<le> a"
      by (intro managed_apart [OF table_okD(1) [OF t that(1,2)] q])
    then show ?thesis
      using that(3) by (intro same_outside_load64 [OF out]) (auto simp: PGSIZE_def)
  qed
  show nd: "node m' pt js = node (ram k) pt js" if "path_ok js" for js
    using that
  proof (induction js rule: rev_induct)
    case Nil
    then show ?case by simp
  next
    case (snoc j js)
    then have js: "path_ok js" "j < 512" by (auto simp: path_ok_append)
    with snoc.IH ld [OF js(1) _ js(2)] show ?case
      by (cases "node (ram k) pt js") (auto simp: node_append child_def)
  qed
  show "pte m' pt va = pte (ram k) pt va"
    using nd [OF path_ok_idx, of va] ld [OF path_ok_idx, of va _ "unat (PX 0 va)"] PX_lt [of 0 va]
    by (auto simp: pte_def split: option.splits)
qed

lemma user_write_ok:
  assumes u: "user_ok k ps pt" and va: "user_page (ram k) pt va = Some pa"
    and out: "same_outside (unat pa) (ram k) m'" and k': "k' = k\<lparr>ram := m'\<rparr>"
  shows "user_ok k' ps pt" "user_page (ram k') pt vb = user_page (ram k) pt vb"
proof -
  note uu = user_okD [OF u]
  note pa = uu(4-6) [OF va]
  have nd: "\<And>js. path_ok js \<Longrightarrow> node m' pt js = node (ram k) pt js"
    and pt: "\<And>va. pte m' pt va = pte (ram k) pt va"
    using node_outside [OF uu(2) out pa(1) pa(3)] by blast+
  have up: "user_page m' pt vb = user_page (ram k) pt vb" for vb
    by (simp add: user_page_def pt)
  then show "user_page (ram k') pt vb = user_page (ram k) pt vb" using k' by simp
  have "run_list m' (freelist k) ps = run_list (ram k) (freelist k) ps"
    using run_list_outside [OF out pa(1) _ pa(2)] uu(1) by (auto simp: kmem_ok_def)
  then have "kmem_ok k' ps" using uu(1) k' by (simp add: kmem_ok_def)
  moreover have "table_ok k' ps pt"
    using uu(2) table_ok_cong [of k' pt k] nd k' by simp
  ultimately show "user_ok k' ps pt"
    unfolding user_ok_def
  proof (intro conjI allI impI)
    fix vb pb "is" assume "user_page (ram k') pt vb = Some pb"
    then have b: "user_page (ram k) pt vb = Some pb" using up k' by simp
    show "managed (kend k') (unat pb)" using uu(4) [OF b] k' by simp
    show "unat pb \<notin> set ps" by (rule uu(5) [OF b])
    show "path_ok is \<Longrightarrow> node (ram k') pt is \<noteq> Some (unat pb)" using uu(6) [OF b] nd k' by simp
  next
    fix vb vc pb assume "user_page (ram k') pt vb = Some pb" "user_page (ram k') pt vc = Some pb"
    then have "user_page (ram k) pt vb = Some pb" "user_page (ram k) pt vc = Some pb"
      using up k' by simp_all
    then show "pgno vb = pgno vc" by (rule uu(7))
  qed
qed

text \<open>One step of the copying loops: the part of the buffer that lies in the page of \<open>va\<close>.\<close>

lemma pa_plus_off:
  assumes "managed e (unat pa)"
  shows "unat (pa + (va - PGROUNDDOWN va)) = unat pa + unat va mod PGSIZE"
proof -
  have "unat pa + unat va mod PGSIZE < 2 ^ 64"
  proof -
    have "unat pa < 2281701376" "unat va mod PGSIZE < 4096"
      using assms by (simp_all add: managed_def PHYSTOP_def KERNBASE_def PGSIZE_def)
    then show ?thesis by simp
  qed
  then show ?thesis
    by (subst unat_add_lem [THEN iffD1]) (simp_all add: unat_off)
qed

lemma put_bytes_outside:
  "p \<le> a \<Longrightarrow> a + length bs \<le> p + PGSIZE \<Longrightarrow> same_outside p m (put_bytes m a bs)"
  by (auto simp: same_outside_def put_bytes_def)

text \<open>Distance from \<open>va\<close> to \<open>vb\<close>, going up (and round).\<close>

definition dist :: "u64 \<Rightarrow> u64 \<Rightarrow> nat" where
  "dist va vb = unat (vb - va)"

lemma unat_sub_of_nat:
  "n < 2 ^ 64 \<Longrightarrow>
     unat (d - of_nat n) = (if n \<le> unat d then unat d - n else unat d + 2 ^ 64 - n)" for d :: u64
  by (simp add: unat_sub_if' unat_of_nat_small)

lemma dist_shift:
  assumes "n < 2 ^ 64"
  shows "dist (va + of_nat n) vb =
    (if n \<le> dist va vb then dist va vb - n else dist va vb + 2 ^ 64 - n)"
proof -
  have "vb - (va + of_nat n) = (vb - va) - of_nat n" by simp
  then show ?thesis
    unfolding dist_def by (simp only: unat_sub_of_nat [OF assms])
qed

lemma dist_page:
  assumes "n \<le> PGSIZE - unat va mod PGSIZE" "dist va vb < n"
  shows "pgno vb = pgno va" "unat vb mod PGSIZE = unat va mod PGSIZE + dist va vb"
proof -
  have va: "unat va < 2 ^ 64" using unsigned_less [where 'a = nat, of va] by simp
  have r: "unat va mod PGSIZE + dist va vb < PGSIZE" using assms by simp
  define q where "q = unat va div 4096"
  have "unat va = q * 4096 + unat va mod 4096" by (simp add: q_def)
  moreover have "q < 4503599627370496" using va by (simp add: q_def div_less_iff_less_mult)
  moreover have "unat va mod 4096 + dist va vb < 4096" using r by (simp add: PGSIZE_def)
  ultimately have "unat va + dist va vb < 18446744073709551616" by linarith
  then have "unat (va + (vb - va)) = unat va + dist va vb"
    unfolding dist_def by (subst unat_add_lem [THEN iffD1]) auto
  then have vb: "unat vb = unat va + dist va vb" by simp
  show "unat vb mod PGSIZE = unat va mod PGSIZE + dist va vb"
    unfolding vb using r by (metis mod_add_left_eq mod_less)
  have "unat va + dist va vb =
      (unat va mod PGSIZE + dist va vb) + unat va div PGSIZE * PGSIZE" by simp
  then have "(unat va + dist va vb) div PGSIZE =
      unat va div PGSIZE + (unat va mod PGSIZE + dist va vb) div PGSIZE"
    by (simp only: div_mult_self1 PGSIZE_def)
  with r show "pgno vb = pgno va"
    unfolding pgno_def vb by simp
qed

lemma user_page_cong:
  assumes "pgno va = pgno vb"
  shows "user_page m pt va = user_page m pt vb"
proof -
  have "va < MAXVA \<longleftrightarrow> vb < MAXVA"
    using pgno_less_MAXVA [of va vb] pgno_less_MAXVA [of vb va] assms by auto
  then show ?thesis
    using pte_cong [OF assms] by (simp add: user_page_def)
qed

lemma user_page_down [simp]: "user_page m pt (PGROUNDDOWN va) = user_page m pt va"
  by (rule user_page_cong) simp

lemma copy_addr:
  assumes u: "user_ok k ps pt" and va: "user_page (ram k) pt va = Some pa"
    and vb: "user_page (ram k) pt vb = Some pb" and n: "n \<le> PGSIZE - unat va mod PGSIZE"
  shows "unat pb + unat vb mod PGSIZE - (unat pa + unat va mod PGSIZE) < n \<and>
      unat pa + unat va mod PGSIZE \<le> unat pb + unat vb mod PGSIZE \<longleftrightarrow> dist va vb < n"
    (is "?near \<longleftrightarrow> _")
proof
  assume "dist va vb < n"
  then show ?near
    using dist_page [OF n] user_page_cong [of vb va "ram k" pt] va vb by auto
next
  assume near: ?near
  have "unat va mod PGSIZE < PGSIZE" "unat vb mod PGSIZE < PGSIZE"
    by (simp_all add: PGSIZE_def)
  with near n managed_apart [OF user_okD(4) [OF u va] user_okD(4) [OF u vb]]
  have "unat pa = unat pb" by linarith
  then have "pa = pb" by (rule unsigned_word_eqI)
  then have pg: "pgno va = pgno vb" using user_okD(7) [OF u va] vb by simp
  define q where "q = unat va div PGSIZE * PGSIZE"
  have qq: "unat va = q + unat va mod PGSIZE" "unat vb = q + unat vb mod PGSIZE"
    using pg div_mult_mod_eq [of "unat va" PGSIZE] div_mult_mod_eq [of "unat vb" PGSIZE]
    by (simp_all only: q_def pgno_def)
  have "unat va \<le> unat vb" using near \<open>unat pa = unat pb\<close> qq by linarith
  moreover have "unat vb - unat va < n" using near \<open>unat pa = unat pb\<close> qq by linarith
  ultimately show "dist va vb < n" by (simp add: dist_def unat_sub_le word_le_nat_alt)
qed

lemma copyout_step:
  assumes u: "user_ok k ps pt" and va: "user_page (ram k) pt va = Some pa"
    and n: "length bs \<le> PGSIZE - unat va mod PGSIZE"
    and k': "k' = k\<lparr>ram := put_bytes (ram k) (unat (pa + (va - PGROUNDDOWN va))) bs\<rparr>"
  shows "user_ok k' ps pt" "user_page (ram k') pt vb = user_page (ram k) pt vb"
    "ubyte (ram k') pt vb =
      (if dist va vb < length bs then Some (bs ! dist va vb) else ubyte (ram k) pt vb)"
proof -
  note pa = user_okD(4) [OF u va]
  have m': "ram k' = put_bytes (ram k) (unat pa + unat va mod PGSIZE) bs"
    using k' pa_plus_off [OF pa] by simp
  have "unat va mod PGSIZE < PGSIZE" by (simp add: PGSIZE_def)
  with n have "same_outside (unat pa) (ram k) (ram k')"
    unfolding m' by (intro put_bytes_outside) auto
  from user_write_ok [OF u va this] k' m'
  show ok: "user_ok k' ps pt" and up: "user_page (ram k') pt vb = user_page (ram k) pt vb"
    by auto
  show "ubyte (ram k') pt vb =
      (if dist va vb < length bs then Some (bs ! dist va vb) else ubyte (ram k) pt vb)"
  proof (cases "user_page (ram k) pt vb")
    case None
    then have "\<not> dist va vb < length bs"
      using dist_page(1) [OF n] user_page_cong [of vb va "ram k" pt] va by auto
    with None up show ?thesis by (simp add: ubyte_def)
  next
    case (Some pb)
    from copy_addr [OF u va Some n] show ?thesis
      using dist_page(2) [OF n] dist_page(1) [OF n] user_page_cong [of vb va "ram k" pt] va Some up m'
      by (auto simp: ubyte_def put_bytes_def)
  qed
qed

text \<open>All of the \<open>n\<close> bytes from \<open>va\<close> on are mapped for the user.\<close>

definition mapped :: "mem \<Rightarrow> nat \<Rightarrow> u64 \<Rightarrow> nat \<Rightarrow> bool" where
  "mapped m pt va n \<longleftrightarrow> (\<forall>vb. dist va vb < n \<longrightarrow> user_page m pt vb \<noteq> None)"

lemma mapped_0 [simp]: "mapped m pt va 0"
  by (simp add: mapped_def)

lemma mapped_page:
  assumes "0 < n" "n \<le> PGSIZE - unat va mod PGSIZE"
  shows "mapped m pt va n \<longleftrightarrow> user_page m pt va \<noteq> None"
proof -
  have "dist va va = 0" by (simp add: dist_def)
  then show ?thesis
    using dist_page(1) [OF assms(2)] user_page_cong assms(1) unfolding mapped_def by metis
qed

lemma mapped_split:
  assumes "n \<le> l" "l < 2 ^ 64"
  shows "mapped m pt va l \<longleftrightarrow> mapped m pt va n \<and> mapped m pt (va + of_nat n) (l - n)"
proof -
  have "dist va vb < l \<longleftrightarrow> dist va vb < n \<or> dist (va + of_nat n) vb < l - n" for vb
    using dist_shift [of n va vb] assms by auto
  then show ?thesis unfolding mapped_def by blast
qed

lemma next_va:
  "n = 4096 - unat va mod PGSIZE \<Longrightarrow> PGROUNDDOWN va + 4096 = va + of_nat n"
proof -
  assume n: "n = 4096 - unat va mod PGSIZE"
  have "of_nat n = 4096 - (va - PGROUNDDOWN va)"
    unfolding n unat_chunk_space [symmetric] by simp
  then show ?thesis by simp
qed

text \<open>What \<open>copyout\<close> promises.\<close>

definition copied :: "nat \<Rightarrow> nat list \<Rightarrow> u64 \<Rightarrow> u8 list \<Rightarrow> kmem \<Rightarrow> int \<Rightarrow> kmem \<Rightarrow> bool" where
  "copied pt ps va src k r k' \<longleftrightarrow>
     user_ok k' ps pt \<and> (\<forall>vb. user_page (ram k') pt vb = user_page (ram k) pt vb) \<and>
     r = (if mapped (ram k) pt va (length src) then 0 else -1) \<and>
     (\<forall>vb. length src \<le> dist va vb \<longrightarrow> ubyte (ram k') pt vb = ubyte (ram k) pt vb) \<and>
     (r = 0 \<longrightarrow> (\<forall>vb. dist va vb < length src \<longrightarrow>
        ubyte (ram k') pt vb = Some (src ! dist va vb)))"

lemma mapped_same:
  "(\<And>vb. user_page m' pt vb = user_page m pt vb) \<Longrightarrow> mapped m' pt va n = mapped m pt va n"
  by (simp add: mapped_def)

lemma copied_trans:
  assumes u: "user_ok k ps pt" and va: "user_page (ram k) pt va = Some pa"
    and n: "n = 4096 - unat va mod PGSIZE" "n < length src" and l: "length src < 2 ^ 64"
    and k1: "k1 = k\<lparr>ram := put_bytes (ram k) (unat (pa + (va - PGROUNDDOWN va))) (take n src)\<rparr>"
    and c: "copied pt ps (va + of_nat n) (drop n src) k1 r k'"
  shows "copied pt ps va src k r k'"
proof -
  have tl: "length (take n src) = n" "length (take n src) \<le> PGSIZE - unat va mod PGSIZE"
    using n by (simp_all add: PGSIZE_def)
  note st = copyout_step [OF u va tl(2) k1, unfolded tl(1)]
  have np: "0 < n" using n(1) by (simp add: PGSIZE_def)
  have m: "mapped (ram k) pt va (length src) \<longleftrightarrow>
      mapped (ram k1) pt (va + of_nat n) (length (drop n src))"
    using mapped_split [of n "length src"] mapped_page [OF np, of va] n l va tl
      mapped_same [OF st(2)] by simp
  have d: "dist (va + of_nat n) vb =
      (if n \<le> dist va vb then dist va vb - n else dist va vb + 2 ^ 64 - n)" for vb
    using n(2) l by (intro dist_shift) simp
  have out: "ubyte (ram k') pt vb = ubyte (ram k1) pt vb"
    if "length src - n \<le> dist (va + of_nat n) vb" for vb
    using c that by (simp add: copied_def)
  show ?thesis
    unfolding copied_def
  proof (intro conjI allI impI)
    show "user_ok k' ps pt" using c by (simp add: copied_def)
    show "r = (if mapped (ram k) pt va (length src) then 0 else -1)"
      using c m by (simp add: copied_def)
    fix vb
    show "user_page (ram k') pt vb = user_page (ram k) pt vb"
      using c st(2) by (simp add: copied_def)
    show "ubyte (ram k') pt vb = ubyte (ram k) pt vb" if "length src \<le> dist va vb"
      using that n(2) out [of vb] d [of vb] st(3) [of vb] by simp
    show "ubyte (ram k') pt vb = Some (src ! dist va vb)" if "r = 0" "dist va vb < length src"
    proof (cases "dist va vb < n")
      case True
      then show ?thesis using out [of vb] d [of vb] st(3) [of vb] l by simp
    next
      case False
      then show ?thesis using c that d [of vb] by (simp add: copied_def)
    qed
  qed
qed

lemma walkaddr_user:
  "user_ok k ps pt \<Longrightarrow>
     walkaddr pt va k = Inr (case user_page (ram k) pt va of None \<Rightarrow> 0 | Some pa \<Rightarrow> pa)"
  by (intro walkaddr_eq user_okD)

lemma user_page_not_null: "user_ok k ps pt \<Longrightarrow> user_page (ram k) pt va = Some pa \<Longrightarrow> pa \<noteq> 0"
  using user_okD(3) [of k ps pt] user_okD(4) [of k ps pt va pa] by (auto simp: managed_def)

lemma copyout_ok:
  assumes "user_ok k ps pt" "length src < 2 ^ 64"
  shows "\<exists>r k'. copyout pt va src k = Inr (r, k') \<and> copied pt ps va src k r k'"
  using assms
proof (induction pt va src k rule: copyout.induct)
  case (1 pt va src k)
  show ?case
  proof (cases "src = []")
    case True
    then show ?thesis using "1.prems" by (simp add: copyout.simps copied_def)
  next
    case False
    define n where "n = chunk va (length src)"
    have n: "0 < n" "n \<le> length src" "n \<le> 4096 - unat va mod PGSIZE"
      using False chunk_pos [of "length src" va] by (auto simp: n_def chunk_eq)
    show ?thesis
    proof (cases "user_page (ram k) pt va")
      case None
      then have "\<not> mapped (ram k) pt va (length src)"
        using False by (auto simp: mapped_def dist_def intro!: exI [of _ va])
      with None False "1.prems" show ?thesis
        by (simp add: copyout.simps [of pt va] Let_def walkaddr_user copied_def)
    next
      case (Some pa)
      let ?k1 = "k\<lparr>ram := put_bytes (ram k) (unat (pa + (va - PGROUNDDOWN va))) (take n src)\<rparr>"
      have pa: "pa \<noteq> 0" using user_page_not_null "1.prems"(1) Some .
      have eq: "copyout pt va src k = copyout pt (PGROUNDDOWN va + 4096) (drop n src) ?k1"
        using False pa Some "1.prems"(1)
        by (simp add: copyout.simps [of pt va src k] Let_def walkaddr_user n_def)
      have tl: "length (take n src) = n" "length (take n src) \<le> PGSIZE - unat va mod PGSIZE"
        using n by (simp_all add: PGSIZE_def)
      note st = copyout_step [OF "1.prems"(1) Some tl(2) refl, unfolded tl(1)]
      show ?thesis
      proof (cases "n = length src")
        case True
        then have "copied pt ps va src k 0 ?k1"
          using st mapped_page [OF n(1), of va "ram k" pt] n(3) Some
          by (simp add: copied_def PGSIZE_def)
        with eq True show ?thesis by (simp add: copyout.simps [of _ _ "[]"])
      next
        case False
        with n have n4: "n = 4096 - unat va mod PGSIZE" "n < length src"
          by (auto simp: n_def chunk_eq)
        have "walkaddr pt (PGROUNDDOWN va) k = Inr pa" using "1.prems"(1) Some by (simp add: walkaddr_user)
        moreover have "length (drop n src) < 2 ^ 64" using "1.prems"(2) by simp
        note "1.IH" [OF \<open>src \<noteq> []\<close> refl calculation pa n_def refl st(1) this]
        ultimately
        obtain r k' where r: "copyout pt (PGROUNDDOWN va + 4096) (drop n src) ?k1 = Inr (r, k')"
            "copied pt ps (PGROUNDDOWN va + 4096) (drop n src) ?k1 r k'"
          by blast
        with copied_trans [OF "1.prems"(1) Some n4 "1.prems"(2) refl] next_va [OF n4(1)] eq
        show ?thesis by auto
      qed
    qed
  qed
qed

text \<open>What \<open>copyin\<close> promises, and the bytes of one page.\<close>

definition fetched :: "mem \<Rightarrow> nat \<Rightarrow> u64 \<Rightarrow> nat \<Rightarrow> u8 list \<Rightarrow> bool" where
  "fetched m pt va n bs \<longleftrightarrow> length bs = n \<and>
     (\<forall>vb. dist va vb < n \<longrightarrow> ubyte m pt vb = Some (bs ! dist va vb))"

lemma fetched_page:
  assumes u: "user_ok k ps pt" and va: "user_page (ram k) pt va = Some pa"
    and n: "n \<le> PGSIZE - unat va mod PGSIZE"
  shows "fetched (ram k) pt va n (bytes (ram k) (unat (pa + (va - PGROUNDDOWN va))) n)"
  unfolding fetched_def
proof (intro conjI allI impI)
  fix vb assume d: "dist va vb < n"
  with dist_page [OF n d] user_page_cong [of vb va "ram k" pt] va pa_plus_off [OF user_okD(4) [OF u va]]
  show "ubyte (ram k) pt vb =
      Some (bytes (ram k) (unat (pa + (va - PGROUNDDOWN va))) n ! dist va vb)"
    by (simp add: ubyte_def add.assoc)
qed simp

lemma fetched_append:
  assumes "fetched m pt va n bs" "fetched m pt (va + of_nat n) l cs" "n + l < 2 ^ 64"
  shows "fetched m pt va (n + l) (bs @ cs)"
  using assms dist_shift [of n va] by (auto simp: fetched_def nth_append)

lemma copyin_ok:
  assumes "user_ok k ps pt" "len < 2 ^ 64"
  shows "\<exists>bs. copyin pt va len k = Inr (if mapped (ram k) pt va len then 0 else -1, bs) \<and>
    (mapped (ram k) pt va len \<longrightarrow> fetched (ram k) pt va len bs)"
  using assms
proof (induction pt va len k rule: copyin.induct)
  case (1 pt va len k)
  show ?case
  proof (cases "len = 0")
    case True
    then show ?thesis by (simp add: copyin.simps fetched_def)
  next
    case False
    define n where "n = chunk va len"
    have n: "0 < n" "n \<le> len" "n \<le> PGSIZE - unat va mod PGSIZE"
      using False chunk_pos [of len va] by (auto simp: n_def chunk_eq PGSIZE_def)
    show ?thesis
    proof (cases "user_page (ram k) pt va")
      case None
      then have "\<not> mapped (ram k) pt va len"
        using False by (auto simp: mapped_def dist_def intro!: exI [of _ va])
      with None False "1.prems" show ?thesis
        by (simp add: copyin.simps [of pt va] Let_def walkaddr_user)
    next
      case (Some pa)
      let ?bs = "bytes (ram k) (unat (pa + (va - PGROUNDDOWN va))) n"
      have pa: "pa \<noteq> 0" using user_page_not_null "1.prems"(1) Some .
      have eq: "copyin pt va len k =
          rbind (copyin pt (PGROUNDDOWN va + 4096) (len - n) k) (\<lambda>(r, rest). Inr (r, ?bs @ rest))"
        using False pa Some "1.prems"(1)
        by (simp add: copyin.simps [of pt va len k] Let_def walkaddr_user n_def)
      note pg = fetched_page [OF "1.prems"(1) Some n(3)]
      show ?thesis
      proof (cases "n = len")
        case True
        with eq pg mapped_page [OF n(1,3), of "ram k" pt] Some show ?thesis
          by (simp add: copyin.simps [of _ _ 0])
      next
        case False
        with n have n4: "n = 4096 - unat va mod PGSIZE"
          by (auto simp: n_def chunk_eq)
        have wa: "walkaddr pt (PGROUNDDOWN va) k = Inr pa"
          using "1.prems"(1) Some by (simp add: walkaddr_user)
        have "0 < len" "len - n < 2 ^ 64" using n "1.prems"(2) by simp_all
        from "1.IH" [OF this(1) refl wa pa n_def refl "1.prems"(1) this(2)]
        obtain cs where cs: "copyin pt (va + of_nat n) (len - n) k =
              Inr (if mapped (ram k) pt (va + of_nat n) (len - n) then 0 else -1, cs)"
            "mapped (ram k) pt (va + of_nat n) (len - n) \<longrightarrow>
              fetched (ram k) pt (va + of_nat n) (len - n) cs"
          unfolding next_va [OF n4] by blast
        have m: "mapped (ram k) pt va len \<longleftrightarrow> mapped (ram k) pt (va + of_nat n) (len - n)"
          using mapped_split [OF n(2) "1.prems"(2)] mapped_page [OF n(1,3), of "ram k" pt] Some
          by simp
        show ?thesis
          using eq cs m fetched_append [OF pg, of "len - n" cs] n(2) "1.prems"(2)
          by (simp add: next_va [OF n4])
      qed
    qed
  qed
qed

section \<open>A small address space\<close>

text \<open>
  A page table with one user page, at virtual address 0: the root, one table of each lower
  level and the page are the four pages from \<open>KERNBASE\<close> on.
\<close>

definition sample_root :: nat where
  "sample_root = KERNBASE"

definition sample_ram :: mem where
  "sample_ram =
     store64 (store64 (store64 (\<lambda>_. 0) 0x80000000 (PA2PTE 0x80001000 OR PTE_V))
       0x80001000 (PA2PTE 0x80002000 OR PTE_V))
       0x80002000 (PA2PTE 0x80003000 OR (PTE_R OR PTE_W OR PTE_U OR PTE_V))"

definition sample_kmem :: kmem where
  "sample_kmem = \<lparr>kmlock = False, freelist = 0, kend = KERNBASE, ram = sample_ram\<rparr>"

lemma sample_load:
  "load64 sample_ram 0x80000000 = PA2PTE 0x80001000 OR PTE_V"
  "load64 sample_ram 0x80001000 = PA2PTE 0x80002000 OR PTE_V"
  "load64 sample_ram 0x80002000 = PA2PTE 0x80003000 OR (PTE_R OR PTE_W OR PTE_U OR PTE_V)"
  by (simp_all add: sample_ram_def load64_store64_other)

lemma load64_zero: "load64 (\<lambda>_. 0) a = 0"
  by (simp add: load64_def le_load_def)

lemma sample_load_zero:
  assumes "p \<in> {0x80000000, 0x80001000, 0x80002000}" "0 < i" "i < 512"
  shows "load64 sample_ram (p + 8 * i) = 0"
  using assms
  by (auto simp: sample_ram_def load64_store64_other load64_zero)

lemma sample_pa:
  "PTE2PA (PA2PTE 0x80001000 OR PTE_V) = 0x80001000"
  "PTE2PA (PA2PTE 0x80002000 OR PTE_V) = 0x80002000"
  "PTE2PA (PA2PTE 0x80003000 OR (PTE_R OR PTE_W OR PTE_U OR PTE_V)) = 0x80003000"
  by (rule PTE2PA_pack; simp add: PTE_V_def PTE_R_def PTE_W_def PTE_U_def PGSIZE_def)+

lemma sample_flags:
  "(PA2PTE 0x80001000 OR PTE_V) AND PTE_V \<noteq> 0"
  "(PA2PTE 0x80002000 OR PTE_V) AND PTE_V \<noteq> 0"
  "(PA2PTE 0x80003000 OR (PTE_R OR PTE_W OR PTE_U OR PTE_V)) AND PTE_V \<noteq> 0"
  "(PA2PTE 0x80003000 OR (PTE_R OR PTE_W OR PTE_U OR PTE_V)) AND PTE_U \<noteq> 0"
  by (simp_all add: PA2PTE_def PTE_V_def PTE_R_def PTE_W_def PTE_U_def)

lemma sample_child:
  "i < 512 \<Longrightarrow> child sample_ram 0x80000000 i = (if i = 0 then Some 0x80001000 else None)"
  "i < 512 \<Longrightarrow> child sample_ram 0x80001000 i = (if i = 0 then Some 0x80002000 else None)"
proof -
  have v: "PTE_V \<noteq> 0" by (simp add: PTE_V_def)
  show "child sample_ram 0x80000000 i = (if i = 0 then Some 0x80001000 else None)" if "i < 512"
    using that v sample_load_zero [of "0x80000000" i] sample_load(1) sample_pa(1)
    by (cases "i = 0") (simp_all add: child_def)
  show "child sample_ram 0x80001000 i = (if i = 0 then Some 0x80002000 else None)" if "i < 512"
    using that v sample_load_zero [of "0x80001000" i] sample_load(2) sample_pa(2)
    by (cases "i = 0") (simp_all add: child_def)
qed

lemma sample_node:
  assumes "path_ok is" "node sample_ram sample_root is = Some a"
  shows "is = [] \<and> a = 0x80000000 \<or> is = [0] \<and> a = 0x80001000 \<or> is = [0, 0] \<and> a = 0x80002000"
proof (cases "is")
  case (Cons i js)
  with assms have i: "i = 0" "node sample_ram 0x80001000 js = Some a" "path_ok (i # js)"
    by (auto simp: path_ok_def sample_root_def KERNBASE_def sample_child split: if_splits)
  show ?thesis
  proof (cases js)
    case Nil
    with i Cons show ?thesis by simp
  next
    case (Cons j ks)
    with i have "j = 0" "ks = []" "node sample_ram 0x80002000 ks = Some a"
      by (auto simp: path_ok_def sample_child split: if_splits)
    with Cons i \<open>is = i # js\<close> show ?thesis by simp
  qed
qed (use assms in \<open>simp add: sample_root_def KERNBASE_def\<close>)

lemma sample_pte:
  "pte sample_ram sample_root va =
     (if PX 2 va = 0 \<and> PX 1 va = 0 \<and> PX 0 va = 0
      then PA2PTE 0x80003000 OR (PTE_R OR PTE_W OR PTE_U OR PTE_V) else 0)"
proof -
  have z: "unat (PX l va) = 0 \<longleftrightarrow> PX l va = 0" for l by (simp add: unat_eq_zero)
  have "node sample_ram sample_root (idx va) =
      (if PX 2 va = 0 \<and> PX 1 va = 0 then Some 0x80002000 else None)"
    using PX_lt [of 2 va] PX_lt [of 1 va]
    by (simp add: idx_def sample_root_def KERNBASE_def sample_child z)
  moreover have "load64 sample_ram (0x80002000 + 8 * unat (PX 0 va)) = 0" if "PX 0 va \<noteq> 0"
    by (rule sample_load_zero) (use that PX_lt [of 0 va] in \<open>simp_all add: unat_gt_0\<close>)
  ultimately show ?thesis
    by (simp add: pte_def sample_load)
qed

lemma sample_user_page:
  "user_page sample_ram sample_root va = (if unat va < 4096 then Some 0x80003000 else None)"
proof -
  have "PX 2 va = 0 \<and> PX 1 va = 0 \<and> PX 0 va = 0 \<and> va < MAXVA \<longleftrightarrow> unat va < 4096"
  proof
    assume "PX 2 va = 0 \<and> PX 1 va = 0 \<and> PX 0 va = 0 \<and> va < MAXVA"
    with page_index [of va] show "unat va < 4096"
      by (simp add: PGSIZE_def div_eq_0_iff)
  next
    assume "unat va < 4096"
    then show "PX 2 va = 0 \<and> PX 1 va = 0 \<and> PX 0 va = 0 \<and> va < MAXVA"
      by (auto simp: word_less_nat_alt unat_MAXVA unat_PX simp flip: unat_eq_zero)
  qed
  then show ?thesis
    by (auto simp: user_page_def sample_pte sample_pa sample_flags)
qed

lemma sample_user_ok: "user_ok sample_kmem [] sample_root"
proof -
  have km: "kmem_ok sample_kmem []"
    by (simp add: kmem_ok_def sample_kmem_def KERNBASE_def)
  have mg: "managed (kend sample_kmem) 0x80000000" "managed (kend sample_kmem) 0x80001000"
      "managed (kend sample_kmem) 0x80002000" "managed (kend sample_kmem) 0x80003000"
    by (simp_all add: managed_def sample_kmem_def KERNBASE_def PHYSTOP_def PGSIZE_def)
  have sn: "is = [] \<and> a = 0x80000000 \<or> is = [0] \<and> a = 0x80001000 \<or> is = [0, 0] \<and> a = 0x80002000"
    if "path_ok is" "node (ram sample_kmem) sample_root is = Some a" for "is" a
    using sample_node [of "is" a] that by (simp add: sample_kmem_def)
  have nd: "managed (kend sample_kmem) a \<and> a \<noteq> 0x80003000"
    if "path_ok is" "node (ram sample_kmem) sample_root is = Some a" for "is" a
    using sn [OF that] by (elim disjE conjE) (simp_all add: mg)
  have inj: "is = js" if "path_ok is" "path_ok js" "node (ram sample_kmem) sample_root is = Some a"
      "node (ram sample_kmem) sample_root js = Some a" for "is" js a
    using sn [OF that(1,3)] sn [OF that(2,4)] by (elim disjE conjE) simp_all
  have t: "table_ok sample_kmem [] sample_root"
    unfolding table_ok_def using nd inj by (metis empty_iff list.set(1))
  have up: "user_page (ram sample_kmem) sample_root va = Some pa \<longleftrightarrow> unat va < 4096 \<and> pa = 0x80003000"
    for va pa by (auto simp: sample_kmem_def sample_user_page)
  have pa: "unat (0x80003000 :: u64) = 0x80003000" by simp
  have "node (ram sample_kmem) sample_root is \<noteq> Some 0x80003000" if "path_ok is" for "is"
    using nd [OF that] by blast
  then show ?thesis
    unfolding user_ok_def up using km t mg(4) by (auto simp: pa pgno_def PGSIZE_def)
qed

section \<open>Properties\<close>

text \<open>
  C19: \<open>mappages\<close> on a well-formed page table and a range of unmapped addresses below
  \<open>MAXVA\<close> returns; it returns 0 or, when the pool is exhausted, -1. The table and the page
  pool stay well formed. On success every page of the range translates to the corresponding
  physical page with the given permissions, and no address outside the range changes its
  translation, on success or failure.
\<close>
theorem mappages_maps:
  assumes "kmem_ok k ps" "table_ok k ps pt" "len \<noteq> 0" "unat va + unat len \<le> 2 ^ 38"
    and "\<And>vb. pgno va \<le> pgno vb \<Longrightarrow> pgno vb \<le> pgno (va + len - 1) \<Longrightarrow>
      pte (ram k) pt vb AND PTE_V = 0"
  shows "\<exists>r k' ps'. mappages pt va len pa perm k = Inr (r, k') \<and>
    maps_range pt va (va + len - 1) pa perm k ps r k' ps'"
  using assms by (rule mappages_ok)

theorem mappages_maps_witness:
  "\<exists>r k' ps'. mappages sample_root 0x1000 0x1000 0x80004000 PTE_R sample_kmem = Inr (r, k') \<and>
     maps_range sample_root 0x1000 0x1FFF 0x80004000 PTE_R sample_kmem [] r k' ps'"
proof -
  have free: "pte (ram sample_kmem) sample_root vb AND PTE_V = 0"
    if "pgno 0x1000 \<le> pgno vb" "pgno vb \<le> pgno (0x1000 + 0x1000 - 1)" for vb
  proof -
    have "unat vb div 4096 = 1" using that by (simp add: pgno_def PGSIZE_def)
    then have "PX 0 vb \<noteq> 0" by (auto simp: unat_PX simp flip: unat_eq_zero)
    then show ?thesis by (simp add: sample_kmem_def sample_pte)
  qed
  have "\<exists>r k' ps'. mappages sample_root 0x1000 0x1000 0x80004000 PTE_R sample_kmem = Inr (r, k') \<and>
      maps_range sample_root 0x1000 (0x1000 + 0x1000 - 1) 0x80004000 PTE_R sample_kmem [] r k' ps'"
    by (rule mappages_maps [OF _ _ _ _ free]) (use sample_user_ok in \<open>simp_all add: user_ok_def\<close>)
  then show ?thesis by simp
qed

text \<open>
  C18: Copying to user memory and back is the identity. \<open>copyout\<close> of fewer than \<open>2 ^ 64\<close>
  bytes returns 0 exactly if every page of the range is mapped for the user, and -1
  otherwise; bytes of the address space outside the range keep their values. After a
  successful \<open>copyout\<close>, \<open>copyin\<close> of the same range returns the bytes written.
\<close>
theorem copyout_copyin_roundtrip:
  assumes "user_ok k ps pt" "length src < 2 ^ 64"
  shows "\<exists>r k'. copyout pt va src k = Inr (r, k') \<and> user_ok k' ps pt \<and>
    r = (if mapped (ram k) pt va (length src) then 0 else -1) \<and>
    (\<forall>vb. length src \<le> dist va vb \<longrightarrow> ubyte (ram k') pt vb = ubyte (ram k) pt vb) \<and>
    (r = 0 \<longrightarrow> copyin pt va (length src) k' = Inr (0, src))"
proof -
  obtain r k' where c: "copyout pt va src k = Inr (r, k')" "copied pt ps va src k r k'"
    using copyout_ok [OF assms] by blast
  have u: "user_ok k' ps pt" using c(2) by (simp add: copied_def)
  have m: "mapped (ram k') pt va (length src) = mapped (ram k) pt va (length src)"
    by (rule mapped_same) (use c(2) in \<open>simp add: copied_def\<close>)
  have "copyin pt va (length src) k' = Inr (0, src)" if "r = 0"
  proof -
    have mp: "mapped (ram k) pt va (length src)"
      using c(2) that by (simp add: copied_def split: if_splits)
    then obtain bs where bs: "copyin pt va (length src) k' = Inr (0, bs)"
        "fetched (ram k') pt va (length src) bs"
      using copyin_ok [OF u assms(2), of va] m by auto
    have "bs ! i = src ! i" if i: "i < length src" for i
    proof -
      have d: "dist va (va + of_nat i) = i"
        using i assms(2) by (simp add: dist_def unat_of_nat_small)
      have "ubyte (ram k') pt (va + of_nat i) = Some (bs ! i)"
        using bs(2) i d unfolding fetched_def by metis
      moreover have "ubyte (ram k') pt (va + of_nat i) = Some (src ! i)"
        using c(2) i d \<open>r = 0\<close> unfolding copied_def by metis
      ultimately show ?thesis by simp
    qed
    then have "bs = src" using bs(2) by (intro nth_equalityI) (simp_all add: fetched_def)
    with bs(1) show ?thesis by simp
  qed
  with c u show ?thesis
    by (intro exI [of _ r] exI [of _ k']) (auto simp: copied_def)
qed

theorem copyout_copyin_roundtrip_witness:
  "\<exists>k'. copyout sample_root 10 [1, 2, 3] sample_kmem = Inr (0, k') \<and>
     copyin sample_root 10 3 k' = Inr (0, [1, 2, 3])"
proof -
  have "user_page sample_ram sample_root vb \<noteq> None" if "dist 10 vb < 3" for vb
  proof -
    have "vb = 10 + of_nat (dist 10 vb)" by (simp add: dist_def)
    moreover have "dist 10 vb = 0 \<or> dist 10 vb = 1 \<or> dist 10 vb = 2" using that by linarith
    ultimately have "vb = 10 \<or> vb = 11 \<or> vb = 12" by fastforce
    then show ?thesis by (auto simp: sample_user_page)
  qed
  then have "mapped (ram sample_kmem) sample_root 10 3"
    by (simp add: mapped_def sample_kmem_def)
  with copyout_copyin_roundtrip [OF sample_user_ok, of "[1, 2, 3]" 10] show ?thesis
    by (simp add: numeral_3_eq_3) auto
qed

end
