(* ===== verification/Bytes.thy ===== *)
theory Bytes
  imports Prelude
begin

text \<open>
  Byte blocks: the little-endian integers that the kernel reads and writes in a disk block
  through a pointer of another type, and the replacement of a part of a block, as \<open>memmove\<close>
  and \<open>memset\<close> into a buffer do.
\<close>

section \<open>Part of a block\<close>

definition slice :: "nat \<Rightarrow> nat \<Rightarrow> 'a list \<Rightarrow> 'a list" where
  "slice off n bs = take n (drop off bs)"

definition splice :: "nat \<Rightarrow> 'a list \<Rightarrow> 'a list \<Rightarrow> 'a list" where
  "splice off xs bs = take off bs @ xs @ drop (off + length xs) bs"

lemma length_slice [simp]: "off + n \<le> length bs \<Longrightarrow> length (slice off n bs) = n"
  by (simp add: slice_def)

lemma length_splice [simp]: "off + length xs \<le> length bs \<Longrightarrow> length (splice off xs bs) = length bs"
  by (simp add: splice_def)

lemma nth_splice:
  "off + length xs \<le> length bs \<Longrightarrow> i < length bs \<Longrightarrow>
   splice off xs bs ! i = (if off \<le> i \<and> i < off + length xs then xs ! (i - off) else bs ! i)"
  by (auto simp: splice_def nth_append)

lemma nth_slice [simp]: "i < n \<Longrightarrow> off + n \<le> length bs \<Longrightarrow> slice off n bs ! i = bs ! (off + i)"
  by (simp add: slice_def)

lemma slice_splice_same [simp]:
  "off + length xs \<le> length bs \<Longrightarrow> n = length xs \<Longrightarrow> slice off n (splice off xs bs) = xs"
  by (simp add: slice_def splice_def)

lemma slice_splice_other:
  assumes "off + length xs \<le> length bs" "off' + n \<le> length bs" "off' + n \<le> off \<or> off + length xs \<le> off'"
  shows "slice off' n (splice off xs bs) = slice off' n bs"
  by (rule nth_equalityI) (use assms in \<open>auto simp: nth_splice\<close>)

lemma splice_id: "off + n \<le> length bs \<Longrightarrow> splice off (slice off n bs) bs = bs"
  by (rule nth_equalityI) (auto simp: nth_splice)

lemma splice_all: "length xs = length bs \<Longrightarrow> splice 0 xs bs = xs"
  by (simp add: splice_def)

section \<open>Little-endian integers\<close>

definition le16 :: "u16 \<Rightarrow> u8 list" where
  "le16 w = [ucast w, ucast (drop_bit 8 w)]"

definition de16 :: "u8 list \<Rightarrow> u16" where
  "de16 bs = ucast (bs ! 0) OR push_bit 8 (ucast (bs ! 1))"

definition le32 :: "u32 \<Rightarrow> u8 list" where
  "le32 w = [ucast w, ucast (drop_bit 8 w), ucast (drop_bit 16 w), ucast (drop_bit 24 w)]"

definition de32 :: "u8 list \<Rightarrow> u32" where
  "de32 bs = ucast (bs ! 0) OR push_bit 8 (ucast (bs ! 1)) OR push_bit 16 (ucast (bs ! 2)) OR
     push_bit 24 (ucast (bs ! 3))"

lemma length_le [simp]: "length (le16 w) = 2" "length (le32 v) = 4"
  by (simp_all add: le16_def le32_def)

lemma de16_le16 [simp]: "de16 (le16 w) = w"
  unfolding de16_def le16_def
  by (rule bit_word_eqI) (auto simp: bit_simps)

lemma de32_le32 [simp]: "de32 (le32 w) = w"
proof (rule bit_word_eqI)
  fix n show "bit (de32 (le32 w)) n = bit w n" if "n < LENGTH(32)"
    unfolding de32_def le32_def using that by (cases "24 \<le> n"; cases "16 \<le> n") (auto simp: bit_simps)
qed

lemma bit_u8: "8 \<le> n \<Longrightarrow> bit (a :: u8) n = False"
  using bit_imp_le_length [of a n] by auto

lemma list4: "length bs = 4 \<Longrightarrow> bs = [bs ! 0, bs ! 1, bs ! 2, bs ! 3]"
  by (cases bs; cases "tl bs"; cases "tl (tl bs)"; cases "tl (tl (tl bs))") auto

lemma list2: "length bs = 2 \<Longrightarrow> bs = [bs ! 0, bs ! 1]"
  by (cases bs; cases "tl bs") auto

lemma le32_de32 [simp]: "length bs = 4 \<Longrightarrow> le32 (de32 bs) = bs"
proof -
  assume "length bs = 4"
  then have "bs = [bs ! 0, bs ! 1, bs ! 2, bs ! 3]" by (rule list4)
  then obtain a b c d where "bs = [a, b, c, d]" by blast
  moreover have "le32 (de32 [a, b, c, d]) = [a, b, c, d]"
    unfolding de32_def le32_def by (auto intro!: bit_word_eqI simp: bit_simps bit_u8)
  ultimately show ?thesis by simp
qed

lemma le16_de16 [simp]: "length bs = 2 \<Longrightarrow> le16 (de16 bs) = bs"
proof -
  assume "length bs = 2"
  then have "bs = [bs ! 0, bs ! 1]" by (rule list2)
  then obtain a b where "bs = [a, b]" by blast
  moreover have "le16 (de16 [a, b]) = [a, b]"
    unfolding de16_def le16_def by (auto intro!: bit_word_eqI simp: bit_simps bit_u8)
  ultimately show ?thesis by simp
qed

text \<open>The block as an array of 32-bit integers, \<open>((uint*)data)[i]\<close>.\<close>

definition get32 :: "u8 list \<Rightarrow> nat \<Rightarrow> u32" where
  "get32 bs i = de32 (slice (4 * i) 4 bs)"

definition put32 :: "nat \<Rightarrow> u32 \<Rightarrow> u8 list \<Rightarrow> u8 list" where
  "put32 i w bs = splice (4 * i) (le32 w) bs"

lemma length_put32 [simp]: "4 * i + 4 \<le> length bs \<Longrightarrow> length (put32 i w bs) = length bs"
  by (simp add: put32_def)

lemma get32_put32:
  "4 * i + 4 \<le> length bs \<Longrightarrow> 4 * j + 4 \<le> length bs \<Longrightarrow>
   get32 (put32 i w bs) j = (if j = i then w else get32 bs j)"
proof (cases "j = i")
  case False
  then have "4 * j + 4 \<le> 4 * i \<or> 4 * i + 4 \<le> 4 * j" by arith
  then show "4 * i + 4 \<le> length bs \<Longrightarrow> 4 * j + 4 \<le> length bs \<Longrightarrow> ?thesis"
    using False by (simp add: get32_def put32_def slice_splice_other)
qed (simp add: get32_def put32_def)

end
