(* ===== verification/Bio.thy ===== *)
theory Bio
  imports Sleeplock Bytes
begin

text \<open>
  kernel/bio.c: the buffer cache. The buffers are numbered; number \<open>NBUF\<close> is
  \<open>bcache.head\<close> and \<open>Suc NBUF\<close> stands for the null pointer. The list in order of last use is the
  doubly linked ring that the source keeps in \<open>prev\<close> and \<open>next\<close>.

  The disk is a map from block numbers to blocks, as the driver presents it: one device,
  whatever \<open>dev\<close> is. \<open>dwrites\<close> records the blocks in the order in which they are written, so
  that a crash leaves the disk after some prefix of them. \<open>woken\<close> records the calls of
  \<open>wakeup\<close>. A process that would wait for a buffer stops with \<open>Block\<close>.
\<close>

section \<open>State\<close>

definition BSIZE :: nat where
  "BSIZE = 1024"

definition NBUF :: nat where
  "NBUF = 30"

record buf =
  valid :: bool
  disk_owned :: bool
  dev :: u32
  blockno :: u32
  blk :: sleeplock
  refcnt :: u32
  prev :: nat
  bnext :: nat
  data :: "u8 list"

record bcache =
  bclock :: bool
  bufs :: "nat \<Rightarrow> buf"
  disk :: "u32 \<Rightarrow> u8 list"
  dwrites :: "(u32 \<times> u8 list) list"
  woken :: "chan list"

definition set_buf :: "nat \<Rightarrow> (buf \<Rightarrow> buf) \<Rightarrow> 'a bcache_scheme \<Rightarrow> 'a bcache_scheme" where
  "set_buf b f s = s\<lparr>bufs := (bufs s)(b := f (bufs s b))\<rparr>"

definition acquire_bcache :: "'a bcache_scheme \<Rightarrow> 'a bcache_scheme res" where
  "acquire_bcache s = rbind (spin_acquire (bclock s)) (\<lambda>h. Inr (s\<lparr>bclock := h\<rparr>))"

definition release_bcache :: "'a bcache_scheme \<Rightarrow> 'a bcache_scheme res" where
  "release_bcache s = rbind (spin_release (bclock s)) (\<lambda>h. Inr (s\<lparr>bclock := h\<rparr>))"

section \<open>Operations\<close>

definition binit_one :: "nat \<Rightarrow> 'a bcache_scheme \<Rightarrow> 'a bcache_scheme" where
  "binit_one b s =
     (let s = set_buf b (\<lambda>x. x\<lparr>bnext := bnext (bufs s NBUF)\<rparr>) s;
          s = set_buf b (\<lambda>x. x\<lparr>prev := NBUF\<rparr>) s;
          s = set_buf b (\<lambda>x. x\<lparr>blk := initsleeplock (blk x)\<rparr>) s;
          s = set_buf (bnext (bufs s NBUF)) (\<lambda>x. x\<lparr>prev := b\<rparr>) s
      in set_buf NBUF (\<lambda>x. x\<lparr>bnext := b\<rparr>) s)"

definition binit :: "'a bcache_scheme \<Rightarrow> 'a bcache_scheme" where
  "binit s =
     (let s = s\<lparr>bclock := False\<rparr>;
          s = set_buf NBUF (\<lambda>x. x\<lparr>prev := NBUF, bnext := NBUF\<rparr>) s
      in fold binit_one [0..<NBUF] s)"

text \<open>The two loops of \<open>bget\<close>. The ring has \<open>NBUF\<close> buffers, so that \<open>Suc NBUF\<close> tests reach the head.\<close>

fun bget_cached :: "nat \<Rightarrow> u32 \<Rightarrow> u32 \<Rightarrow> nat \<Rightarrow> 'a bcache_scheme \<Rightarrow> nat option res" where
  "bget_cached 0 d bn b s = Inl Hang"
| "bget_cached (Suc n) d bn b s =
     (if b = NBUF then Inr None
      else if NBUF < b then Inl (Undef ''null buf'')
      else if dev (bufs s b) = d \<and> blockno (bufs s b) = bn then Inr (Some b)
      else bget_cached n d bn (bnext (bufs s b)) s)"

fun bget_unused :: "nat \<Rightarrow> nat \<Rightarrow> 'a bcache_scheme \<Rightarrow> nat option res" where
  "bget_unused 0 b s = Inl Hang"
| "bget_unused (Suc n) b s =
     (if b = NBUF then Inr None
      else if NBUF < b then Inl (Undef ''null buf'')
      else if refcnt (bufs s b) = 0 then Inr (Some b)
      else bget_unused n (prev (bufs s b)) s)"

definition lock_buf :: "int \<Rightarrow> nat \<Rightarrow> 'a bcache_scheme \<Rightarrow> 'a bcache_scheme res" where
  "lock_buf me b s =
     rbind (acquiresleep me (SleepChan (BufLock b)) (blk (bufs s b))) (\<lambda>l.
     Inr (set_buf b (\<lambda>x. x\<lparr>blk := l\<rparr>) s))"

definition bget :: "int \<Rightarrow> u32 \<Rightarrow> u32 \<Rightarrow> 'a bcache_scheme \<Rightarrow> (nat \<times> 'a bcache_scheme) res" where
  "bget me d bn s =
     rbind (acquire_bcache s) (\<lambda>s.
     rbind (bget_cached (Suc NBUF) d bn (bnext (bufs s NBUF)) s) (\<lambda>r.
     case r of
       Some b \<Rightarrow>
         let s = set_buf b (\<lambda>x. x\<lparr>refcnt := refcnt x + 1\<rparr>) s in
         rbind (release_bcache s) (\<lambda>s.
         rbind (lock_buf me b s) (\<lambda>s. Inr (b, s)))
     | None \<Rightarrow>
         rbind (bget_unused (Suc NBUF) (prev (bufs s NBUF)) s) (\<lambda>r.
         case r of
           Some b \<Rightarrow>
             let s = set_buf b (\<lambda>x. x\<lparr>dev := d, blockno := bn, valid := False, refcnt := 1\<rparr>) s in
             rbind (release_bcache s) (\<lambda>s.
             rbind (lock_buf me b s) (\<lambda>s. Inr (b, s)))
         | None \<Rightarrow> Inl (Panic ''bget: no buffers''))))"

text \<open>What a call of \<open>virtio_disk_rw\<close> does to the buffer and to the disk, once it returns.\<close>

definition disk_rw :: "nat \<Rightarrow> bool \<Rightarrow> 'a bcache_scheme \<Rightarrow> 'a bcache_scheme" where
  "disk_rw b write s =
     (let n = blockno (bufs s b) in
      if write then s\<lparr>disk := (disk s)(n := data (bufs s b)), dwrites := dwrites s @ [(n, data (bufs s b))]\<rparr>
      else set_buf b (\<lambda>x. x\<lparr>data := disk s n\<rparr>) s)"

definition bread :: "int \<Rightarrow> u32 \<Rightarrow> u32 \<Rightarrow> 'a bcache_scheme \<Rightarrow> (nat \<times> 'a bcache_scheme) res" where
  "bread me d bn s =
     rbind (bget me d bn s) (\<lambda>(b, s).
     if \<not> valid (bufs s b) then
       let s = disk_rw b False s in
       Inr (b, set_buf b (\<lambda>x. x\<lparr>valid := True\<rparr>) s)
     else Inr (b, s))"

definition holds_buf :: "int \<Rightarrow> nat \<Rightarrow> 'a bcache_scheme \<Rightarrow> (bool \<times> 'a bcache_scheme) res" where
  "holds_buf me b s =
     rbind (holdingsleep me (blk (bufs s b))) (\<lambda>(h, l).
     Inr (h, set_buf b (\<lambda>x. x\<lparr>blk := l\<rparr>) s))"

definition bwrite :: "int \<Rightarrow> nat \<Rightarrow> 'a bcache_scheme \<Rightarrow> 'a bcache_scheme res" where
  "bwrite me b s =
     rbind (holds_buf me b s) (\<lambda>(h, s).
     if \<not> h then Inl (Panic ''bwrite'') else Inr (disk_rw b True s))"

definition move_to_front :: "nat \<Rightarrow> 'a bcache_scheme \<Rightarrow> 'a bcache_scheme" where
  "move_to_front b s =
     (let s = set_buf (bnext (bufs s b)) (\<lambda>x. x\<lparr>prev := prev (bufs s b)\<rparr>) s;
          s = set_buf (prev (bufs s b)) (\<lambda>x. x\<lparr>bnext := bnext (bufs s b)\<rparr>) s;
          s = set_buf b (\<lambda>x. x\<lparr>bnext := bnext (bufs s NBUF)\<rparr>) s;
          s = set_buf b (\<lambda>x. x\<lparr>prev := NBUF\<rparr>) s;
          s = set_buf (bnext (bufs s NBUF)) (\<lambda>x. x\<lparr>prev := b\<rparr>) s
      in set_buf NBUF (\<lambda>x. x\<lparr>bnext := b\<rparr>) s)"

definition brelse :: "int \<Rightarrow> nat \<Rightarrow> 'a bcache_scheme \<Rightarrow> 'a bcache_scheme res" where
  "brelse me b s =
     rbind (holds_buf me b s) (\<lambda>(h, s).
     if \<not> h then Inl (Panic ''brelse'')
     else
       rbind (releasesleep (SleepChan (BufLock b)) (blk (bufs s b))) (\<lambda>(ch, l).
       let s = (set_buf b (\<lambda>x. x\<lparr>blk := l\<rparr>) s)\<lparr>woken := woken s @ [ch]\<rparr> in
       rbind (acquire_bcache s) (\<lambda>s.
       let s = set_buf b (\<lambda>x. x\<lparr>refcnt := refcnt x - 1\<rparr>) s;
           s = (if refcnt (bufs s b) = 0 then move_to_front b s else s)
       in release_bcache s)))"

definition bpin :: "nat \<Rightarrow> 'a bcache_scheme \<Rightarrow> 'a bcache_scheme res" where
  "bpin b s =
     rbind (acquire_bcache s) (\<lambda>s.
     release_bcache (set_buf b (\<lambda>x. x\<lparr>refcnt := refcnt x + 1\<rparr>) s))"

definition bunpin :: "nat \<Rightarrow> 'a bcache_scheme \<Rightarrow> 'a bcache_scheme res" where
  "bunpin b s =
     rbind (acquire_bcache s) (\<lambda>s.
     release_bcache (set_buf b (\<lambda>x. x\<lparr>refcnt := refcnt x - 1\<rparr>) s))"

section \<open>The ring\<close>

text \<open>\<open>seg f p xs q\<close>: following \<open>next\<close> from \<open>p\<close> gives \<open>xs\<close> and then \<open>q\<close>, and \<open>prev\<close> leads back.\<close>

fun seg :: "(nat \<Rightarrow> buf) \<Rightarrow> nat \<Rightarrow> nat list \<Rightarrow> nat \<Rightarrow> bool" where
  "seg f p [] q \<longleftrightarrow> bnext (f p) = q \<and> prev (f q) = p"
| "seg f p (x # xs) q \<longleftrightarrow> bnext (f p) = x \<and> prev (f x) = p \<and> seg f x xs q"

definition lru :: "(nat \<Rightarrow> buf) \<Rightarrow> nat list \<Rightarrow> bool" where
  "lru f xs \<longleftrightarrow> seg f NBUF xs NBUF \<and> distinct xs \<and> set xs = {..<NBUF}"

lemma seg_append [simp]: "seg f p (xs @ y # ys) q \<longleftrightarrow> seg f p xs y \<and> seg f y ys q"
  by (induction xs arbitrary: p) auto

lemma seg_cong:
  assumes "seg f p xs q" "\<forall>i \<in> insert p (set xs). bnext (g i) = bnext (f i)"
    "\<forall>i \<in> insert q (set xs). prev (g i) = prev (f i)"
  shows "seg g p xs q"
  using assms by (induction xs arbitrary: p) auto

lemma seg_ends: "seg f p xs q \<Longrightarrow> bnext (f p) = hd (xs @ [q]) \<and> prev (f q) = last (p # xs)"
  by (induction xs arbitrary: p) auto

lemma seg_bypass:
  assumes "seg f p ys b" "seg f b zs q" "distinct (p # ys @ b # zs)" "q \<notin> set (ys @ b # zs)"
    and n: "\<And>i. bnext (h i) = (if i = last (p # ys) then hd (zs @ [q]) else bnext (f i))"
    and v: "\<And>i. prev (h i) = (if i = hd (zs @ [q]) then last (p # ys) else prev (f i))"
  shows "seg h p (ys @ zs) q"
  using assms(1,3,4) n v
proof (induction ys arbitrary: p)
  case Nil
  show ?case
  proof (cases zs)
    case (Cons z ws)
    have "seg h z ws q"
      by (rule seg_cong [where f = f]) (use Nil Cons assms(2) in auto)
    with Nil Cons show ?thesis by simp
  qed (use Nil in simp)
next
  case (Cons y us)
  have "seg h y (us @ zs) q"
    by (rule Cons.IH) (use Cons.prems in auto)
  moreover have "last (y # us) \<noteq> p" using Cons.prems(2) by (auto split: if_splits)
  moreover have "hd (zs @ [q]) \<noteq> y" using Cons.prems(2,3) by (cases zs) auto
  ultimately show ?case using Cons.prems by simp
qed

lemma seg_push:
  assumes "seg f p xs q" "b \<notin> insert p (insert q (set xs))" "p \<notin> set xs" "distinct xs" "q \<notin> set xs"
    and "\<And>i. bnext (h i) = (if i = p then b else if i = b then hd (xs @ [q]) else bnext (f i))"
    and "\<And>i. prev (h i) = (if i = hd (xs @ [q]) then b else if i = b then p else prev (f i))"
  shows "seg h p (b # xs) q"
proof (cases xs)
  case (Cons x ws)
  have "seg h x ws q"
    by (rule seg_cong [where f = f]) (use assms Cons in auto)
  with assms Cons show ?thesis by auto
qed (use assms in auto)

text \<open>A buffer without its links; \<open>move_to_front\<close> changes only links.\<close>

definition payload :: "buf \<Rightarrow> buf" where
  "payload x = x\<lparr>prev := 0, bnext := 0\<rparr>"

lemma payload_fields:
  assumes "payload x = payload y"
  shows "valid x = valid y" "disk_owned x = disk_owned y" "dev x = dev y" "blockno x = blockno y"
    "blk x = blk y" "refcnt x = refcnt y" "data x = data y"
  using assms by (cases x; cases y; simp add: payload_def)+

lemma payload_links [simp]:
  "payload (x\<lparr>prev := p\<rparr>) = payload x" "payload (x\<lparr>bnext := p\<rparr>) = payload x"
  by (simp_all add: payload_def)

lemma set_buf_simps [simp]:
  "bufs (set_buf b f s) = (bufs s)(b := f (bufs s b))"
  "bclock (set_buf b f s) = bclock s"
  "disk (set_buf b f s) = disk s"
  "dwrites (set_buf b f s) = dwrites s"
  "woken (set_buf b f s) = woken s"
  "bcache.more (set_buf b f s) = bcache.more s"
  by (simp_all add: set_buf_def)

lemma payload_set_buf:
  "(\<And>x. payload (f x) = payload x) \<Longrightarrow> payload (bufs (set_buf b f s) i) = payload (bufs s i)"
  by simp

lemma move_to_front_frame:
  "move_to_front b s = s\<lparr>bufs := bufs (move_to_front b s)\<rparr>"
  "payload (bufs (move_to_front b s) i) = payload (bufs s i)"
proof -
  show "move_to_front b s = s\<lparr>bufs := bufs (move_to_front b s)\<rparr>"
    by (rule bcache.equality) (simp_all add: move_to_front_def Let_def del: set_buf_simps(1))
  show "payload (bufs (move_to_front b s) i) = payload (bufs s i)"
    unfolding move_to_front_def Let_def by (simp only: payload_set_buf payload_links)
qed

lemma move_to_front_lru:
  assumes "lru (bufs s) xs" "b < NBUF"
  shows "\<exists>ys. lru (bufs (move_to_front b s)) (b # ys)"
proof -
  have b: "b \<in> set xs" using assms by (simp add: lru_def)
  then obtain ys zs where xs: "xs = ys @ b # zs" by (auto simp: in_set_conv_decomp)
  let ?f = "bufs s"
  have d: "distinct (NBUF # ys @ b # zs)" "NBUF \<notin> set (ys @ b # zs)" and st: "set (ys @ b # zs) = {..<NBUF}"
    and sg: "seg ?f NBUF ys b" "seg ?f b zs NBUF"
    using assms(1) xs by (auto simp: lru_def)
  define q where "q = hd (zs @ [NBUF])"
  define p where "p = last (NBUF # ys)"
  have e: "bnext (?f b) = q" "prev (?f b) = p"
    using seg_ends [OF sg(2)] seg_ends [OF sg(1)] by (simp_all add: p_def q_def)
  have q: "q \<noteq> b" "q = NBUF \<or> q \<in> set zs" using d by (cases zs; auto simp: q_def)+
  have p: "p \<noteq> b" "p = NBUF \<or> p \<in> set ys" using d by (auto simp: p_def split: if_splits)
  define g where "g = ?f(q := (?f q)\<lparr>prev := p\<rparr>)"
  define h where "h = g(p := (g p)\<lparr>bnext := q\<rparr>)"
  have h: "seg h NBUF (ys @ zs) NBUF"
    by (rule seg_bypass [OF sg d]) (auto simp: h_def g_def p_def q_def)
  define h1 where "h1 = h(b := (h b)\<lparr>bnext := bnext (h NBUF), prev := NBUF\<rparr>)"
  define h2 where "h2 = h1(bnext (h1 NBUF) := (h1 (bnext (h1 NBUF)))\<lparr>prev := b\<rparr>)"
  define h3 where "h3 = h2(NBUF := (h2 NBUF)\<lparr>bnext := b\<rparr>)"
  have hn: "bnext (h NBUF) = hd ((ys @ zs) @ [NBUF])" using seg_ends [OF h] by simp
  have bN: "b \<noteq> NBUF" using assms(2) by simp
  have hb: "hd ((ys @ zs) @ [NBUF]) \<noteq> b" using d bN by (cases ys; cases zs) auto
  have "seg h3 NBUF (b # (ys @ zs)) NBUF"
    by (rule seg_push [OF h]) (use d bN hn hb in \<open>auto simp: h1_def h2_def h3_def\<close>)
  moreover have "bufs (move_to_front b s) = h3"
    using e q(1) p(1) bN unfolding move_to_front_def h3_def h2_def h1_def h_def g_def
    by (simp add: Let_def)
  moreover have "distinct (b # ys @ zs)" "set (b # ys @ zs) = {..<NBUF}" using d st by auto
  ultimately show ?thesis unfolding lru_def by (intro exI [of _ "ys @ zs"]) simp
qed

lemma bget_cached_find:
  assumes "seg (bufs s) p xs NBUF" "set xs \<subseteq> {..<NBUF}" "length xs < n"
  shows "bget_cached n d bn (bnext (bufs s p)) s =
    Inr (find (\<lambda>b. dev (bufs s b) = d \<and> blockno (bufs s b) = bn) xs)"
  using assms
proof (induction xs arbitrary: p n)
  case Nil
  then show ?case by (cases n) auto
next
  case (Cons x xs)
  then obtain m where n: "n = Suc m" by (cases n) auto
  show ?case using Cons.prems Cons.IH [of x m] n by auto
qed

lemma bget_unused_find:
  assumes "seg (bufs s) NBUF xs q" "set xs \<subseteq> {..<NBUF}" "length xs < n"
  shows "bget_unused n (prev (bufs s q)) s = Inr (find (\<lambda>b. refcnt (bufs s b) = 0) (rev xs))"
  using assms
proof (induction xs arbitrary: q n rule: rev_induct)
  case Nil
  then show ?case by (cases n) auto
next
  case (snoc x xs)
  then obtain m where n: "n = Suc m" by (cases n) auto
  show ?case using snoc.prems snoc.IH [of x m] n by auto
qed

lemma binit_lru: "\<exists>xs. lru (bufs (binit s)) xs"
proof -
  have one: "seg (bufs (binit_one k t)) NBUF (k # xs) NBUF"
    if "seg (bufs t) NBUF xs NBUF" "set xs = {..<k}" "distinct xs" "k < NBUF" for t :: "'a bcache_scheme" and xs k
  proof (rule seg_push [OF that(1)])
    have "bnext (bufs t NBUF) = hd (xs @ [NBUF])" using seg_ends [OF that(1)] by simp
    moreover have "hd (xs @ [NBUF]) \<noteq> k" using that by (cases xs) auto
    ultimately show "bnext (bufs (binit_one k t) i) =
        (if i = NBUF then k else if i = k then hd (xs @ [NBUF]) else bnext (bufs t i))"
      "prev (bufs (binit_one k t) i) =
        (if i = hd (xs @ [NBUF]) then k else if i = k then NBUF else prev (bufs t i))" for i
      using that(4) by (auto simp: binit_one_def Let_def)
  qed (use that in auto)
  let ?t = "set_buf NBUF (\<lambda>x. x\<lparr>prev := NBUF, bnext := NBUF\<rparr>) (s\<lparr>bclock := False\<rparr>)"
  have "\<exists>xs. seg (bufs (fold binit_one [0..<k] ?t)) NBUF xs NBUF \<and> set xs = {..<k} \<and> distinct xs" if "k \<le> NBUF" for k
    using that
  proof (induction k)
    case 0
    show ?case by (rule exI [of _ "[]"]) simp
  next
    case (Suc k)
    then obtain xs where xs: "seg (bufs (fold binit_one [0..<k] ?t)) NBUF xs NBUF" "set xs = {..<k}" "distinct xs"
      by auto
    have "seg (bufs (fold binit_one [0..<Suc k] ?t)) NBUF (k # xs) NBUF"
      using one [OF xs] Suc.prems by simp
    moreover have "set (k # xs) = {..<Suc k}" "distinct (k # xs)" using xs(2,3) by (simp_all add: lessThan_Suc)
    ultimately show ?case by blast
  qed
  from this [of NBUF] show ?thesis by (simp add: lru_def binit_def Let_def) blast
qed

end
