(* ===== verification/Bcache.thy ===== *)
theory Bcache
  imports Bio
begin

text \<open>
  What the buffer cache promises to one process that uses it while no other process does.
  \<open>H\<close> are the buffers that the process holds (between \<open>bread\<close> and \<open>brelse\<close>), \<open>P\<close> those that
  are pinned (between \<open>bpin\<close> and \<open>bunpin\<close>). \<open>content\<close> is the block that a read returns: the
  cached copy or else the disk. The cache agrees with the disk except in \<open>H\<close> and \<open>P\<close>.
\<close>

definition slot_ok :: "int \<Rightarrow> u32 \<Rightarrow> bool \<Rightarrow> bool \<Rightarrow> (u32 \<Rightarrow> u8 list) \<Rightarrow> buf \<Rightarrow> bool" where
  "slot_ok me d h p dk b \<longleftrightarrow>
     \<not> slk (blk b) \<and> slocked (blk b) = h \<and> (h \<longrightarrow> spid (blk b) = me) \<and>
     refcnt b = of_bool h + of_bool p \<and> length (data b) = BSIZE \<and>
     (h \<or> p \<longrightarrow> valid b \<and> dev b = d) \<and>
     (valid b \<longrightarrow> dev b = d \<longrightarrow> \<not> h \<longrightarrow> \<not> p \<longrightarrow> data b = dk (blockno b))"

definition no_alias :: "u32 \<Rightarrow> (nat \<Rightarrow> buf) \<Rightarrow> bool" where
  "no_alias d f \<longleftrightarrow> (\<forall>i < NBUF. \<forall>j < NBUF.
     dev (f i) = d \<longrightarrow> dev (f j) = d \<longrightarrow> blockno (f i) = blockno (f j) \<longrightarrow> i = j)"

definition bio_ok :: "int \<Rightarrow> u32 \<Rightarrow> nat set \<Rightarrow> nat set \<Rightarrow> 'a bcache_scheme \<Rightarrow> bool" where
  "bio_ok me d H P s \<longleftrightarrow>
     \<not> bclock s \<and> (\<exists>xs. lru (bufs s) xs) \<and> H \<subseteq> {..<NBUF} \<and> P \<subseteq> {..<NBUF} \<and>
     (\<forall>i < NBUF. slot_ok me d (i \<in> H) (i \<in> P) (disk s) (bufs s i)) \<and>
     no_alias d (bufs s) \<and> (\<forall>n. length (disk s n) = BSIZE)"

definition cached :: "u32 \<Rightarrow> u32 \<Rightarrow> buf \<Rightarrow> bool" where
  "cached d n b \<longleftrightarrow> valid b \<and> dev b = d \<and> blockno b = n"

definition content :: "u32 \<Rightarrow> 'a bcache_scheme \<Rightarrow> u32 \<Rightarrow> u8 list" where
  "content d s n =
     (case find (\<lambda>i. cached d n (bufs s i)) [0..<NBUF] of
        Some i \<Rightarrow> data (bufs s i)
      | None \<Rightarrow> disk s n)"

lemma find_SomeD: "find Q xs = Some x \<Longrightarrow> x \<in> set xs \<and> Q x"
  by (induction xs) (auto split: if_splits)

lemma no_aliasD:
  "no_alias d f \<Longrightarrow> i < NBUF \<Longrightarrow> j < NBUF \<Longrightarrow> dev (f i) = d \<Longrightarrow> dev (f j) = d \<Longrightarrow>
   blockno (f i) = blockno (f j) \<Longrightarrow> i = j"
  unfolding no_alias_def by blast

lemma bio_okD:
  assumes "bio_ok me d H P s"
  shows "\<not> bclock s" "\<exists>xs. lru (bufs s) xs" "H \<subseteq> {..<NBUF}" "P \<subseteq> {..<NBUF}"
    "i < NBUF \<Longrightarrow> slot_ok me d (i \<in> H) (i \<in> P) (disk s) (bufs s i)"
    "no_alias d (bufs s)" "length (disk s n) = BSIZE"
  using assms by (auto simp: bio_ok_def)

lemma content_cached:
  assumes "no_alias d (bufs s)" "i < NBUF" "cached d n (bufs s i)"
  shows "content d s n = data (bufs s i)"
proof -
  obtain j where j: "find (\<lambda>i. cached d n (bufs s i)) [0..<NBUF] = Some j"
    using assms(2,3) by (cases "find (\<lambda>i. cached d n (bufs s i)) [0..<NBUF]") (auto simp: find_None_iff)
  then have "j < NBUF" "cached d n (bufs s j)" by (auto simp: find_Some_iff)
  then have "j = i" using no_aliasD [OF assms(1), of j i] assms(2,3) by (simp add: cached_def)
  with j show ?thesis by (simp add: content_def)
qed

lemma content_uncached: "(\<And>i. i < NBUF \<Longrightarrow> \<not> cached d n (bufs s i)) \<Longrightarrow> content d s n = disk s n"
proof -
  assume "\<And>i. i < NBUF \<Longrightarrow> \<not> cached d n (bufs s i)"
  then have "find (\<lambda>i. cached d n (bufs s i)) [0..<NBUF] = None" by (auto simp: find_None_iff)
  then show ?thesis by (simp add: content_def)
qed

text \<open>A block that no held or pinned buffer caches reads as it is on the disk.\<close>

lemma content_disk:
  assumes "bio_ok me d H P s" "\<And>i. i \<in> H \<union> P \<Longrightarrow> blockno (bufs s i) \<noteq> n"
  shows "content d s n = disk s n"
proof (cases "\<exists>i < NBUF. cached d n (bufs s i)")
  case True
  then obtain i where i: "i < NBUF" "cached d n (bufs s i)" by blast
  with assms(2) have "i \<notin> H" "i \<notin> P" by (auto simp: cached_def)
  with bio_okD(5) [OF assms(1) i(1)] i(2) have "data (bufs s i) = disk s n"
    by (simp add: slot_ok_def cached_def)
  with content_cached [OF bio_okD(6) [OF assms(1)] i] show ?thesis by simp
next
  case False
  then show ?thesis by (intro content_uncached) auto
qed

lemma content_held:
  assumes "bio_ok me d H P s" "i \<in> H \<union> P"
  shows "content d s (blockno (bufs s i)) = data (bufs s i)"
proof -
  have "i < NBUF" using bio_okD(3,4) [OF assms(1)] assms(2) by auto
  then show ?thesis
    using bio_okD(5) [OF assms(1), of i] assms(2)
    by (intro content_cached [OF bio_okD(6) [OF assms(1)]]) (auto simp: slot_ok_def cached_def)
qed

lemma length_content:
  assumes "bio_ok me d H P s"
  shows "length (content d s n) = BSIZE"
  using bio_okD(5,7) [OF assms]
  by (auto simp: content_def slot_ok_def find_Some_iff split: option.splits)

section \<open>Changing one buffer\<close>

lemma no_alias_upd:
  assumes "no_alias d f"
    and "\<And>j. dev b = d \<Longrightarrow> j < NBUF \<Longrightarrow> j \<noteq> i \<Longrightarrow> dev (f j) = d \<Longrightarrow> blockno (f j) \<noteq> blockno b"
  shows "no_alias d (f(i := b))"
  unfolding no_alias_def
proof (intro allI impI)
  fix j k
  assume jk: "j < NBUF" "k < NBUF" "dev ((f(i := b)) j) = d" "dev ((f(i := b)) k) = d"
    "blockno ((f(i := b)) j) = blockno ((f(i := b)) k)"
  show "j = k"
  proof (cases "j = i"; cases "k = i")
    assume "j = i" "k \<noteq> i" with jk assms(2) [of k] show ?thesis by auto
  next
    assume "j \<noteq> i" "k = i" with jk assms(2) [of j] show ?thesis by auto
  next
    assume "j \<noteq> i" "k \<noteq> i" with jk show ?thesis using no_aliasD [OF assms(1), of j k] by simp
  qed simp
qed

lemma bio_ok_upd:
  assumes "bio_ok me d H P s" "i < NBUF" "prev b = prev (bufs s i)" "bnext b = bnext (bufs s i)"
    and "slot_ok me d (i \<in> H') (i \<in> P') (disk s) b"
    and "H' - {i} = H - {i}" "P' - {i} = P - {i}"
    and "dev b = d \<Longrightarrow> \<forall>j < NBUF. j \<noteq> i \<longrightarrow> dev (bufs s j) = d \<longrightarrow> blockno (bufs s j) \<noteq> blockno b"
  shows "bio_ok me d H' P' (s\<lparr>bufs := (bufs s)(i := b)\<rparr>)"
proof -
  have in_eq: "j \<noteq> i \<Longrightarrow> (j \<in> H') = (j \<in> H)" "j \<noteq> i \<Longrightarrow> (j \<in> P') = (j \<in> P)" for j
    using assms(6,7) by blast+
  obtain xs where xs: "lru (bufs s) xs" using bio_okD(2) [OF assms(1)] by blast
  have "lru ((bufs s)(i := b)) xs"
    using xs assms(3,4) unfolding lru_def by (auto intro: seg_cong)
  moreover have "H' \<subseteq> {..<NBUF}" "P' \<subseteq> {..<NBUF}"
  proof -
    have "H' \<subseteq> insert i H" "P' \<subseteq> insert i P" using assms(6,7) by blast+
    with bio_okD(3,4) [OF assms(1)] assms(2) show "H' \<subseteq> {..<NBUF}" "P' \<subseteq> {..<NBUF}" by auto
  qed
  moreover have "no_alias d ((bufs s)(i := b))"
    by (rule no_alias_upd [OF bio_okD(6) [OF assms(1)]]) (use assms(8) in blast)
  ultimately show ?thesis
    using bio_okD [OF assms(1)] assms(5) in_eq by (auto simp: bio_ok_def)
qed

lemma content_upd:
  assumes "no_alias d (bufs s)" "no_alias d ((bufs s)(i := b))" "i < NBUF"
    and "valid (bufs s i) \<Longrightarrow> dev (bufs s i) = d \<Longrightarrow> cached d (blockno (bufs s i)) b \<or>
      data (bufs s i) = disk s (blockno (bufs s i))"
  shows "content d (s\<lparr>bufs := (bufs s)(i := b)\<rparr>) n =
    (if cached d n b then data b else content d s n)"
proof (cases "cached d n b")
  case True
  then show ?thesis
    using content_cached [of d "s\<lparr>bufs := (bufs s)(i := b)\<rparr>" i n] assms(2,3) by simp
next
  case nb: False
  show ?thesis
  proof (cases "\<exists>j < NBUF. j \<noteq> i \<and> cached d n (bufs s j)")
    case True
    then obtain j where j: "j < NBUF" "j \<noteq> i" "cached d n (bufs s j)" by blast
    then show ?thesis
      using content_cached [of d "s\<lparr>bufs := (bufs s)(i := b)\<rparr>" j n] content_cached [of d s j n] assms(1,2) nb
      by simp
  next
    case False
    with nb have "content d (s\<lparr>bufs := (bufs s)(i := b)\<rparr>) n = disk s n"
      by (subst content_uncached) auto
    moreover have "content d s n = disk s n"
    proof (cases "cached d n (bufs s i)")
      case True
      with content_cached [OF assms(1,3) True] assms(4) nb show ?thesis
        by (auto simp: cached_def)
    next
      case False
      with \<open>\<not> (\<exists>j < NBUF. j \<noteq> i \<and> cached d n (bufs s j))\<close> show ?thesis
        by (intro content_uncached) metis
    qed
    ultimately show ?thesis using nb by simp
  qed
qed

section \<open>bread\<close>

lemma bclock_back: "\<not> bclock s \<Longrightarrow> s\<lparr>bclock := False\<rparr> = s"
  by (cases s) simp

lemma lru_length: "lru f xs \<Longrightarrow> length xs = NBUF"
  unfolding lru_def by (metis card_lessThan distinct_card)

definition taken :: "int \<Rightarrow> buf \<Rightarrow> buf" where
  "taken me b = b\<lparr>blk := (blk b)\<lparr>slocked := True, spid := me\<rparr>\<rparr>"

lemma taken_simps [simp]:
  "prev (taken me b) = prev b" "bnext (taken me b) = bnext b" "dev (taken me b) = dev b"
  "blockno (taken me b) = blockno b" "valid (taken me b) = valid b" "data (taken me b) = data b"
  "refcnt (taken me b) = refcnt b" "slk (blk (taken me b)) = slk (blk b)"
  "slocked (blk (taken me b))" "spid (blk (taken me b)) = me"
  by (simp_all add: taken_def)

lemma bget_hit:
  assumes "bio_ok me d H P s" "i < NBUF" "dev (bufs s i) = d" "blockno (bufs s i) = n" "i \<notin> H"
  shows "bget me d n s =
    Inr (i, s\<lparr>bufs := (bufs s)(i := taken me (bufs s i\<lparr>refcnt := refcnt (bufs s i) + 1\<rparr>))\<rparr>)"
proof -
  note ok = bio_okD [OF assms(1)]
  obtain xs where xs: "lru (bufs s) xs" using ok(2) by blast
  let ?Q = "\<lambda>b. dev (bufs s b) = d \<and> blockno (bufs s b) = n"
  note len = lru_length [OF xs]
  have "find ?Q xs = Some i"
  proof -
    have "i \<in> set xs" using xs assms(2) by (simp add: lru_def)
    then obtain j where j: "find ?Q xs = Some j" using assms(3,4) by (cases "find ?Q xs") (auto simp: find_None_iff)
    then have "?Q j" "j \<in> set xs" by (auto simp: find_Some_iff)
    moreover from this have "j < NBUF" using xs by (simp add: lru_def)
    ultimately have "j = i" using no_aliasD [OF ok(6), of j i] assms(2-4) by simp
    with j show ?thesis by simp
  qed
  then have "bget_cached (Suc NBUF) d n (bnext (bufs s NBUF)) (s\<lparr>bclock := True\<rparr>) = Inr (Some i)"
    using bget_cached_find [of "s\<lparr>bclock := True\<rparr>" NBUF xs "Suc NBUF" d n] xs len
    by (simp add: lru_def del: bget_cached.simps)
  moreover have "\<not> slk (blk (bufs s i))" "\<not> slocked (blk (bufs s i))"
    using ok(5) [OF assms(2)] assms(5) by (simp_all add: slot_ok_def)
  ultimately show ?thesis
    using ok(1)
    by (simp add: bget_def acquire_bcache_def release_bcache_def lock_buf_def set_buf_def acquiresleep_free
        bclock_back taken_def del: bget_cached.simps bget_unused.simps)
qed

lemma bget_miss:
  assumes "bio_ok me d H P s" "\<And>i. i < NBUF \<Longrightarrow> dev (bufs s i) = d \<Longrightarrow> blockno (bufs s i) \<noteq> n"
    "card (H \<union> P) < NBUF"
  shows "\<exists>i < NBUF. i \<notin> H \<union> P \<and> bget me d n s =
    Inr (i, s\<lparr>bufs := (bufs s)(i := taken me (bufs s i\<lparr>dev := d, blockno := n, valid := False, refcnt := 1\<rparr>))\<rparr>)"
proof -
  note ok = bio_okD [OF assms(1)]
  obtain xs where xs: "lru (bufs s) xs" using ok(2) by blast
  note len = lru_length [OF xs]
  let ?Q = "\<lambda>b. dev (bufs s b) = d \<and> blockno (bufs s b) = n" and ?U = "\<lambda>b. refcnt (bufs s b) = 0"
  have "find ?Q xs = None" using xs assms(2) by (auto simp: find_None_iff lru_def)
  then have 1: "bget_cached (Suc NBUF) d n (bnext (bufs s NBUF)) (s\<lparr>bclock := True\<rparr>) = Inr None"
    using bget_cached_find [of "s\<lparr>bclock := True\<rparr>" NBUF xs "Suc NBUF" d n] xs len
    by (simp add: lru_def del: bget_cached.simps)
  have U: "?U j \<longleftrightarrow> j \<notin> H \<union> P" if "j < NBUF" for j
    using ok(5) [OF that] by (cases "j \<in> H"; cases "j \<in> P") (simp_all add: slot_ok_def)
  have "H \<union> P \<noteq> {..<NBUF}" using assms(3) by (metis card_lessThan less_irrefl)
  then obtain k where "k < NBUF" "k \<notin> H \<union> P" using ok(3,4) by blast
  then obtain i where i: "find ?U (rev xs) = Some i"
    using xs U [of k] by (cases "find ?U (rev xs)") (auto simp: find_None_iff lru_def)
  from find_SomeD [OF this] have "i \<in> set xs" "?U i" by simp_all
  then have iN: "i < NBUF" "i \<notin> H \<union> P" using xs U [of i] by (auto simp: lru_def)
  have 2: "bget_unused (Suc NBUF) (prev (bufs s NBUF)) (s\<lparr>bclock := True\<rparr>) = Inr (Some i)"
    using bget_unused_find [of "s\<lparr>bclock := True\<rparr>" xs NBUF "Suc NBUF"] xs len i
    by (simp add: lru_def del: bget_unused.simps)
  have "\<not> slk (blk (bufs s i))" "\<not> slocked (blk (bufs s i))"
    using ok(5) [OF iN(1)] iN(2) by (simp_all add: slot_ok_def)
  with 1 2 have "bget me d n s =
      Inr (i, s\<lparr>bufs := (bufs s)(i := taken me (bufs s i\<lparr>dev := d, blockno := n, valid := False, refcnt := 1\<rparr>))\<rparr>)"
    using ok(1)
    by (simp add: bget_def acquire_bcache_def release_bcache_def lock_buf_def set_buf_def acquiresleep_free
        bclock_back taken_def del: bget_cached.simps bget_unused.simps)
  with iN show ?thesis by blast
qed

text \<open>
  \<open>bread\<close> of a block that the process does not hold, with the block in a pinned buffer or a
  buffer to spare: it returns a buffer that now is held, with the content of the block.
\<close>

definition read_post :: "int \<Rightarrow> u32 \<Rightarrow> nat set \<Rightarrow> nat set \<Rightarrow> u32 \<Rightarrow> 'a bcache_scheme \<Rightarrow> nat \<Rightarrow> 'a bcache_scheme \<Rightarrow> bool" where
  "read_post me d H P n s i s' \<longleftrightarrow>
     i < NBUF \<and> i \<notin> H \<and> bio_ok me d (insert i H) P s' \<and> blockno (bufs s' i) = n \<and>
     data (bufs s' i) = content d s n \<and> content d s' = content d s \<and>
     (i \<in> P \<longleftrightarrow> (\<exists>j \<in> P. blockno (bufs s j) = n)) \<and>
     (\<forall>j. j \<noteq> i \<longrightarrow> bufs s' j = bufs s j) \<and> (i \<in> P \<longrightarrow> blockno (bufs s i) = n) \<and> s' = s\<lparr>bufs := bufs s'\<rparr>"

lemma slot_other:
  assumes "bio_ok me d H P s" "i \<in> H \<union> P"
  shows "i < NBUF" "valid (bufs s i)" "dev (bufs s i) = d"
proof -
  show "i < NBUF" using bio_okD(3,4) [OF assms(1)] assms(2) by auto
  with bio_okD(5) [OF assms(1)] assms(2) show "valid (bufs s i)" "dev (bufs s i) = d"
    by (auto simp: slot_ok_def)
qed

lemma pinned_unique:
  assumes "bio_ok me d H P s" "i < NBUF" "dev (bufs s i) = d" "j \<in> P" "blockno (bufs s j) = blockno (bufs s i)"
  shows "i = j"
  using slot_other [OF assms(1), of j] assms no_aliasD [OF bio_okD(6) [OF assms(1)], of i j] by simp

lemma read_postI:
  assumes "bio_ok me d H P s" "i < NBUF" "i \<notin> H" "valid b" "dev b = d" "blockno b = n" "data b = content d s n"
    and "prev b = prev (bufs s i)" "bnext b = bnext (bufs s i)"
    and "slot_ok me d True (i \<in> P) (disk s) b"
    and "\<forall>j < NBUF. j \<noteq> i \<longrightarrow> dev (bufs s j) = d \<longrightarrow> blockno (bufs s j) \<noteq> n"
    and "i \<in> P \<Longrightarrow> blockno (bufs s i) = n"
    and "blockno (bufs s i) = n \<and> dev (bufs s i) = d \<or> i \<notin> P"
  shows "read_post me d H P n s i (s\<lparr>bufs := (bufs s)(i := b)\<rparr>)"
proof -
  have ok: "bio_ok me d (insert i H) P (s\<lparr>bufs := (bufs s)(i := b)\<rparr>)"
    by (rule bio_ok_upd [OF assms(1)]) (use assms in auto)
  have clean: "valid (bufs s i) \<Longrightarrow> dev (bufs s i) = d \<Longrightarrow> i \<notin> P \<Longrightarrow> data (bufs s i) = disk s (blockno (bufs s i))"
    using bio_okD(5) [OF assms(1,2)] assms(3) by (simp add: slot_ok_def)
  have "content d (s\<lparr>bufs := (bufs s)(i := b)\<rparr>) m = content d s m" for m
    using content_upd [OF bio_okD(6) [OF assms(1)] _ assms(2), of b m] bio_okD(6) [OF ok] clean assms(4-7,12,13)
    by (auto simp: cached_def)
  moreover have "i \<in> P \<longleftrightarrow> (\<exists>j \<in> P. blockno (bufs s j) = n)"
    using assms(11,12) slot_other [OF assms(1)] by blast
  ultimately show ?thesis using ok assms by (auto simp: read_post_def fun_eq_iff)
qed

lemma bread_ok:
  assumes "bio_ok me d H P s" "\<And>i. i \<in> H \<Longrightarrow> blockno (bufs s i) \<noteq> n"
    "card (H \<union> P) < NBUF \<or> (\<exists>i \<in> P. blockno (bufs s i) = n)"
  shows "\<exists>i s'. bread me d n s = Inr (i, s') \<and> read_post me d H P n s i s'"
proof (cases "\<exists>i < NBUF. dev (bufs s i) = d \<and> blockno (bufs s i) = n")
  case True
  then obtain i where i: "i < NBUF" "dev (bufs s i) = d" "blockno (bufs s i) = n" by blast
  with assms(2) have H: "i \<notin> H" by blast
  note sl = bio_okD(5) [OF assms(1) i(1)]
  have un: "\<forall>j < NBUF. j \<noteq> i \<longrightarrow> dev (bufs s j) = d \<longrightarrow> blockno (bufs s j) \<noteq> n"
    using no_aliasD [OF bio_okD(6) [OF assms(1)]] i by blast
  let ?b = "taken me (bufs s i\<lparr>refcnt := refcnt (bufs s i) + 1\<rparr>)"
  note g = bget_hit [OF assms(1) i H]
  show ?thesis
  proof (cases "valid (bufs s i)")
    case True
    have "content d s n = data (bufs s i)"
      using content_cached [OF bio_okD(6) [OF assms(1)] i(1)] i True by (simp add: cached_def)
    then have "read_post me d H P n s i (s\<lparr>bufs := (bufs s)(i := ?b)\<rparr>)"
      by (intro read_postI [OF assms(1) i(1) H]) (use i sl H un True in \<open>auto simp: slot_ok_def\<close>)
    with g True show ?thesis by (simp add: bread_def)
  next
    case False
    with sl H have P: "i \<notin> P" by (auto simp: slot_ok_def)
    have "content d s n = disk s n"
      by (rule content_uncached) (use un i False in \<open>auto simp: cached_def\<close>)
    then have "read_post me d H P n s i (s\<lparr>bufs := (bufs s)(i := ?b\<lparr>data := disk s n, valid := True\<rparr>)\<rparr>)"
      by (intro read_postI [OF assms(1) i(1) H])
        (use i sl H P un bio_okD(7) [OF assms(1)] in \<open>auto simp: slot_ok_def\<close>)
    with g False i show ?thesis by (simp add: bread_def disk_rw_def set_buf_def)
  qed
next
  case False
  then have no: "\<And>i. i < NBUF \<Longrightarrow> dev (bufs s i) = d \<Longrightarrow> blockno (bufs s i) \<noteq> n" by blast
  have "card (H \<union> P) < NBUF" using assms(3) no slot_other [OF assms(1)] by blast
  from bget_miss [OF assms(1) no this] obtain i where i: "i < NBUF" "i \<notin> H \<union> P"
    and g: "bget me d n s =
      Inr (i, s\<lparr>bufs := (bufs s)(i := taken me (bufs s i\<lparr>dev := d, blockno := n, valid := False, refcnt := 1\<rparr>))\<rparr>)"
    by auto
  note sl = bio_okD(5) [OF assms(1) i(1)]
  have "content d s n = disk s n"
    by (rule content_uncached) (use no in \<open>auto simp: cached_def\<close>)
  then have "read_post me d H P n s i (s\<lparr>bufs := (bufs s)(i :=
      taken me (bufs s i\<lparr>dev := d, blockno := n, valid := False, refcnt := 1\<rparr>)\<lparr>data := disk s n, valid := True\<rparr>)\<rparr>)"
    by (intro read_postI [OF assms(1) i(1)])
      (use i sl no bio_okD(7) [OF assms(1)] in \<open>auto simp: slot_ok_def\<close>)
  with g show ?thesis by (simp add: bread_def disk_rw_def set_buf_def)
qed

section \<open>The other operations\<close>

lemma holds_buf_ok:
  assumes "bio_ok me d H P s" "i < NBUF"
  shows "holds_buf me i s = Inr (i \<in> H, s)"
proof -
  have "blk_update (\<lambda>_. blk (bufs s i)) (bufs s i) = bufs s i" by (cases "bufs s i") simp
  moreover have "s\<lparr>bufs := (bufs s)(i := bufs s i)\<rparr> = s" by (cases s) simp
  ultimately show ?thesis
    using bio_okD(5) [OF assms] by (auto simp: holds_buf_def slot_ok_def holdingsleep_eq set_buf_def)
qed

lemma bwrite_ok:
  assumes "bio_ok me d H P s" "i \<in> H"
  defines "n \<equiv> blockno (bufs s i)" and "v \<equiv> data (bufs s i)"
  shows "bwrite me i s = Inr (s\<lparr>disk := (disk s)(n := v), dwrites := dwrites s @ [(n, v)]\<rparr>)"
    and "bio_ok me d H P (s\<lparr>disk := (disk s)(n := v), dwrites := dwrites s @ [(n, v)]\<rparr>)"
    and "content d (s\<lparr>disk := (disk s)(n := v), dwrites := dwrites s @ [(n, v)]\<rparr>) = content d s"
proof -
  note so = slot_other [OF assms(1), of i]
  have i: "i < NBUF" "dev (bufs s i) = d" "valid (bufs s i)" using so assms(2) by auto
  show "bwrite me i s = Inr (s\<lparr>disk := (disk s)(n := v), dwrites := dwrites s @ [(n, v)]\<rparr>)"
    using holds_buf_ok [OF assms(1) i(1)] assms(2) by (simp add: bwrite_def disk_rw_def Let_def n_def v_def)
  have v: "length v = BSIZE" using bio_okD(5) [OF assms(1) i(1)] by (simp add: slot_ok_def v_def)
  have "slot_ok me d (j \<in> H) (j \<in> P) ((disk s)(n := v)) (bufs s j)" if j: "j < NBUF" for j
  proof (cases "j = i")
    case False
    with no_aliasD [OF bio_okD(6) [OF assms(1)] j i(1)] i(2) have "dev (bufs s j) = d \<longrightarrow> blockno (bufs s j) \<noteq> n"
      by (auto simp: n_def)
    with bio_okD(5) [OF assms(1) j] show ?thesis by (auto simp: slot_ok_def)
  qed (use bio_okD(5) [OF assms(1) j] assms(2) in \<open>auto simp: slot_ok_def\<close>)
  then show "bio_ok me d H P (s\<lparr>disk := (disk s)(n := v), dwrites := dwrites s @ [(n, v)]\<rparr>)"
    using assms(1) v by (simp add: bio_ok_def)
  have "content d s n = v" using content_held [OF assms(1), of i] assms(2) by (simp add: n_def v_def)
  then show "content d (s\<lparr>disk := (disk s)(n := v), dwrites := dwrites s @ [(n, v)]\<rparr>) = content d s"
    by (auto simp: content_def fun_eq_iff split: option.splits)
qed

lemma set_data_ok:
  assumes "bio_ok me d H P s" "i \<in> H" "length v = BSIZE"
  defines "s' \<equiv> set_buf i (\<lambda>x. x\<lparr>data := v\<rparr>) s"
  shows "bio_ok me d H P s'" "content d s' = (content d s)(blockno (bufs s i) := v)"
proof -
  note so = slot_other [OF assms(1), of i]
  have i: "i < NBUF" "dev (bufs s i) = d" "valid (bufs s i)" using so assms(2) by auto
  have un: "\<forall>j < NBUF. j \<noteq> i \<longrightarrow> dev (bufs s j) = d \<longrightarrow> blockno (bufs s j) \<noteq> blockno (bufs s i)"
    using no_aliasD [OF bio_okD(6) [OF assms(1)]] i by blast
  show ok: "bio_ok me d H P s'"
    unfolding s'_def set_buf_def
    by (rule bio_ok_upd [OF assms(1) i(1)])
      (use bio_okD(5) [OF assms(1) i(1)] assms(2,3) un in \<open>auto simp: slot_ok_def\<close>)
  show "content d s' = (content d s)(blockno (bufs s i) := v)"
  proof
    fix n
    show "content d s' n = ((content d s)(blockno (bufs s i) := v)) n"
      using content_upd [OF bio_okD(6) [OF assms(1)] _ i(1), of "bufs s i\<lparr>data := v\<rparr>" n] bio_okD(6) [OF ok] i
      unfolding s'_def set_buf_def by (auto simp: cached_def)
  qed
qed

lemma pin_eq: "\<not> bclock s \<Longrightarrow> bpin i s = Inr (s\<lparr>bufs := (bufs s)(i := (bufs s i)\<lparr>refcnt := refcnt (bufs s i) + 1\<rparr>)\<rparr>)"
  "\<not> bclock s \<Longrightarrow> bunpin i s = Inr (s\<lparr>bufs := (bufs s)(i := (bufs s i)\<lparr>refcnt := refcnt (bufs s i) - 1\<rparr>)\<rparr>)"
  by (simp_all add: bpin_def bunpin_def acquire_bcache_def release_bcache_def set_buf_def bclock_back)

lemma refcnt_content: "content d (s\<lparr>bufs := (bufs s)(i := (bufs s i)\<lparr>refcnt := r\<rparr>)\<rparr>) = content d s"
proof
  fix n
  have "cached d n (if j = i then (bufs s i)\<lparr>refcnt := r\<rparr> else bufs s j) = cached d n (bufs s j)" for j
    by (simp add: cached_def)
  then show "content d (s\<lparr>bufs := (bufs s)(i := (bufs s i)\<lparr>refcnt := r\<rparr>)\<rparr>) n = content d s n"
    by (auto simp: content_def split: option.splits)
qed

lemma bpin_ok:
  assumes "bio_ok me d H P s" "i \<in> H" "i \<notin> P"
  shows "\<exists>s'. bpin i s = Inr s' \<and> bio_ok me d H (insert i P) s' \<and> content d s' = content d s \<and>
    s' = s\<lparr>bufs := (bufs s)(i := (bufs s i)\<lparr>refcnt := refcnt (bufs s i) + 1\<rparr>)\<rparr>"
proof -
  have i: "i < NBUF" "dev (bufs s i) = d" using slot_other [OF assms(1), of i] assms(2) by auto
  have "bio_ok me d H (insert i P) (s\<lparr>bufs := (bufs s)(i := (bufs s i)\<lparr>refcnt := refcnt (bufs s i) + 1\<rparr>)\<rparr>)"
    by (rule bio_ok_upd [OF assms(1) i(1)])
      (use bio_okD(5) [OF assms(1) i(1)] assms(2,3) i no_aliasD [OF bio_okD(6) [OF assms(1)]]
        in \<open>auto simp: slot_ok_def\<close>)
  with pin_eq(1) [OF bio_okD(1) [OF assms(1)]] refcnt_content show ?thesis by blast
qed

lemma bunpin_ok:
  assumes "bio_ok me d H P s" "i \<in> H" "i \<in> P"
  shows "\<exists>s'. bunpin i s = Inr s' \<and> bio_ok me d H (P - {i}) s' \<and> content d s' = content d s \<and>
    s' = s\<lparr>bufs := (bufs s)(i := (bufs s i)\<lparr>refcnt := refcnt (bufs s i) - 1\<rparr>)\<rparr>"
proof -
  have i: "i < NBUF" "dev (bufs s i) = d" using slot_other [OF assms(1), of i] assms(2) by auto
  have "bio_ok me d H (P - {i}) (s\<lparr>bufs := (bufs s)(i := (bufs s i)\<lparr>refcnt := refcnt (bufs s i) - 1\<rparr>)\<rparr>)"
    by (rule bio_ok_upd [OF assms(1) i(1)])
      (use bio_okD(5) [OF assms(1) i(1)] assms(2,3) i no_aliasD [OF bio_okD(6) [OF assms(1)]]
        in \<open>auto simp: slot_ok_def\<close>)
  with pin_eq(2) [OF bio_okD(1) [OF assms(1)]] refcnt_content show ?thesis by blast
qed

text \<open>\<open>keeps s s'\<close>: no buffer changes its block or its data.\<close>

definition keeps :: "'a bcache_scheme \<Rightarrow> 'a bcache_scheme \<Rightarrow> bool" where
  "keeps s s' \<longleftrightarrow> (\<forall>j. blockno (bufs s' j) = blockno (bufs s j) \<and> data (bufs s' j) = data (bufs s j) \<and>
     valid (bufs s' j) = valid (bufs s j) \<and> dev (bufs s' j) = dev (bufs s j)) \<and> disk s' = disk s"

lemma keeps_content: "keeps s s' \<Longrightarrow> content d s' = content d s"
  by (simp add: content_def keeps_def cached_def [abs_def] fun_eq_iff split: option.split)

lemma bio_ok_payload:
  assumes "bio_ok me d H P s" "\<And>j. payload (f j) = payload (bufs s j)" "lru f xs"
  shows "bio_ok me d H P (s\<lparr>bufs := f\<rparr>)"
proof -
  note pf = payload_fields [OF assms(2)]
  have "slot_ok me d h p dk (f j) = slot_ok me d h p dk (bufs s j)" for h p dk j
    by (simp add: slot_ok_def pf)
  moreover have "no_alias d f = no_alias d (bufs s)" by (simp add: no_alias_def pf)
  ultimately show ?thesis using assms(1,3) by (auto simp: bio_ok_def)
qed

lemma brelse_ok:
  assumes "bio_ok me d H P s" "i \<in> H" "i \<in> P \<or> data (bufs s i) = disk s (blockno (bufs s i))"
  shows "\<exists>s'. brelse me i s = Inr s' \<and> bio_ok me d (H - {i}) P s' \<and> keeps s s' \<and>
    s' = s\<lparr>bufs := bufs s', woken := woken s'\<rparr>"
proof -
  have i: "i < NBUF" "dev (bufs s i) = d" using slot_other [OF assms(1), of i] assms(2) by auto
  note sl = bio_okD(5) [OF assms(1) i(1)]
  define b where "b = (bufs s i)\<lparr>blk := (blk (bufs s i))\<lparr>slocked := False, spid := 0\<rparr>, refcnt := refcnt (bufs s i) - 1\<rparr>"
  define w where "w = woken s @ [SleepChan (BufLock i)]"
  define t where "t = s\<lparr>woken := w, bufs := (bufs s)(i := b)\<rparr>"
  define u where "u = s\<lparr>woken := w, bclock := True, bufs := (bufs s)(i := b)\<rparr>"
  have c: "\<not> bclock s" "\<not> slk (blk (bufs s i))" using sl bio_okD(1) [OF assms(1)] by (simp_all add: slot_ok_def)
  have run: "brelse me i s = release_bcache (if refcnt b = 0 then move_to_front i u else u)"
    using holds_buf_ok [OF assms(1) i(1)] assms(2) c
    by (simp add: brelse_def releasesleep_eq acquire_bcache_def set_buf_def Let_def u_def b_def w_def)
  have "bio_ok me d (H - {i}) P (s\<lparr>bufs := (bufs s)(i := b)\<rparr>)"
    unfolding b_def by (rule bio_ok_upd [OF assms(1) i(1)])
      (use sl assms(2,3) i no_aliasD [OF bio_okD(6) [OF assms(1)]] in \<open>auto simp: slot_ok_def\<close>)
  then have ok: "bio_ok me d (H - {i}) P t" by (simp add: bio_ok_def t_def)
  have k: "keeps s t" by (simp add: keeps_def t_def b_def)
  have ut: "u\<lparr>bufs := f, bclock := False\<rparr> = t\<lparr>bufs := f\<rparr>" for f
    using c(1) by (simp add: u_def t_def bclock_back)
  show ?thesis
  proof (cases "refcnt b = 0")
    case True
    define v where "v = t\<lparr>bufs := bufs (move_to_front i u)\<rparr>"
    have m: "move_to_front i u = u\<lparr>bufs := bufs (move_to_front i u)\<rparr>" by (rule move_to_front_frame)
    have "bclock (move_to_front i u)" by (subst m) (simp add: u_def)
    then have "release_bcache (move_to_front i u) = Inr v"
      unfolding v_def ut [symmetric] m [symmetric] by (simp add: release_bcache_def)
    moreover have "payload (bufs (move_to_front i u) j) = payload (bufs t j)" for j
      using move_to_front_frame(2) [of i u j] by (simp add: u_def t_def)
    note pl = this
    moreover obtain ys where "lru (bufs (move_to_front i u)) (i # ys)"
      using bio_okD(2) [OF ok] move_to_front_lru [of u _ i] i(1) by (auto simp: u_def t_def)
    ultimately have "release_bcache (move_to_front i u) = Inr v" "bio_ok me d (H - {i}) P v"
      using bio_ok_payload [OF ok] by (auto simp: v_def)
    moreover have "keeps s v" using k payload_fields [OF pl] by (simp add: keeps_def v_def)
    moreover have "v = s\<lparr>bufs := bufs v, woken := woken v\<rparr>" by (simp add: v_def t_def)
    ultimately show ?thesis using run True by auto
  next
    case False
    have "release_bcache u = Inr t" using ut [of "bufs u"] by (simp add: release_bcache_def u_def t_def)
    moreover have "t = s\<lparr>bufs := bufs t, woken := woken t\<rparr>" by (simp add: t_def)
    ultimately show ?thesis using run False ok k by auto
  qed
qed

end
