(* ===== verification/Log.thy ===== *)
theory Log
  imports Bcache
begin

text \<open>
  kernel/log.c: transactions on top of the buffer cache. The header block is decoded and
  encoded as the source does through a cast. A process that would wait for a commit stops
  with \<open>Block LogChan\<close>. \<open>me\<close> is the pid of the calling process.
\<close>

section \<open>State\<close>

definition LOGSIZE :: nat where
  "LOGSIZE = 30"

definition MAXOPBLOCKS :: nat where
  "MAXOPBLOCKS = 10"

record superblock =
  sb_magic :: u32
  sb_size :: u32
  sb_nblocks :: u32
  sb_ninodes :: u32
  sb_nlog :: u32
  sb_logstart :: u32
  sb_inodestart :: u32
  sb_bmapstart :: u32

record logst = bcache +
  loglock :: bool
  lstart :: int
  lsize :: int
  outstanding :: int
  committing :: bool
  ldev :: u32
  lhn :: int
  lhblock :: "u32 list"

definition acquire_log :: "'a logst_scheme \<Rightarrow> 'a logst_scheme res" where
  "acquire_log s = rbind (spin_acquire (loglock s)) (\<lambda>h. Inr (s\<lparr>loglock := h\<rparr>))"

definition release_log :: "'a logst_scheme \<Rightarrow> 'a logst_scheme res" where
  "release_log s = rbind (spin_release (loglock s)) (\<lambda>h. Inr (s\<lparr>loglock := h\<rparr>))"

section \<open>Operations\<close>

definition install_one :: "int \<Rightarrow> bool \<Rightarrow> nat \<Rightarrow> 'a logst_scheme \<Rightarrow> 'a logst_scheme res" where
  "install_one me recovering tail s =
     rbind (bread me (ldev s) (of_int (lstart s + int tail + 1)) s) (\<lambda>(lbuf, s).
     rbind (aget (lhblock s) (int tail)) (\<lambda>n.
     rbind (bread me (ldev s) n s) (\<lambda>(dbuf, s).
     let s = set_buf dbuf (\<lambda>x. x\<lparr>data := data (bufs s lbuf)\<rparr>) s in
     rbind (bwrite me dbuf s) (\<lambda>s.
     rbind (if recovering then Inr s else bunpin dbuf s) (\<lambda>s.
     rbind (brelse me lbuf s) (\<lambda>s.
     brelse me dbuf s))))))"

definition install_trans :: "int \<Rightarrow> bool \<Rightarrow> 'a logst_scheme \<Rightarrow> 'a logst_scheme res" where
  "install_trans me recovering s = for_each (install_one me recovering) [0..<nat (lhn s)] s"

definition read_head_entry :: "u8 list \<Rightarrow> nat \<Rightarrow> 'a logst_scheme \<Rightarrow> 'a logst_scheme res" where
  "read_head_entry h i s =
     rbind (aset (lhblock s) (int i) (get32 h (Suc i))) (\<lambda>l. Inr (s\<lparr>lhblock := l\<rparr>))"

definition read_head :: "int \<Rightarrow> 'a logst_scheme \<Rightarrow> 'a logst_scheme res" where
  "read_head me s =
     rbind (bread me (ldev s) (of_int (lstart s)) s) (\<lambda>(b, s).
     let h = data (bufs s b);
         s = s\<lparr>lhn := sint (get32 h 0)\<rparr> in
     rbind (for_each (read_head_entry h) [0..<nat (lhn s)] s) (\<lambda>s.
     brelse me b s))"

definition write_head_entry :: "nat \<Rightarrow> nat \<Rightarrow> 'a logst_scheme \<Rightarrow> 'a logst_scheme res" where
  "write_head_entry b i s =
     rbind (aget (lhblock s) (int i)) (\<lambda>n.
     Inr (set_buf b (\<lambda>x. x\<lparr>data := put32 (Suc i) n (data x)\<rparr>) s))"

definition write_head :: "int \<Rightarrow> 'a logst_scheme \<Rightarrow> 'a logst_scheme res" where
  "write_head me s =
     rbind (bread me (ldev s) (of_int (lstart s)) s) (\<lambda>(b, s).
     let s = set_buf b (\<lambda>x. x\<lparr>data := put32 0 (of_int (lhn s)) (data x)\<rparr>) s in
     rbind (for_each (write_head_entry b) [0..<nat (lhn s)] s) (\<lambda>s.
     rbind (bwrite me b s) (\<lambda>s.
     brelse me b s)))"

definition recover_from_log :: "int \<Rightarrow> 'a logst_scheme \<Rightarrow> 'a logst_scheme res" where
  "recover_from_log me s =
     rbind (read_head me s) (\<lambda>s.
     rbind (install_trans me True s) (\<lambda>s.
     write_head me (s\<lparr>lhn := 0\<rparr>)))"

text \<open>\<open>sizeof(struct logheader)\<close> is 4 bytes for \<open>n\<close> and 4 for each block number.\<close>

definition initlog :: "int \<Rightarrow> u32 \<Rightarrow> superblock \<Rightarrow> 'a logst_scheme \<Rightarrow> 'a logst_scheme res" where
  "initlog me d sb s =
     (if BSIZE \<le> 4 + 4 * LOGSIZE then Inl (Panic ''initlog: too big logheader'')
      else
        recover_from_log me
          (s\<lparr>loglock := False, lstart := sint (sb_logstart sb), lsize := sint (sb_nlog sb), ldev := d\<rparr>))"

definition begin_op :: "'a logst_scheme \<Rightarrow> 'a logst_scheme res" where
  "begin_op s =
     rbind (acquire_log s) (\<lambda>s.
     if committing s then Inl (Block LogChan)
     else if lhn s + (outstanding s + 1) * int MAXOPBLOCKS > int LOGSIZE then Inl (Block LogChan)
     else release_log (s\<lparr>outstanding := outstanding s + 1\<rparr>))"

definition write_log_one :: "int \<Rightarrow> nat \<Rightarrow> 'a logst_scheme \<Rightarrow> 'a logst_scheme res" where
  "write_log_one me tail s =
     rbind (bread me (ldev s) (of_int (lstart s + int tail + 1)) s) (\<lambda>(t, s).
     rbind (aget (lhblock s) (int tail)) (\<lambda>n.
     rbind (bread me (ldev s) n s) (\<lambda>(frm, s).
     let s = set_buf t (\<lambda>x. x\<lparr>data := data (bufs s frm)\<rparr>) s in
     rbind (bwrite me t s) (\<lambda>s.
     rbind (brelse me frm s) (\<lambda>s.
     brelse me t s)))))"

definition write_log :: "int \<Rightarrow> 'a logst_scheme \<Rightarrow> 'a logst_scheme res" where
  "write_log me s = for_each (write_log_one me) [0..<nat (lhn s)] s"

definition commit :: "int \<Rightarrow> 'a logst_scheme \<Rightarrow> 'a logst_scheme res" where
  "commit me s =
     (if lhn s > 0 then
        rbind (write_log me s) (\<lambda>s.
        rbind (write_head me s) (\<lambda>s.
        rbind (install_trans me False s) (\<lambda>s.
        write_head me (s\<lparr>lhn := 0\<rparr>))))
      else Inr s)"

definition wakeup_log :: "'a logst_scheme \<Rightarrow> 'a logst_scheme" where
  "wakeup_log s = s\<lparr>woken := woken s @ [LogChan]\<rparr>"

definition end_op :: "int \<Rightarrow> 'a logst_scheme \<Rightarrow> 'a logst_scheme res" where
  "end_op me s =
     rbind (acquire_log s) (\<lambda>s.
     let s = s\<lparr>outstanding := outstanding s - 1\<rparr> in
     if committing s then Inl (Panic ''log.committing'')
     else
       let do_commit = (outstanding s = 0);
           s = (if do_commit then s\<lparr>committing := True\<rparr> else wakeup_log s) in
       rbind (release_log s) (\<lambda>s.
       if do_commit then
         rbind (commit me s) (\<lambda>s.
         rbind (acquire_log s) (\<lambda>s.
         release_log (wakeup_log (s\<lparr>committing := False\<rparr>))))
       else Inr s))"

definition log_write :: "nat \<Rightarrow> 'a logst_scheme \<Rightarrow> 'a logst_scheme res" where
  "log_write b s =
     rbind (acquire_log s) (\<lambda>s.
     if lhn s \<ge> int LOGSIZE \<or> lhn s \<ge> lsize s - 1 then Inl (Panic ''too big a transaction'')
     else if outstanding s < 1 then Inl (Panic ''log_write outside of trans'')
     else
       let n = nat (lhn s);
           i = (case find_idx (\<lambda>x. x = blockno (bufs s b)) (take n (lhblock s)) of Some i \<Rightarrow> i | None \<Rightarrow> n) in
       rbind (aset (lhblock s) (int i) (blockno (bufs s b))) (\<lambda>l.
       let s = s\<lparr>lhblock := l\<rparr> in
       rbind (if i = n then rbind (bpin b s) (\<lambda>s. Inr (s\<lparr>lhn := lhn s + 1\<rparr>)) else Inr s) (\<lambda>s.
       release_log s)))"

section \<open>One block of the transaction\<close>

definition io_only :: "'a bcache_scheme \<Rightarrow> 'a bcache_scheme \<Rightarrow> bool" where
  "io_only s s' \<longleftrightarrow> (\<exists>b k w c. s' = s\<lparr>bufs := b, disk := k, dwrites := w, woken := c\<rparr>)"

text \<open>The effect of a step that writes \<open>v\<close> to block \<open>n\<close> of the disk, seen through the cache.\<close>

definition wrote :: "int \<Rightarrow> u32 \<Rightarrow> nat set \<Rightarrow> nat set \<Rightarrow> u32 \<Rightarrow> u8 list \<Rightarrow> 'a logst_scheme \<Rightarrow> 'a logst_scheme \<Rightarrow> bool" where
  "wrote me d P P' n v s s' \<longleftrightarrow>
     bio_ok me d {} P' s' \<and> disk s' = (disk s)(n := v) \<and> content d s' = (content d s)(n := v) \<and>
     dwrites s' = dwrites s @ [(n, v)] \<and> (\<forall>i \<in> P'. blockno (bufs s' i) = blockno (bufs s i)) \<and>
     io_only s s'"

end
