(* ===== verification/Txn.thy ===== *)
theory Txn
  imports Log
begin

text \<open>
  Transactions: what the steps of \<open>commit\<close> and of recovery write to the disk, and that a crash at
  any point leaves either all of a transaction or nothing of it.
\<close>

section \<open>Frames\<close>

lemma io_only_iff: "io_only s s' \<longleftrightarrow> bclock s' = bclock s \<and> bcache.more s' = bcache.more s"
  by (cases s; cases s') (simp add: io_only_def)

lemma io_only_upd:
  "s' = s\<lparr>bufs := b\<rparr> \<Longrightarrow> io_only s s'"
  "s' = s\<lparr>bufs := b, disk := k, dwrites := w\<rparr> \<Longrightarrow> io_only s s'"
  "io_only s s"
  "s' = s\<lparr>bufs := b, woken := c\<rparr> \<Longrightarrow> io_only s s'"
  by (simp_all add: io_only_iff)

lemma io_only_trans: "io_only s s1 \<Longrightarrow> io_only s1 s2 \<Longrightarrow> io_only s s2"
  by (simp add: io_only_iff)

lemma io_only_frame:
  assumes "io_only s s'"
  shows "ldev s' = ldev s" "lhblock s' = lhblock s" "lstart s' = lstart s" "lhn s' = lhn s"
    "lsize s' = lsize s" "outstanding s' = outstanding s" "committing s' = committing s" "loglock s' = loglock s"
  using assms by (auto simp: io_only_def)

section \<open>Two buffers at a time\<close>

lemma read_postD:
  assumes "read_post me d H P n s i s'"
  shows "i \<notin> H" "bio_ok me d (insert i H) P s'"
    "blockno (bufs s' i) = n" "data (bufs s' i) = content d s n" "content d s' = content d s"
    "j \<noteq> i \<Longrightarrow> bufs s' j = bufs s j" "disk s' = disk s" "dwrites s' = dwrites s"
    "j \<in> H \<union> P \<Longrightarrow> blockno (bufs s' j) = blockno (bufs s j)"
    "s' = s\<lparr>bufs := bufs s'\<rparr>" "i \<in> P \<longleftrightarrow> (\<exists>j \<in> P. blockno (bufs s j) = n)"
proof -
  show s': "s' = s\<lparr>bufs := bufs s'\<rparr>" using assms by (simp add: read_post_def)
  show "disk s' = disk s" "dwrites s' = dwrites s" by (subst s', simp)+
  show "blockno (bufs s' j) = blockno (bufs s j)" if "j \<in> H \<union> P"
    using assms that by (cases "j = i") (auto simp: read_post_def)
qed (use assms in \<open>auto simp: read_post_def\<close>)

lemma release_two:
  assumes "bio_ok me d {x, y} P s" "x \<noteq> y" "x \<in> P \<or> data (bufs s x) = disk s (blockno (bufs s x))"
    "y \<in> P \<or> data (bufs s y) = disk s (blockno (bufs s y))"
  shows "\<exists>s'. rbind (brelse me x s) (brelse me y) = Inr s' \<and> bio_ok me d {} P s' \<and> keeps s s' \<and>
    s' = s\<lparr>bufs := bufs s', woken := woken s'\<rparr>"
proof -
  obtain s1 where 1: "brelse me x s = Inr s1" "bio_ok me d ({x, y} - {x}) P s1" "keeps s s1"
      "s1 = s\<lparr>bufs := bufs s1, woken := woken s1\<rparr>"
    using brelse_ok [OF assms(1) _ assms(3)] by auto
  have h: "{x, y} - {x} = {y}" using assms(2) by auto
  have "y \<in> P \<or> data (bufs s1 y) = disk s1 (blockno (bufs s1 y))" using 1(3) assms(4) by (simp add: keeps_def)
  then obtain s2 where 2: "brelse me y s1 = Inr s2" "bio_ok me d ({y} - {y}) P s2" "keeps s1 s2"
      "s2 = s1\<lparr>bufs := bufs s2, woken := woken s2\<rparr>"
    using brelse_ok [OF 1(2)] h by auto
  have "s2 = s\<lparr>bufs := bufs s2, woken := woken s2\<rparr>" by (subst 2(4), subst 1(4)) simp
  with 1 2 show ?thesis by (auto simp: keeps_def)
qed

lemma copy_ok:
  assumes "bio_ok me d H P s" "x \<in> H" "y \<in> H" "x \<noteq> y"
  defines "n \<equiv> blockno (bufs s y)" and "v \<equiv> data (bufs s x)"
  shows "\<exists>s'. bwrite me y (set_buf y (\<lambda>b. b\<lparr>data := v\<rparr>) s) = Inr s' \<and> bio_ok me d H P s' \<and>
    disk s' = (disk s)(n := v) \<and> content d s' = (content d s)(n := v) \<and> dwrites s' = dwrites s @ [(n, v)] \<and>
    bufs s' = (bufs s)(y := (bufs s y)\<lparr>data := v\<rparr>) \<and> n \<noteq> blockno (bufs s x) \<and>
    s' = s\<lparr>bufs := bufs s', disk := disk s', dwrites := dwrites s'\<rparr>"
proof -
  have x: "x < NBUF" "dev (bufs s x) = d" and y: "y < NBUF" "dev (bufs s y) = d"
    using slot_other [OF assms(1)] assms(2,3) by auto
  have "length v = BSIZE" using bio_okD(5) [OF assms(1) x(1)] by (simp add: slot_ok_def v_def)
  note sd = set_data_ok [OF assms(1,3) this]
  note bw = bwrite_ok [OF sd(1) assms(3)]
  have "n \<noteq> blockno (bufs s x)"
    using no_aliasD [OF bio_okD(6) [OF assms(1)] x(1) y(1)] x y assms(4) by (auto simp: n_def)
  with bw sd(2) show ?thesis by (auto simp: n_def set_buf_def)
qed

section \<open>Steps of commit and recovery\<close>

lemma wroteI:
  assumes "bio_ok me d {} P' s'" "keeps s3 s'" "s' = s3\<lparr>bufs := bufs s', woken := woken s'\<rparr>"
    and "disk s3 = (disk s)(n := v)" "content d s3 = (content d s)(n := v)" "dwrites s3 = dwrites s @ [(n, v)]"
    and "io_only s s3"
    and "\<And>i. i \<in> P' \<Longrightarrow> blockno (bufs s3 i) = blockno (bufs s i)"
  shows "wrote me d P P' n v s s'"
proof -
  have "dwrites s' = dwrites s3" "disk s' = disk s3" by (subst assms(3), simp)+
  moreover have "content d s' = content d s3" by (rule keeps_content [OF assms(2)])
  moreover have "io_only s s'" using io_only_trans [OF assms(7)] io_only_upd(4) [OF assms(3)] by blast
  ultimately show ?thesis using assms by (auto simp: wrote_def keeps_def)
qed

lemma log_frame:
  assumes "s' = s\<lparr>bufs := b\<rparr>"
  shows "ldev s' = ldev s" "lhblock s' = lhblock s" "lstart s' = lstart s" "lhn s' = lhn s"
  using assms by simp_all

lemma write_log_one_ok:
  assumes ok: "bio_ok me d {} P s" "ldev s = d" "card P < NBUF" "tail < length (lhblock s)"
  defines "l \<equiv> of_int (lstart s + int tail + 1)" and "n \<equiv> lhblock s ! tail"
  assumes n: "\<exists>i \<in> P. blockno (bufs s i) = n" and l: "l \<notin> (\<lambda>i. blockno (bufs s i)) ` P"
  shows "\<exists>s'. write_log_one me tail s = Inr s' \<and> wrote me d P P l (content d s n) s s'"
proof -
  obtain t s1 where r1: "bread me d l s = Inr (t, s1)" and p1: "read_post me d {} P l s t s1"
    using bread_ok [OF ok(1), of l] ok(3) by auto
  note 1 = read_postD [OF p1]
  have n1: "\<exists>i \<in> P. blockno (bufs s1 i) = n" using n 1(9) by auto
  have "l \<noteq> n" using n l by auto
  then obtain f s2 where r2: "bread me d n s1 = Inr (f, s2)" and p2: "read_post me d {t} P n s1 f s2"
    using bread_ok [OF 1(2), of n] n1 1(3) by auto
  note 2 = read_postD [OF p2]
  have fP: "f \<in> P" using 2(11) n1 by simp
  have ft: "f \<noteq> t" using 2(1) by simp
  have bt: "blockno (bufs s2 t) = l" and dv: "data (bufs s2 f) = content d s n"
    using 2(4) 2(6) [of t] ft 1(3,5) by auto
  obtain s3 where 3: "bwrite me t (set_buf t (\<lambda>b. b\<lparr>data := content d s n\<rparr>) s2) = Inr s3"
      "bio_ok me d {f, t} P s3" "disk s3 = (disk s)(l := content d s n)"
      "content d s3 = (content d s)(l := content d s n)" "dwrites s3 = dwrites s @ [(l, content d s n)]"
      "bufs s3 = (bufs s2)(t := (bufs s2 t)\<lparr>data := content d s n\<rparr>)"
      "s3 = s2\<lparr>bufs := bufs s3, disk := disk s3, dwrites := dwrites s3\<rparr>"
    using copy_ok [OF 2(2), of f t] ft bt dv 1(5,7,8) 2(5,7,8) by auto
  have "t \<in> P \<or> data (bufs s3 t) = disk s3 (blockno (bufs s3 t))" using 3(3,6) bt by simp
  from release_two [OF 3(2) ft disjI1 [OF fP] this] obtain s4 where 4: "rbind (brelse me f s3) (brelse me t) = Inr s4"
      "bio_ok me d {} P s4" "keeps s3 s4" "s4 = s3\<lparr>bufs := bufs s4, woken := woken s4\<rparr>"
    by (elim exE conjE) (rule that)
  have "io_only s s3"
    using io_only_upd(1) [OF 1(10)] io_only_upd(1) [OF 2(10)] io_only_upd(2) [OF 3(7)] io_only_trans by blast
  then have "wrote me d P P l (content d s n) s s4"
    using 3 1(9) 2(9) by (intro wroteI [OF 4(2-4)]) auto
  moreover have "write_log_one me tail s = Inr s4"
  proof -
    have "aget (lhblock s1) (int tail) = Inr n" using ok(4) log_frame [OF 1(10)] by (simp add: n_def)
    moreover have "ldev s1 = d" using log_frame [OF 1(10)] ok(2) by simp
    ultimately show ?thesis
      using r1 r2 3(1) 4(1) ok(2) dv unfolding write_log_one_def l_def [symmetric] by simp
  qed
  ultimately show ?thesis by blast
qed

lemma install_one_ok:
  assumes ok: "bio_ok me d {} P s" "ldev s = d" "tail < length (lhblock s)"
  defines "l \<equiv> of_int (lstart s + int tail + 1)" and "n \<equiv> lhblock s ! tail"
  assumes n: "if recovering then P = {} else card P < NBUF \<and> (\<exists>i \<in> P. blockno (bufs s i) = n)"
    and l: "l \<notin> (\<lambda>i. blockno (bufs s i)) ` P" "l \<noteq> n"
  defines "P' \<equiv> {i \<in> P. blockno (bufs s i) \<noteq> n}"
  shows "\<exists>s'. install_one me recovering tail s = Inr s' \<and> wrote me d P P' n (content d s l) s s'"
proof -
  have c: "card P < NBUF" using n by (auto simp: NBUF_def split: if_splits)
  obtain t s1 where r1: "bread me d l s = Inr (t, s1)" and p1: "read_post me d {} P l s t s1"
    using bread_ok [OF ok(1), of l] c by auto
  note 1 = read_postD [OF p1]
  have "card ({t} \<union> P) < NBUF \<or> (\<exists>i \<in> P. blockno (bufs s1 i) = n)"
    using n 1(9) by (auto simp: NBUF_def split: if_splits)
  then obtain f s2 where r2: "bread me d n s1 = Inr (f, s2)" and p2: "read_post me d {t} P n s1 f s2"
    using bread_ok [OF 1(2), of n] l(2) 1(3) by auto
  note 2 = read_postD [OF p2]
  have ft: "f \<noteq> t" using 2(1) by simp
  have bt: "blockno (bufs s2 t) = l" and dv: "data (bufs s2 t) = content d s l"
    using 2(6) [of t] ft 1(3,4) by auto
  have tP: "t \<notin> P" using 1(11) l(1) by auto
  have fP: "f \<in> P \<longleftrightarrow> \<not> recovering" using 2(11) n 1(9) by (auto split: if_splits)
  have dl: "content d s l = disk s l" by (rule content_disk [OF ok(1)]) (use l(1) in auto)
  obtain s3 where 3: "bwrite me f (set_buf f (\<lambda>b. b\<lparr>data := content d s l\<rparr>) s2) = Inr s3"
      "bio_ok me d {f, t} P s3" "disk s3 = (disk s)(n := content d s l)"
      "content d s3 = (content d s)(n := content d s l)" "dwrites s3 = dwrites s @ [(n, content d s l)]"
      "bufs s3 = (bufs s2)(f := (bufs s2 f)\<lparr>data := content d s l\<rparr>)"
      "s3 = s2\<lparr>bufs := bufs s3, disk := disk s3, dwrites := dwrites s3\<rparr>"
    using copy_ok [OF 2(2), of t f] ft 2(3) dv 1(5,7,8) 2(5,7,8) by auto
  have bn: "i \<in> P \<Longrightarrow> blockno (bufs s3 i) = blockno (bufs s i)" for i
    using 1(9) 2(9) 3(6) by auto
  have u: "i = f" if "i \<in> P" "f \<in> P" "blockno (bufs s i) = n" for i
  proof -
    have "blockno (bufs s3 f) = blockno (bufs s3 i)" using bn that 2(3) 3(6) by simp
    then show ?thesis
      using pinned_unique [OF 3(2), of i f] slot_other [OF 3(2), of i] that by simp
  qed
  have bf: "f \<in> P \<Longrightarrow> blockno (bufs s f) = n" using 2(3) bn [of f] 3(6) by simp
  have P': "P' = (if recovering then P else P - {f})"
  proof (cases recovering)
    case True
    with n show ?thesis by (simp add: P'_def)
  next
    case False
    then have "f \<in> P" using fP by simp
    with u bf have "P' = P - {f}" unfolding P'_def by blast
    with False show ?thesis by simp
  qed
  obtain s4 where 4: "(if recovering then Inr s3 else bunpin f s3) = Inr s4" "bio_ok me d {f, t} P' s4"
      "content d s4 = content d s3" "s4 = s3\<lparr>bufs := bufs s4\<rparr>" "keeps s3 s4"
  proof (cases recovering)
    case True
    with P' 3(2) show ?thesis by (intro that [of s3]) (auto simp: keeps_def)
  next
    case False
    with fP have "f \<in> P" by simp
    with bunpin_ok [OF 3(2), of f] obtain s4 where "bunpin f s3 = Inr s4" "bio_ok me d {f, t} (P - {f}) s4"
        "content d s4 = content d s3" "s4 = s3\<lparr>bufs := (bufs s3)(f := (bufs s3 f)\<lparr>refcnt := refcnt (bufs s3 f) - 1\<rparr>)\<rparr>"
      by auto
    with False P' show ?thesis by (intro that [of s4]) (auto simp: keeps_def)
  qed
  have "data (bufs s4 t) = disk s4 (blockno (bufs s4 t))" "data (bufs s4 f) = disk s4 (blockno (bufs s4 f))"
    using 4(5) 3(3,6) bt dv dl l(2) ft 2(3) by (auto simp: keeps_def)
  from release_two [OF _ ft [symmetric] disjI2 [OF this(1)] disjI2 [OF this(2)], of me d P']
  obtain s5 where 5: "rbind (brelse me t s4) (brelse me f) = Inr s5"
      "bio_ok me d {} P' s5" "keeps s4 s5" "s5 = s4\<lparr>bufs := bufs s5, woken := woken s5\<rparr>"
    using 4(2) by (auto simp: insert_commute)
  have e4: "dwrites s4 = dwrites s3" "disk s4 = disk s3" by (subst 4(4), simp)+
  have "io_only s s4"
    using io_only_upd(1) [OF 1(10)] io_only_upd(1) [OF 2(10)] io_only_upd(2) [OF 3(7)] io_only_upd(1) [OF 4(4)]
      io_only_trans by blast
  with e4 have "wrote me d P P' n (content d s l) s s5"
    using 3 4(3,5) bn by (intro wroteI [OF 5(2-4)]) (auto simp: P'_def keeps_def)
  moreover have "install_one me recovering tail s = Inr s5"
  proof -
    have "aget (lhblock s1) (int tail) = Inr n" using ok(3) log_frame [OF 1(10)] by (simp add: n_def)
    moreover have "ldev s1 = d" using log_frame [OF 1(10)] ok(2) by simp
    ultimately show ?thesis
      using r1 r2 3(1) 4(1) 5(1) ok(2) dv unfolding install_one_def l_def [symmetric] by simp
  qed
  ultimately show ?thesis by blast
qed

section \<open>Sequences of writes\<close>

definition apply_writes :: "(u32 \<times> u8 list) list \<Rightarrow> (u32 \<Rightarrow> u8 list) \<Rightarrow> u32 \<Rightarrow> u8 list" where
  "apply_writes ws f = fold (\<lambda>(n, v) f. f(n := v)) ws f"

lemma apply_writes_simps [simp]:
  "apply_writes [] f = f"
  "apply_writes ((n, v) # ws) f = apply_writes ws (f(n := v))"
  "apply_writes (us @ ws) f = apply_writes ws (apply_writes us f)"
  by (simp_all add: apply_writes_def)

lemma apply_writes_other: "x \<notin> fst ` set ws \<Longrightarrow> apply_writes ws f x = f x"
  by (induction ws arbitrary: f) auto

lemma apply_writes_map:
  assumes "\<And>t. t \<in> set ts \<Longrightarrow> n t = x \<Longrightarrow> v t = w"
  shows "apply_writes (map (\<lambda>t. (n t, v t)) ts) f x = (if x \<in> n ` set ts then w else f x)"
  using assms by (induction ts arbitrary: f) (auto split: if_splits)

text \<open>\<open>ran ws\<close>: a piece of code that wrote \<open>ws\<close> to the disk, in this order.\<close>

definition ran :: "int \<Rightarrow> u32 \<Rightarrow> nat set \<Rightarrow> (u32 \<times> u8 list) list \<Rightarrow> 'a logst_scheme \<Rightarrow> 'a logst_scheme \<Rightarrow> bool" where
  "ran me d P' ws s s' \<longleftrightarrow>
     bio_ok me d {} P' s' \<and> disk s' = apply_writes ws (disk s) \<and> content d s' = apply_writes ws (content d s) \<and>
     dwrites s' = dwrites s @ ws \<and> (\<forall>i \<in> P'. blockno (bufs s' i) = blockno (bufs s i)) \<and>
     io_only s s'"

lemma ran_wrote: "wrote me d P P' n v s s' \<Longrightarrow> ran me d P' [(n, v)] s s'"
  by (simp add: wrote_def ran_def)

lemma ran_refl: "bio_ok me d {} P s \<Longrightarrow> ran me d P [] s s"
  by (simp add: ran_def io_only_upd(3))

lemma ran_frame:
  assumes "ran me d P ws s s'"
  shows "ldev s' = ldev s" "lhblock s' = lhblock s" "lstart s' = lstart s" "lhn s' = lhn s"
    "lsize s' = lsize s" "outstanding s' = outstanding s" "committing s' = committing s" "loglock s' = loglock s"
  using assms io_only_frame [of s s'] by (simp_all add: ran_def)

lemma ran_trans:
  assumes "ran me d P1 us s s1" "ran me d P2 ws s1 s2" "P2 \<subseteq> P1"
  shows "ran me d P2 (us @ ws) s s2"
  using assms io_only_trans [of s s1 s2] by (auto simp: ran_def)

section \<open>The header block\<close>

definition header :: "u32 list \<Rightarrow> u8 list \<Rightarrow> u8 list" where
  "header ns bs = fold (\<lambda>i b. put32 (Suc i) (ns ! i) b) [0..<length ns] (put32 0 (of_nat (length ns)) bs)"

lemma header_fold:
  assumes "length bs = BSIZE" "k \<le> LOGSIZE"
  shows "length (fold (\<lambda>i b. put32 (Suc i) (f i) b) [0..<k] bs) = BSIZE \<and>
    (\<forall>j \<le> LOGSIZE. get32 (fold (\<lambda>i b. put32 (Suc i) (f i) b) [0..<k] bs) j =
      (if 0 < j \<and> j \<le> k then f (j - 1) else get32 bs j))"
  using assms(2)
proof (induction k)
  case (Suc k)
  then have *: "length (fold (\<lambda>i b. put32 (Suc i) (f i) b) [0..<k] bs) = BSIZE"
    "\<forall>j \<le> LOGSIZE. get32 (fold (\<lambda>i b. put32 (Suc i) (f i) b) [0..<k] bs) j =
      (if 0 < j \<and> j \<le> k then f (j - 1) else get32 bs j)" by auto
  have k: "4 * Suc k + 4 \<le> BSIZE" using Suc.prems by (simp add: BSIZE_def LOGSIZE_def)
  have "get32 (put32 (Suc k) (f k) (fold (\<lambda>i b. put32 (Suc i) (f i) b) [0..<k] bs)) j =
      (if 0 < j \<and> j \<le> Suc k then f (j - 1) else get32 bs j)" if "j \<le> LOGSIZE" for j
  proof -
    have "4 * j + 4 \<le> BSIZE" using that by (simp add: BSIZE_def LOGSIZE_def)
    then show ?thesis using * k that by (subst get32_put32) auto
  qed
  with * k show ?case by simp
qed (use assms(1) in simp)

lemma header_facts:
  assumes "length bs = BSIZE" "length ns \<le> LOGSIZE"
  shows "length (header ns bs) = BSIZE" "get32 (header ns bs) 0 = of_nat (length ns)"
    "i < length ns \<Longrightarrow> get32 (header ns bs) (Suc i) = ns ! i"
proof -
  have b: "length (put32 0 (of_nat (length ns)) bs) = BSIZE" using assms(1) by (simp add: BSIZE_def)
  note h = header_fold [OF b assms(2), of "\<lambda>i. ns ! i"]
  show "length (header ns bs) = BSIZE" using h by (simp add: header_def)
  show "get32 (header ns bs) 0 = of_nat (length ns)"
    using h assms(1) by (simp add: header_def get32_put32 BSIZE_def)
  show "get32 (header ns bs) (Suc i) = ns ! i" if "i < length ns"
    using h that assms(2) by (simp add: header_def)
qed

definition logged :: "'a logst_scheme \<Rightarrow> u32 list" where
  "logged s = take (nat (lhn s)) (lhblock s)"

lemma set_buf_twice: "set_buf b f (set_buf b g s) = set_buf b (\<lambda>x. f (g x)) s"
  by (simp add: set_buf_def)

lemma lhblock_set_buf [simp]: "lhblock (set_buf b f s) = lhblock s" "lhn (set_buf b f s) = lhn s"
  by (simp_all add: set_buf_def)

lemma write_head_loop:
  assumes "k \<le> length (lhblock s)"
  shows "for_each (write_head_entry b) [0..<k] s =
    Inr (set_buf b (\<lambda>x. x\<lparr>data := fold (\<lambda>i v. put32 (Suc i) (lhblock s ! i) v) [0..<k] (data x)\<rparr>) s)"
  using assms
proof (induction k)
  case 0
  then show ?case by (cases s) (simp add: set_buf_def)
next
  case (Suc k)
  then show ?case by (simp add: for_each_append write_head_entry_def set_buf_twice)
qed

lemma write_one_ok:
  assumes "bio_ok me d {i} P s" "length v = BSIZE"
  defines "n \<equiv> blockno (bufs s i)"
  shows "\<exists>s'. rbind (bwrite me i (set_buf i (\<lambda>x. x\<lparr>data := v\<rparr>) s)) (brelse me i) = Inr s' \<and>
    ran me d P [(n, v)] s s'"
proof -
  note sd = set_data_ok [OF assms(1) _ assms(2), of i]
  have bt: "blockno (bufs (set_buf i (\<lambda>x. x\<lparr>data := v\<rparr>) s) i) = n" "data (bufs (set_buf i (\<lambda>x. x\<lparr>data := v\<rparr>) s) i) = v"
    by (simp_all add: n_def)
  let ?t = "set_buf i (\<lambda>x. x\<lparr>data := v\<rparr>) s"
  let ?u = "?t\<lparr>disk := (disk ?t)(n := v), dwrites := dwrites ?t @ [(n, v)]\<rparr>"
  have sd': "bio_ok me d {i} P ?t" "content d ?t = (content d s)(n := v)" using sd by (simp_all add: n_def)
  have bw: "bwrite me i ?t = Inr ?u" "bio_ok me d {i} P ?u" "content d ?u = content d ?t"
    using bwrite_ok [OF sd'(1), of i] unfolding bt by simp_all
  have "i \<in> P \<or> data (bufs ?u i) = disk ?u (blockno (bufs ?u i))" by (simp add: n_def)
  from brelse_ok [OF bw(2) _ this] obtain s' where s': "brelse me i ?u = Inr s'" "bio_ok me d ({i} - {i}) P s'"
      "keeps ?u s'" "s' = ?u\<lparr>bufs := bufs s', woken := woken s'\<rparr>" by auto
  have "io_only s s'"
    by (subst s'(4)) (simp add: io_only_iff set_buf_def)
  moreover have "dwrites s' = dwrites s @ [(n, v)]" by (subst s'(4)) simp
  moreover have "disk s' = (disk s)(n := v)" by (subst s'(4)) simp
  moreover have "content d s' = (content d s)(n := v)"
    using keeps_content [OF s'(3)] bw(3) sd'(2) by simp
  moreover have "blockno (bufs s' j) = blockno (bufs s j)" for j using s'(3) by (simp add: keeps_def)
  ultimately have "ran me d P [(n, v)] s s'" using s'(2) by (simp add: ran_def)
  with bw(1) s'(1) show ?thesis by auto
qed

lemma write_head_ok:
  assumes ok: "bio_ok me d {} P s" "ldev s = d" "card P < NBUF" "0 \<le> lhn s" "nat (lhn s) \<le> length (lhblock s)"
    "length (lhblock s) = LOGSIZE"
  defines "h \<equiv> of_int (lstart s)"
  shows "\<exists>s'. write_head me s = Inr s' \<and> ran me d P [(h, header (logged s) (content d s h))] s s'"
proof -
  obtain b s1 where r1: "bread me d h s = Inr (b, s1)" and p1: "read_post me d {} P h s b s1"
    using bread_ok [OF ok(1), of h] ok(3) by auto
  note 1 = read_postD [OF p1]
  note fr = log_frame [OF 1(10)]
  let ?v = "header (logged s) (content d s h)"
  have len: "length (logged s) = nat (lhn s)" using ok(5) by (simp add: logged_def)
  have hv: "length ?v = BSIZE"
    by (rule header_facts) (use length_content [OF ok(1)] len ok(5,6) in simp_all)
  obtain s' where s': "rbind (bwrite me b (set_buf b (\<lambda>x. x\<lparr>data := ?v\<rparr>) s1)) (brelse me b) = Inr s'"
      "ran me d P [(h, ?v)] s1 s'"
    using write_one_ok [OF 1(2) hv] 1(3) by auto
  have "fold (\<lambda>i b. put32 (Suc i) (logged s ! i) b) [0..<nat (lhn s)] z =
      fold (\<lambda>i b. put32 (Suc i) (lhblock s ! i) b) [0..<nat (lhn s)] z" for z
    by (rule fold_cong) (auto simp: logged_def)
  then have "?v = fold (\<lambda>i b. put32 (Suc i) (lhblock s ! i) b) [0..<nat (lhn s)] (put32 0 (of_int (lhn s)) (content d s h))"
    using ok(4) by (simp add: header_def len)
  then have "set_buf b (\<lambda>x. x\<lparr>data := fold (\<lambda>i v. put32 (Suc i) (lhblock s ! i) v) [0..<nat (lhn s)]
      (put32 0 (of_int (lhn s)) (data x))\<rparr>) s1 = set_buf b (\<lambda>x. x\<lparr>data := ?v\<rparr>) s1"
    using 1(4) by (simp add: set_buf_def)
  with r1 s'(1) fr ok(2,5) have "write_head me s = Inr s'"
    unfolding write_head_def h_def [symmetric] by (simp add: write_head_loop set_buf_twice)
  moreover have "ran me d P [(h, ?v)] s s'"
    using s'(2) 1(5,7-9) io_only_trans [OF io_only_upd(1) [OF 1(10)]] by (auto simp: ran_def)
  ultimately show ?thesis by blast
qed

section \<open>The log area\<close>

definition logblk :: "'a logst_scheme \<Rightarrow> nat \<Rightarrow> u32" where
  "logblk s t = of_int (lstart s + int t + 1)"

definition loghead :: "'a logst_scheme \<Rightarrow> u32" where
  "loghead s = of_int (lstart s)"

definition logarea :: "'a logst_scheme \<Rightarrow> u32 set" where
  "logarea s = (\<lambda>k. of_int (lstart s + int k)) ` {..<nat (lsize s)}"

definition log_geo :: "'a logst_scheme \<Rightarrow> bool" where
  "log_geo s \<longleftrightarrow> 0 \<le> lstart s \<and> 0 < lsize s \<and> lstart s + lsize s \<le> 2 ^ 32 \<and> length (lhblock s) = LOGSIZE \<and>
     0 \<le> lhn s \<and> lhn s \<le> int LOGSIZE \<and> lhn s < lsize s \<and> set (logged s) \<inter> logarea s = {}"

lemma of_int_u32_inj:
  "0 \<le> a \<Longrightarrow> a < 2 ^ 32 \<Longrightarrow> 0 \<le> b \<Longrightarrow> b < 2 ^ 32 \<Longrightarrow> (of_int a :: u32) = of_int b \<Longrightarrow> a = b"
  by (simp add: word_of_int_eq_iff take_bit_int_eq_self)

lemma log_geo_len: "log_geo s \<Longrightarrow> length (logged s) = nat (lhn s)"
  by (auto simp: log_geo_def logged_def min_def)

lemma logblk_facts:
  assumes "log_geo s" "t < nat (lhn s)"
  shows "logblk s t \<in> logarea s" "logblk s t \<noteq> loghead s" "t' < nat (lhn s) \<Longrightarrow> logblk s t = logblk s t' \<Longrightarrow> t = t'"
proof -
  have g: "0 \<le> lstart s" "lstart s + lsize s \<le> 2 ^ 32" "int t < lsize s - 1"
    using assms by (auto simp: log_geo_def)
  show "logblk s t \<in> logarea s"
    unfolding logarea_def logblk_def by (rule image_eqI [of _ _ "Suc t"]) (use g in \<open>auto simp: algebra_simps\<close>)
  show "logblk s t \<noteq> loghead s"
    unfolding logblk_def loghead_def using g of_int_u32_inj [of "lstart s + int t + 1" "lstart s"] by auto
  show "t = t'" if "t' < nat (lhn s)" "logblk s t = logblk s t'"
  proof -
    have "int t' < lsize s - 1" using assms(1) that(1) by (auto simp: log_geo_def)
    then show ?thesis
      using of_int_u32_inj [of "lstart s + int t + 1" "lstart s + int t' + 1"] g that(2)
      unfolding logblk_def by auto
  qed
qed

lemma loghead_area: "log_geo s \<Longrightarrow> loghead s \<in> logarea s"
  unfolding logarea_def loghead_def by (rule image_eqI [of _ _ 0]) (auto simp: log_geo_def)

lemma ran_log:
  assumes "ran me d P ws s s'"
  shows "logblk s' = logblk s" "loghead s' = loghead s" "logged s' = logged s" "logarea s' = logarea s"
    "log_geo s' = log_geo s"
  using ran_frame [OF assms] by (auto simp: logblk_def loghead_def logged_def logarea_def log_geo_def fun_eq_iff)

section \<open>The loops\<close>

lemma write_log_ran:
  assumes ok: "bio_ok me d {} P s" "ldev s = d" "card P < NBUF" "log_geo s"
    and P: "(\<lambda>i. blockno (bufs s i)) ` P = set (logged s)" and k: "k \<le> nat (lhn s)"
  shows "\<exists>s'. for_each (write_log_one me) [0..<k] s = Inr s' \<and>
    ran me d P (map (\<lambda>t. (logblk s t, content d s (logged s ! t))) [0..<k]) s s'"
  using k
proof (induction k)
  case 0
  then show ?case using ran_refl [OF ok(1)] by auto
next
  case (Suc k)
  let ?ws = "map (\<lambda>t. (logblk s t, content d s (logged s ! t))) [0..<k]"
  obtain s1 where s1: "for_each (write_log_one me) [0..<k] s = Inr s1" "ran me d P ?ws s s1" using Suc by auto
  note fr = ran_frame [OF s1(2)] and rl = ran_log [OF s1(2)]
  have len: "k < length (lhblock s)" "k < length (logged s)" "lhblock s ! k = logged s ! k"
    using Suc.prems log_geo_len [OF ok(4)] ok(4) by (auto simp: log_geo_def logged_def)
  have bk: "bio_ok me d {} P s1" "ldev s1 = d" "k < length (lhblock s1)"
    using s1(2) fr(1,2) ok(2) len(1) by (simp_all add: ran_def)
  have mem: "logged s ! k \<in> set (logged s)" using len(2) by simp
  have b1: "blockno (bufs s1 i) = blockno (bufs s i)" if "i \<in> P" for i using s1(2) that by (simp add: ran_def)
  have pin: "\<exists>i \<in> P. blockno (bufs s1 i) = lhblock s1 ! k"
    using mem P b1 fr(2) len(3) by (metis (no_types, lifting) imageE)
  have area: "logblk s k \<notin> set (logged s)"
    using logblk_facts(1) [OF ok(4), of k] Suc.prems ok(4) by (auto simp: log_geo_def)
  have nl: "of_int (lstart s1 + int k + 1) \<notin> (\<lambda>i. blockno (bufs s1 i)) ` P"
    using area P b1 fr(3) unfolding logblk_def by auto
  obtain s2 where s2: "write_log_one me k s1 = Inr s2"
      "wrote me d P P (of_int (lstart s1 + int k + 1)) (content d s1 (lhblock s1 ! k)) s1 s2"
    using write_log_one_ok [OF bk(1,2) ok(3) bk(3) pin nl] by blast
  have "logged s ! k \<notin> fst ` set ?ws"
    using mem logblk_facts(1) [OF ok(4)] Suc.prems ok(4) by (auto simp: log_geo_def)
  then have "content d s1 (lhblock s1 ! k) = content d s (logged s ! k)"
    using s1(2) fr(2) len(3) apply_writes_other by (simp add: ran_def)
  with s2(2) fr(3) have "ran me d P [(logblk s k, content d s (logged s ! k))] s1 s2"
    by (intro ran_wrote) (simp add: logblk_def)
  from ran_trans [OF s1(2) this] s1(1) s2(1) show ?case by (simp add: for_each_append)
qed

lemma install_ran:
  assumes ok: "bio_ok me d {} P s" "ldev s = d" "log_geo s"
    and P: "if recovering then P = {}
      else card P < NBUF \<and> distinct (logged s) \<and> (\<lambda>i. blockno (bufs s i)) ` P = set (logged s)"
    and k: "k \<le> nat (lhn s)"
  shows "\<exists>s'. for_each (install_one me recovering) [0..<k] s = Inr s' \<and>
    ran me d {i \<in> P. blockno (bufs s i) \<notin> set (take k (logged s))}
      (map (\<lambda>t. (logged s ! t, content d s (logblk s t))) [0..<k]) s s'"
  using k
proof (induction k)
  case 0
  then show ?case using ran_refl [OF ok(1)] by auto
next
  case (Suc k)
  let ?ws = "map (\<lambda>t. (logged s ! t, content d s (logblk s t))) [0..<k]"
  let ?P = "\<lambda>k. {i \<in> P. blockno (bufs s i) \<notin> set (take k (logged s))}"
  obtain s1 where s1: "for_each (install_one me recovering) [0..<k] s = Inr s1" "ran me d (?P k) ?ws s s1"
    using Suc by auto
  note fr = ran_frame [OF s1(2)] and rl = ran_log [OF s1(2)]
  have len: "k < length (lhblock s)" "k < length (logged s)" "lhblock s ! k = logged s ! k"
    using Suc.prems log_geo_len [OF ok(3)] ok(3) by (auto simp: log_geo_def logged_def)
  have bk: "bio_ok me d {} (?P k) s1" "ldev s1 = d" "k < length (lhblock s1)"
    using s1(2) fr(1,2) ok(2) len(1) by (simp_all add: ran_def)
  have mem: "logged s ! k \<in> set (logged s)" using len(2) by simp
  have b1: "blockno (bufs s1 i) = blockno (bufs s i)" if "i \<in> ?P k" for i using s1(2) that by (simp add: ran_def)
  have area: "logblk s k \<notin> set (logged s)"
    using logblk_facts(1) [OF ok(3), of k] Suc.prems ok(3) by (auto simp: log_geo_def)
  have nl: "of_int (lstart s1 + int k + 1) \<notin> (\<lambda>i. blockno (bufs s1 i)) ` ?P k"
    using area P b1 fr(3) unfolding logblk_def by (auto split: if_splits)
  have ne: "of_int (lstart s1 + int k + 1) \<noteq> lhblock s1 ! k"
    using area mem fr(2,3) len(3) unfolding logblk_def by auto
  have pin: "if recovering then ?P k = {} else card (?P k) < NBUF \<and> (\<exists>i \<in> ?P k. blockno (bufs s1 i) = lhblock s1 ! k)"
  proof (cases recovering)
    case False
    then have P': "card P < NBUF" "distinct (logged s)" "(\<lambda>i. blockno (bufs s i)) ` P = set (logged s)"
      using P by auto
    obtain i where i: "i \<in> P" "blockno (bufs s i) = logged s ! k" using P'(3) mem by (metis (no_types, lifting) imageE)
    have "logged s ! k \<notin> set (take k (logged s))"
      using P'(2) len(2) by (auto simp: in_set_conv_nth nth_eq_iff_index_eq)
    with i have "i \<in> ?P k" by simp
    moreover from b1 [OF this] i(2) have "blockno (bufs s1 i) = lhblock s1 ! k" using fr(2) len(3) by simp
    moreover have "finite P" using bio_okD(4) [OF ok(1)] finite_subset by blast
    then have "card (?P k) \<le> card P" by (intro card_mono) auto
    ultimately show ?thesis using False P'(1) by auto
  qed (use P in simp)
  obtain s2 where s2: "install_one me recovering k s1 = Inr s2"
      "wrote me d (?P k) {i \<in> ?P k. blockno (bufs s1 i) \<noteq> lhblock s1 ! k} (lhblock s1 ! k)
        (content d s1 (of_int (lstart s1 + int k + 1))) s1 s2"
    using install_one_ok [OF bk pin nl ne] by blast
  have PS: "{i \<in> ?P k. blockno (bufs s1 i) \<noteq> lhblock s1 ! k} = ?P (Suc k)"
    using b1 fr(2) len(2,3) by (auto simp: take_Suc_conv_app_nth)
  have "fst ` set ?ws \<subseteq> set (logged s)" using len(2) by auto
  then have "logblk s k \<notin> fst ` set ?ws" using area by blast
  then have "content d s1 (logblk s k) = content d s (logblk s k)"
    using s1(2) apply_writes_other by (simp add: ran_def)
  with s2(2) PS fr(2,3) len(3) have "ran me d (?P (Suc k)) [(logged s ! k, content d s (logblk s k))] s1 s2"
    using ran_wrote [OF s2(2)] by (simp add: logblk_def)
  from ran_trans [OF s1(2) this] PS s1(1) s2(1) show ?case
    by (auto simp: for_each_append take_Suc_conv_app_nth len(2))
qed

end
