(* ===== verification/Crash.thy ===== *)
theory Crash
  imports Txn
begin

text \<open>
  Commit, recovery and crashes. \<open>txn_ok\<close> is the invariant of a transaction: the pinned buffers
  are those of the logged blocks, the logged blocks lie outside the log, and the header on
  the disk is empty. A crash keeps a prefix of the writes; \<open>recover\<close> then boots: \<open>binit\<close> on
  zeroed memory and \<open>initlog\<close>.
\<close>

section \<open>The invariant of a transaction\<close>

text \<open>The fields of the log do not matter to the cache.\<close>

lemma bio_ok_log [simp]:
  "bio_ok me d H P (s\<lparr>loglock := b\<rparr>) = bio_ok me d H P s"
  "bio_ok me d H P (s\<lparr>lstart := i\<rparr>) = bio_ok me d H P s"
  "bio_ok me d H P (s\<lparr>lsize := i\<rparr>) = bio_ok me d H P s"
  "bio_ok me d H P (s\<lparr>outstanding := i\<rparr>) = bio_ok me d H P s"
  "bio_ok me d H P (s\<lparr>committing := b\<rparr>) = bio_ok me d H P s"
  "bio_ok me d H P (s\<lparr>ldev := n\<rparr>) = bio_ok me d H P s"
  "bio_ok me d H P (s\<lparr>lhn := i\<rparr>) = bio_ok me d H P s"
  "bio_ok me d H P (s\<lparr>lhblock := l\<rparr>) = bio_ok me d H P s"
  "bio_ok me d H P (t\<lparr>woken := w\<rparr>) = bio_ok me d H P t"
  by (simp_all add: bio_ok_def)

lemma content_cong: "bufs s = bufs t \<Longrightarrow> disk s = disk t \<Longrightarrow> content d s = content d t"
  by (rule ext) (simp add: content_def split: option.split)

lemma content_log [simp]:
  "content d (s\<lparr>loglock := b\<rparr>) = content d s"
  "content d (s\<lparr>lstart := i\<rparr>) = content d s"
  "content d (s\<lparr>lsize := i\<rparr>) = content d s"
  "content d (s\<lparr>outstanding := i\<rparr>) = content d s"
  "content d (s\<lparr>committing := b\<rparr>) = content d s"
  "content d (s\<lparr>ldev := n\<rparr>) = content d s"
  "content d (s\<lparr>lhn := i\<rparr>) = content d s"
  "content d (s\<lparr>lhblock := l\<rparr>) = content d s"
  "content d (t\<lparr>woken := w\<rparr>) = content d t"
  by (rule content_cong; simp)+

lemma io_only_lhn: "io_only s s' \<Longrightarrow> io_only (s\<lparr>lhn := i\<rparr>) (s'\<lparr>lhn := i\<rparr>)"
proof -
  assume "io_only s s'"
  then obtain b k w c where "s' = s\<lparr>bufs := b, disk := k, dwrites := w, woken := c\<rparr>" by (auto simp: io_only_def)
  then have "s'\<lparr>lhn := i\<rparr> = s\<lparr>lhn := i\<rparr>\<lparr>bufs := b, disk := k, dwrites := w, woken := c\<rparr>" by (cases s) simp
  then show ?thesis unfolding io_only_def by blast
qed

lemma ranD:
  assumes "ran me d P ws s s'"
  shows "bio_ok me d {} P s'" "disk s' = apply_writes ws (disk s)" "content d s' = apply_writes ws (content d s)"
    "dwrites s' = dwrites s @ ws" "i \<in> P \<Longrightarrow> blockno (bufs s' i) = blockno (bufs s i)" "io_only s s'"
  using assms by (simp_all add: ran_def)

definition txn_ok :: "int \<Rightarrow> u32 \<Rightarrow> nat set \<Rightarrow> nat set \<Rightarrow> 'a logst_scheme \<Rightarrow> bool" where
  "txn_ok me d H P s \<longleftrightarrow>
     bio_ok me d H P s \<and> ldev s = d \<and> log_geo s \<and> lsize s \<le> int LOGSIZE \<and> \<not> loglock s \<and>
     distinct (logged s) \<and> (\<lambda>i. blockno (bufs s i)) ` P = set (logged s) \<and>
     (\<forall>i \<in> H. blockno (bufs s i) \<notin> logarea s) \<and> get32 (disk s (loghead s)) 0 = 0"

lemma txn_okD:
  assumes "txn_ok me d H P s"
  shows "bio_ok me d H P s" "ldev s = d" "log_geo s" "lsize s \<le> int LOGSIZE" "\<not> loglock s"
    "distinct (logged s)" "(\<lambda>i. blockno (bufs s i)) ` P = set (logged s)"
    "i \<in> H \<Longrightarrow> blockno (bufs s i) \<notin> logarea s" "get32 (disk s (loghead s)) 0 = 0"
  using assms by (auto simp: txn_ok_def)

lemma pinned_card:
  assumes "bio_ok me d H P s" "distinct xs" "(\<lambda>i. blockno (bufs s i)) ` P = set xs"
  shows "card P = length xs"
proof -
  have "inj_on (\<lambda>i. blockno (bufs s i)) P"
  proof (rule inj_onI)
    fix i j assume "i \<in> P" "j \<in> P" "blockno (bufs s i) = blockno (bufs s j)"
    then show "i = j" using pinned_unique [OF assms(1), of i j] slot_other [OF assms(1), of i] by auto
  qed
  then have "card P = card (set xs)" unfolding assms(3) [symmetric] by (rule card_image [symmetric])
  with assms(2) show ?thesis by (simp add: distinct_card)
qed

lemma txn_card:
  assumes "txn_ok me d H P s"
  shows "card P = nat (lhn s)" "card P < NBUF"
proof -
  note t = txn_okD [OF assms]
  show "card P = nat (lhn s)" using pinned_card [OF t(1,6,7)] log_geo_len [OF t(3)] by simp
  then show "card P < NBUF" using t(3,4) by (auto simp: log_geo_def LOGSIZE_def NBUF_def)
qed

text \<open>A block of the log is not pinned, so that it reads as it is on the disk.\<close>

lemma txn_log_clean:
  assumes "txn_ok me d H P s" "x \<in> logarea s"
  shows "content d s x = disk s x"
proof (rule content_disk [OF txn_okD(1) [OF assms(1)]])
  fix i assume "i \<in> H \<union> P"
  then show "blockno (bufs s i) \<noteq> x"
    using txn_okD(3,7,8) [OF assms(1)] assms(2) by (auto simp: log_geo_def)
qed

section \<open>Commit\<close>

lemma apply_writes_at:
  assumes "inj_on n (set ts)" "k \<in> set ts"
  shows "apply_writes (map (\<lambda>t. (n t, v t)) ts) f (n k) = v k"
proof -
  have "v t = v k" if "t \<in> set ts" "n t = n k" for t using inj_onD [OF assms(1) that(2,1) assms(2)] by simp
  from apply_writes_map [of ts n "n k" v "v k" f, OF this] assms(2) show ?thesis by simp
qed

lemma logblk_inj: "log_geo s \<Longrightarrow> inj_on (logblk s) (set [0..<nat (lhn s)])"
proof (rule inj_onI)
  fix x y assume "log_geo s" "x \<in> set [0..<nat (lhn s)]" "y \<in> set [0..<nat (lhn s)]" "logblk s x = logblk s y"
  then show "x = y" using logblk_facts(3) [of s x y] by simp
qed

definition commit_writes :: "u32 \<Rightarrow> 'a logst_scheme \<Rightarrow> (u32 \<times> u8 list) list" where
  "commit_writes d s =
     (let n = nat (lhn s); hdr = header (logged s) (disk s (loghead s)) in
      if n = 0 then []
      else map (\<lambda>t. (logblk s t, content d s (logged s ! t))) [0..<n] @ [(loghead s, hdr)] @
        map (\<lambda>t. (logged s ! t, content d s (logged s ! t))) [0..<n] @ [(loghead s, header [] hdr)])"

lemma commit_ran:
  assumes t: "txn_ok me d {} P s"
  shows "\<exists>s'. commit me s = Inr s' \<and> bio_ok me d {} {} s' \<and> lhn s' = 0 \<and>
    disk s' = apply_writes (commit_writes d s) (disk s) \<and>
    content d s' = apply_writes (commit_writes d s) (content d s) \<and>
    dwrites s' = dwrites s @ commit_writes d s \<and> io_only (s\<lparr>lhn := 0\<rparr>) s'"
proof (cases "lhn s = 0")
  case True
  then have "P = {}" using txn_okD(7) [OF t] by (simp add: logged_def)
  moreover have e: "s\<lparr>lhn := 0\<rparr> = s" using True by (cases s) simp
  ultimately show ?thesis
    using True txn_okD(1) [OF t] io_only_upd(3) unfolding e by (simp add: commit_def commit_writes_def)
next
  case False
  note D = txn_okD [OF t]
  let ?n = "nat (lhn s)" and ?c = "content d s" and ?h = "loghead s"
  let ?hdr = "header (logged s) (?c ?h)"
  let ?A = "map (\<lambda>t. (logblk s t, ?c (logged s ! t))) [0..<?n]"
  let ?B = "map (\<lambda>t. (logged s ! t, ?c (logged s ! t))) [0..<?n]"
  have len: "length (lhblock s) = LOGSIZE" "0 \<le> lhn s" "?n \<le> length (lhblock s)" "length (logged s) = ?n"
    using D(3) log_geo_len [OF D(3)] by (auto simp: log_geo_def)
  obtain s1 where s1: "write_log me s = Inr s1" "ran me d P ?A s s1"
    using write_log_ran [OF D(1-2) txn_card(2) [OF t] D(3,7) order_refl] unfolding write_log_def by blast
  note f1 = ran_frame [OF s1(2)] and l1 = ran_log [OF s1(2)]
  have hA: "?h \<notin> fst ` set ?A"
  proof
    assume "?h \<in> fst ` set ?A"
    then obtain k where "k < ?n" "?h = logblk s k" by auto
    with logblk_facts(2) [OF D(3)] show False by metis
  qed
  have c1: "content d s1 ?h = ?c ?h" using s1(2) apply_writes_other [OF hA] by (simp add: ran_def)
  have b1: "bio_ok me d {} P s1" using s1(2) by (simp add: ran_def)
  obtain s2 where s2: "write_head me s1 = Inr s2" "ran me d P [(?h, ?hdr)] s1 s2"
    using write_head_ok [OF b1 _ txn_card(2) [OF t]] f1(1,2,4) l1(2,3) len D(2) c1
    unfolding loghead_def by auto
  have r2: "ran me d P (?A @ [(?h, ?hdr)]) s s2" by (rule ran_trans [OF s1(2) s2(2) order_refl])
  note f2 = ran_frame [OF r2] and l2 = ran_log [OF r2]
  have b2: "bio_ok me d {} P s2" "ldev s2 = d" "log_geo s2" using r2 D(2,3) f2 l2 by (simp_all add: ran_def)
  have p2: "(\<lambda>i. blockno (bufs s2 i)) ` P = set (logged s)" using r2 D(7) by (auto simp: ran_def)
  have c2: "content d s2 (logblk s k) = ?c (logged s ! k)" if "k < ?n" for k
  proof -
    have "content d s2 (logblk s k) = apply_writes ?A ?c (logblk s k)"
      using r2 logblk_facts(2) [OF D(3) that] by (simp add: ran_def)
    also have "\<dots> = ?c (logged s ! k)"
      by (rule apply_writes_at [OF logblk_inj [OF D(3)]]) (use that in simp)
    finally show ?thesis .
  qed
  have e0: "{i \<in> P. blockno (bufs s2 i) \<notin> set (take ?n (logged s))} = {}" using p2 len(4) by auto
  have eB: "map (\<lambda>t. (logged s ! t, content d s2 (logblk s t))) [0..<?n] = ?B" using c2 by simp
  obtain s3 where s3: "install_trans me False s2 = Inr s3" "ran me d {} ?B s2 s3"
    using install_ran [OF b2(1-3), where recovering = False and k = ?n] txn_card(2) [OF t] D(6) p2
    unfolding install_trans_def f2(4) l2(1,3) e0 eB by auto
  have r3: "ran me d {} (?A @ [(?h, ?hdr)] @ ?B) s s3"
    using ran_trans [OF r2 s3(2)] by simp
  note f3 = ran_frame [OF r3] and l3 = ran_log [OF r3]
  have hB: "?h \<notin> fst ` set ?B"
  proof -
    have "fst ` set ?B \<subseteq> set (logged s)" using len(4) by auto
    with loghead_area [OF D(3)] D(3) show ?thesis by (auto simp: log_geo_def)
  qed
  have c3: "content d s3 ?h = ?hdr" using r3 apply_writes_other [OF hB] by (simp add: ran_def)
  have b3: "bio_ok me d {} {} (s3\<lparr>lhn := 0\<rparr>)" using ranD(1) [OF r3] by simp
  have lg: "logged (s3\<lparr>lhn := 0\<rparr>) = []" by (simp add: logged_def)
  obtain s4 where s4: "write_head me (s3\<lparr>lhn := 0\<rparr>) = Inr s4" "ran me d {} [(?h, header [] ?hdr)] (s3\<lparr>lhn := 0\<rparr>) s4"
    using write_head_ok [OF b3] f3(1-3) len D(2) c3 unfolding lg by (auto simp: NBUF_def loghead_def)
  have io: "io_only (s\<lparr>lhn := 0\<rparr>) s4"
  proof -
    have "io_only (s\<lparr>lhn := 0\<rparr>) (s3\<lparr>lhn := 0\<rparr>)"
      by (rule io_only_lhn [OF ranD(6) [OF r3]])
    then show ?thesis using ranD(6) [OF s4(2)] by (rule io_only_trans)
  qed
  then have "lhn s4 = 0" using io_only_frame(4) [OF io] by simp
  moreover have "commit me s = Inr s4" using False len(2) s1(1) s2(1) s3(1) s4(1) by (simp add: commit_def)
  moreover have "?c ?h = disk s ?h" by (rule txn_log_clean [OF t loghead_area [OF D(3)]])
  moreover have "commit_writes d s = ?A @ [(?h, ?hdr)] @ ?B @ [(?h, header [] ?hdr)]"
    using False len(2) calculation(3) by (simp add: commit_writes_def Let_def)
  ultimately show ?thesis using ranD(2-4) [OF r3] ranD(1-4) [OF s4(2)] io by simp
qed

section \<open>Recovery\<close>

definition bss_buf :: buf where
  "bss_buf = \<lparr>valid = False, disk_owned = False, dev = 0, blockno = 0,
     blk = \<lparr>slk = False, slocked = False, spid = 0\<rparr>, refcnt = 0, prev = Suc NBUF, bnext = Suc NBUF,
     data = replicate BSIZE 0\<rparr>"

definition fresh :: "(u32 \<Rightarrow> u8 list) \<Rightarrow> logst" where
  "fresh D = \<lparr>bclock = False, bufs = (\<lambda>_. bss_buf), disk = D, dwrites = [], woken = [], loglock = False,
     lstart = 0, lsize = 0, outstanding = 0, committing = False, ldev = 0, lhn = 0, lhblock = replicate LOGSIZE 0\<rparr>"

definition recover :: "int \<Rightarrow> u32 \<Rightarrow> superblock \<Rightarrow> (u32 \<Rightarrow> u8 list) \<Rightarrow> logst res" where
  "recover me d sb D = initlog me d sb (binit (fresh D))"

definition idle_buf :: "buf \<Rightarrow> bool" where
  "idle_buf b \<longleftrightarrow> \<not> valid b \<and> dev b = 0 \<and> \<not> slk (blk b) \<and> \<not> slocked (blk b) \<and> refcnt b = 0 \<and> length (data b) = BSIZE"

lemma idle_set_buf:
  "(\<And>x. idle_buf x \<Longrightarrow> idle_buf (f x)) \<Longrightarrow> \<forall>i. idle_buf (bufs s i) \<Longrightarrow> \<forall>i. idle_buf (bufs (set_buf b f s) i)"
  by simp

lemma idle_links [simp]:
  "idle_buf (x\<lparr>prev := p\<rparr>) = idle_buf x" "idle_buf (x\<lparr>bnext := p\<rparr>) = idle_buf x"
  "idle_buf x \<Longrightarrow> idle_buf (x\<lparr>blk := initsleeplock (blk x)\<rparr>)"
  by (simp_all add: idle_buf_def initsleeplock_def)

lemma binit_one_frame:
  "\<forall>i. idle_buf (bufs s i) \<Longrightarrow> \<forall>i. idle_buf (bufs (binit_one b s) i)"
  "io_only s (binit_one b s)" "disk (binit_one b s) = disk s"
proof -
  show "\<forall>i. idle_buf (bufs (binit_one b s) i)" if "\<forall>i. idle_buf (bufs s i)"
    unfolding binit_one_def Let_def by (intro idle_set_buf that) simp_all
  show "io_only s (binit_one b s)" "disk (binit_one b s) = disk s"
    by (simp_all add: binit_one_def Let_def io_only_iff del: set_buf_simps(1))
qed

lemma binit_frame:
  assumes "\<forall>i. idle_buf (bufs s i)" "\<not> bclock s"
  shows "(\<forall>i. idle_buf (bufs (binit s) i)) \<and> io_only s (binit s) \<and> disk (binit s) = disk s"
proof -
  let ?Q = "\<lambda>t. (\<forall>i. idle_buf (bufs t i)) \<and> io_only s t \<and> disk t = disk s"
  have e: "s\<lparr>bclock := False\<rparr> = s" using assms(2) by (rule bclock_back)
  have "?Q (set_buf NBUF (\<lambda>x. x\<lparr>prev := NBUF, bnext := NBUF\<rparr>) s)"
    using assms(1) by (simp add: io_only_iff)
  moreover have "?Q t \<Longrightarrow> ?Q (binit_one b t)" for b t
    using binit_one_frame [where s = t and b = b] io_only_trans by auto
  ultimately have "?Q (fold binit_one xs (set_buf NBUF (\<lambda>x. x\<lparr>prev := NBUF, bnext := NBUF\<rparr>) s))" for xs
    by (induction xs rule: rev_induct) auto
  then show ?thesis unfolding binit_def Let_def e by blast
qed

lemma fresh_ok:
  assumes "d \<noteq> 0" "\<And>n. length (D n) = BSIZE"
  shows "bio_ok me d {} {} (binit (fresh D))" "content d (binit (fresh D)) = D" "disk (binit (fresh D)) = D"
    "io_only (fresh D) (binit (fresh D))"
proof -
  have "(\<forall>i. idle_buf (bufs (binit (fresh D)) i)) \<and> io_only (fresh D) (binit (fresh D)) \<and> disk (binit (fresh D)) = disk (fresh D)"
    by (rule binit_frame) (simp_all add: fresh_def bss_buf_def idle_buf_def)
  then have *: "\<And>i. idle_buf (bufs (binit (fresh D)) i)" "io_only (fresh D) (binit (fresh D))" "disk (binit (fresh D)) = D"
    by (simp_all add: fresh_def)
  show "io_only (fresh D) (binit (fresh D))" "disk (binit (fresh D)) = D" using * by simp_all
  have "\<not> bclock (binit (fresh D))" using *(2) by (simp add: io_only_iff fresh_def)
  then show "bio_ok me d {} {} (binit (fresh D))"
    using binit_lru [of "fresh D"] * assms unfolding bio_ok_def slot_ok_def no_alias_def idle_buf_def by simp
  show "content d (binit (fresh D)) = D"
    using *(1,3) by (intro ext, subst content_uncached) (auto simp: cached_def idle_buf_def)
qed

lemma read_head_loop:
  assumes "k \<le> length (lhblock s)"
  shows "\<exists>l. for_each (read_head_entry h) [0..<k] s = Inr (s\<lparr>lhblock := l\<rparr>) \<and> length l = length (lhblock s) \<and>
    (\<forall>i < k. l ! i = get32 h (Suc i))"
  using assms
proof (induction k)
  case 0
  have "s\<lparr>lhblock := lhblock s\<rparr> = s" by (cases s) simp
  then show ?case by (metis for_each.simps(1) less_nat_zero_code upt_0)
next
  case (Suc k)
  then obtain l where l: "for_each (read_head_entry h) [0..<k] s = Inr (s\<lparr>lhblock := l\<rparr>)"
      "length l = length (lhblock s)" "\<forall>i < k. l ! i = get32 h (Suc i)" by auto
  have "read_head_entry h k (s\<lparr>lhblock := l\<rparr>) = Inr (s\<lparr>lhblock := l[k := get32 h (Suc k)]\<rparr>)"
    using l(2) Suc.prems by (simp add: read_head_entry_def)
  then show ?case
    using l Suc.prems by (intro exI [of _ "l[k := get32 h (Suc k)]"]) (auto simp: for_each_append nth_list_update less_Suc_eq)
qed

lemma read_head_ok:
  assumes ok: "bio_ok me d {} P s" "ldev s = d" "card P < NBUF"
  defines "h \<equiv> content d s (loghead s)"
  assumes P: "loghead s \<notin> (\<lambda>i. blockno (bufs s i)) ` P"
    and n: "nat (sint (get32 h 0)) \<le> length (lhblock s)"
  shows "\<exists>s' l. read_head me s = Inr s' \<and> bio_ok me d {} P s' \<and> content d s' = content d s \<and> disk s' = disk s \<and>
    dwrites s' = dwrites s \<and> io_only (s\<lparr>lhn := sint (get32 h 0), lhblock := l\<rparr>) s' \<and>
    length l = length (lhblock s) \<and> (\<forall>i < nat (sint (get32 h 0)). l ! i = get32 h (Suc i))"
proof -
  obtain b s1 where r1: "bread me d (loghead s) s = Inr (b, s1)" and p1: "read_post me d {} P (loghead s) s b s1"
    using bread_ok [OF ok(1), of "loghead s"] ok(3) by auto
  note 1 = read_postD [OF p1]
  note fr = log_frame [OF 1(10)]
  let ?m = "sint (get32 h 0)"
  obtain l where l: "for_each (read_head_entry h) [0..<nat ?m] (s1\<lparr>lhn := ?m\<rparr>) = Inr (s1\<lparr>lhn := ?m, lhblock := l\<rparr>)"
      "length l = length (lhblock s)" "\<forall>i < nat ?m. l ! i = get32 h (Suc i)"
    using read_head_loop [of "nat ?m" "s1\<lparr>lhn := ?m\<rparr>" h] n fr(2) by auto
  let ?t = "s1\<lparr>lhn := ?m, lhblock := l\<rparr>"
  have bok: "bio_ok me d {b} P ?t" using 1(2) by simp
  have "content d s (loghead s) = disk s (loghead s)" by (rule content_disk [OF ok(1)]) (use P in force)
  then have "data (bufs ?t b) = disk ?t (blockno (bufs ?t b))" using 1(3,4,7) by simp
  from brelse_ok [OF bok _ disjI2 [OF this]] obtain s' where s': "brelse me b ?t = Inr s'"
      "bio_ok me d ({b} - {b}) P s'" "keeps ?t s'" "s' = ?t\<lparr>bufs := bufs s', woken := woken s'\<rparr>" by auto
  have "read_head me s = Inr s'"
    using r1 ok(2) l(1) s'(1) 1(4) unfolding read_head_def h_def loghead_def by simp
  moreover have "content d s' = content d s" using keeps_content [OF s'(3)] 1(5) by simp
  moreover have "disk s' = disk s" "dwrites s' = dwrites s" by (subst s'(4), simp add: 1(7,8))+
  moreover have "io_only (s\<lparr>lhn := ?m, lhblock := l\<rparr>) s'"
  proof -
    have "?t = s\<lparr>lhn := ?m, lhblock := l\<rparr>\<lparr>bufs := bufs s1\<rparr>" by (subst 1(10)) (cases s, simp)
    then have "io_only (s\<lparr>lhn := ?m, lhblock := l\<rparr>) ?t" by (rule io_only_upd(1))
    with io_only_upd(4) [OF s'(4)] show ?thesis using io_only_trans by blast
  qed
  ultimately show ?thesis using s'(2) l(2,3) by auto
qed

definition sb_logarea :: "superblock \<Rightarrow> u32 set" where
  "sb_logarea sb = (\<lambda>k. of_int (sint (sb_logstart sb) + int k)) ` {..<nat (sint (sb_nlog sb))}"

definition sb_loghead :: "superblock \<Rightarrow> u32" where
  "sb_loghead sb = of_int (sint (sb_logstart sb))"

definition sb_logblk :: "superblock \<Rightarrow> nat \<Rightarrow> u32" where
  "sb_logblk sb t = of_int (sint (sb_logstart sb) + int t + 1)"

text \<open>What recovery does to a disk whose header names \<open>m\<close> blocks outside the log.\<close>

definition recover_writes :: "superblock \<Rightarrow> (u32 \<Rightarrow> u8 list) \<Rightarrow> (u32 \<times> u8 list) list" where
  "recover_writes sb D =
     map (\<lambda>t. (get32 (D (sb_loghead sb)) (Suc t), D (sb_logblk sb t))) [0..<nat (sint (get32 (D (sb_loghead sb)) 0))]"

lemma sint_add_small: "sint (a :: u32) + sint (b :: u32) \<le> 2 ^ 32"
  using sint_lt [of a] sint_lt [of b] by simp

lemma recover_ok:
  assumes D: "d \<noteq> 0" "\<And>n. length (D n) = BSIZE"
    and sb: "0 \<le> sint (sb_logstart sb)" "0 < sint (sb_nlog sb)"
  defines "h \<equiv> sb_loghead sb" and "m \<equiv> sint (get32 (D (sb_loghead sb)) 0)"
  assumes m: "0 \<le> m" "m \<le> int LOGSIZE" "m < sint (sb_nlog sb)"
    and out: "\<And>i. i < nat m \<Longrightarrow> get32 (D h) (Suc i) \<notin> sb_logarea sb"
  shows "\<exists>r. recover me d sb D = Inr r \<and> bio_ok me d {} {} r \<and> lhn r = 0 \<and>
    disk r = (apply_writes (recover_writes sb D) D)(h := header [] (D h))"
proof -
  let ?s0 = "(binit (fresh D))\<lparr>loglock := False, lstart := sint (sb_logstart sb), lsize := sint (sb_nlog sb), ldev := d\<rparr>"
  note fk = fresh_ok [OF D]
  note ff = io_only_frame [OF fk(4)]
  have hd0: "loghead ?s0 = h" by (simp add: loghead_def h_def sb_loghead_def)
  have c0: "content d ?s0 = D" using fk(2) by simp
  have b0: "bio_ok me d {} {} ?s0" using fk(1) by simp
  have l0: "length (lhblock ?s0) = LOGSIZE" using ff(2) by (simp add: fresh_def)
  obtain s1 l where s1: "read_head me ?s0 = Inr s1" "bio_ok me d {} {} s1" "content d s1 = D" "disk s1 = D"
      "io_only (?s0\<lparr>lhn := m, lhblock := l\<rparr>) s1" "length l = LOGSIZE" "\<forall>i < nat m. l ! i = get32 (D h) (Suc i)"
  proof -
    have pre: "ldev ?s0 = d" "card {} < NBUF" "loghead ?s0 \<notin> (\<lambda>i. blockno (bufs ?s0 i)) ` {}"
      "nat (sint (get32 (content d ?s0 (loghead ?s0)) 0)) \<le> length (lhblock ?s0)"
      using m(2) l0 unfolding hd0 c0 m_def h_def by (simp_all add: NBUF_def)
    from read_head_ok [OF b0 pre] show ?thesis
      unfolding hd0 c0 using that l0 fk(3) unfolding m_def h_def by auto
  qed
  note f1 = io_only_frame [OF s1(5)]
  have lg: "logged s1 = map (\<lambda>i. get32 (D h) (Suc i)) [0..<nat m]"
    using f1(2,4) s1(6,7) m(1,2) by (auto simp: logged_def intro!: nth_equalityI)
  have la: "logarea s1 = sb_logarea sb" "loghead s1 = h" "logblk s1 = sb_logblk sb"
    using f1(3,5) by (simp_all add: logarea_def sb_logarea_def loghead_def h_def sb_loghead_def logblk_def
        sb_logblk_def fun_eq_iff)
  have "set (logged s1) \<inter> logarea s1 = {}" unfolding lg la(1) using out by auto
  then have geo: "log_geo s1"
    unfolding log_geo_def using f1(2-5) s1(6) sb m sint_add_small by simp
  have n1: "nat (lhn s1) = nat m" using f1(4) by simp
  have eB: "map (\<lambda>t. (logged s1 ! t, content d s1 (logblk s1 t))) [0..<nat m] = recover_writes sb D"
    unfolding lg la(3) s1(3) recover_writes_def m_def h_def by auto
  have d1: "ldev s1 = d" using f1(1) by simp
  obtain s2 where s2: "install_trans me True s1 = Inr s2" "ran me d {} (recover_writes sb D) s1 s2"
    using install_ran [OF s1(2) d1 geo, of True "nat m"] n1
    unfolding install_trans_def eB [symmetric] by auto
  note f2 = ran_frame [OF s2(2)]
  have hB: "h \<notin> fst ` set (recover_writes sb D)"
  proof -
    have "h \<in> sb_logarea sb" using loghead_area [OF geo] la by simp
    moreover have "fst ` set (recover_writes sb D) \<inter> sb_logarea sb = {}"
      using out unfolding recover_writes_def m_def h_def by auto
    ultimately show ?thesis by blast
  qed
  have c2: "content d s2 h = D h" using ranD(3) [OF s2(2)] apply_writes_other [OF hB] s1(3) by simp
  have b2: "bio_ok me d {} {} (s2\<lparr>lhn := 0\<rparr>)" using ranD(1) [OF s2(2)] by simp
  have lg2: "logged (s2\<lparr>lhn := 0\<rparr>) = []" by (simp add: logged_def)
  have h2: "of_int (lstart (s2\<lparr>lhn := 0\<rparr>)) = h" using f2(3) la(2) by (simp add: loghead_def)
  have pre: "ldev (s2\<lparr>lhn := 0\<rparr>) = d" "card {} < NBUF" "0 \<le> lhn (s2\<lparr>lhn := 0\<rparr>)"
      "nat (lhn (s2\<lparr>lhn := 0\<rparr>)) \<le> length (lhblock (s2\<lparr>lhn := 0\<rparr>))" "length (lhblock (s2\<lparr>lhn := 0\<rparr>)) = LOGSIZE"
    using f2(1,2) d1 f1(2) s1(6) by (simp_all add: NBUF_def)
  obtain r where r: "write_head me (s2\<lparr>lhn := 0\<rparr>) = Inr r" "ran me d {} [(h, header [] (D h))] (s2\<lparr>lhn := 0\<rparr>) r"
    using write_head_ok [OF b2 pre] c2 unfolding lg2 h2 by auto
  have "recover me d sb D = Inr r"
    using s1(1) s2(1) r(1) by (simp add: recover_def initlog_def recover_from_log_def BSIZE_def LOGSIZE_def)
  moreover have "lhn r = 0" using ran_frame(4) [OF r(2)] by simp
  ultimately show ?thesis
    using ranD(1,2) [OF r(2)] ranD(2) [OF s2(2)] s1(4) by simp
qed

section \<open>Crashes\<close>

lemma apply_writes_length:
  assumes "\<And>x. length (f x) = B" "\<forall>w \<in> set ws. length (snd w) = B"
  shows "length (apply_writes ws f x) = B"
  using assms
proof (induction ws arbitrary: f)
  case (Cons w ws)
  obtain n v where w: "w = (n, v)" by (cases w)
  have "length (apply_writes ws (f(n := v)) x) = B"
    by (rule Cons.IH) (use Cons.prems w in auto)
  with w show ?case by simp
qed simp

lemma commit_writes_length:
  assumes "txn_ok me d {} P s" "(n, v) \<in> set (commit_writes d s)"
  shows "length v = BSIZE"
proof -
  note D = txn_okD [OF assms(1)]
  have h: "length (header (logged s) (disk s (loghead s))) = BSIZE"
  proof (rule header_facts(1) [OF bio_okD(7) [OF D(1)]])
    show "length (logged s) \<le> LOGSIZE" using log_geo_len [OF D(3)] D(3) by (auto simp: log_geo_def)
  qed
  then have "length (header [] (header (logged s) (disk s (loghead s)))) = BSIZE"
    by (rule header_facts(1)) (simp add: LOGSIZE_def)
  with h assms(2) length_content [OF D(1)] show ?thesis
    by (auto simp: commit_writes_def Let_def split: if_splits)
qed

lemma header_nil: "length bs = BSIZE \<Longrightarrow> get32 (header [] bs) 0 = 0"
  using header_facts(2) [of bs "[]"] by (simp add: LOGSIZE_def)

lemma sint_count: "n \<le> LOGSIZE \<Longrightarrow> sint (of_nat n :: u32) = int n"
  by (simp add: sint_uint LOGSIZE_def unsigned_of_nat take_bit_nat_eq_self signed_take_bit_int_eq_self)

text \<open>
  The state of the disk after the first \<open>k\<close> writes of a commit, as far as recovery sees it: the
  count in the header, and the blocks outside the log.
\<close>

lemma commit_prefix:
  fixes k :: nat
  assumes t: "txn_ok me d {} P s"
  defines "Dk \<equiv> apply_writes (take k (commit_writes d s)) (disk s)" and "n \<equiv> nat (lhn s)"
  shows "k \<le> n \<Longrightarrow> get32 (Dk (loghead s)) 0 = 0 \<and> (\<forall>x. x \<notin> logarea s \<longrightarrow> Dk x = disk s x)"
    and "n < k \<Longrightarrow>
      get32 (Dk (loghead s)) 0 = 0 \<and> (\<forall>x. x \<notin> logarea s \<longrightarrow> Dk x = content d s x) \<or>
      Dk (loghead s) = header (logged s) (disk s (loghead s)) \<and>
      (\<forall>i < n. Dk (logblk s i) = content d s (logged s ! i)) \<and>
      (\<forall>x. x \<notin> logarea s \<longrightarrow> x \<notin> set (logged s) \<longrightarrow> Dk x = content d s x)"
proof -
  note D = txn_okD [OF t]
  let ?c = "content d s" and ?h = "loghead s"
  let ?hdr = "header (logged s) (disk s ?h)"
  let ?A = "map (\<lambda>t. (logblk s t, ?c (logged s ! t))) [0..<n]"
  let ?B = "map (\<lambda>t. (logged s ! t, ?c (logged s ! t))) [0..<n]"
  have len: "length (logged s) = n" unfolding n_def by (rule log_geo_len [OF D(3)])
  have A: "fst ` set ?A \<subseteq> logarea s - {?h}"
    using logblk_facts(1,2) [OF D(3)] unfolding n_def by auto
  have B: "fst ` set (take j ?B) \<subseteq> set (logged s)" for j
    using len by (auto dest!: in_set_takeD)
  have hl: "?h \<in> logarea s" "set (logged s) \<inter> logarea s = {}"
    using loghead_area [OF D(3)] D(3) by (auto simp: log_geo_def)
  have same: "?c x = disk s x" if "x \<notin> set (logged s)" for x
    by (rule content_disk [OF D(1)]) (use that D(7) in auto)
  have ws: "commit_writes d s = (if n = 0 then [] else ?A @ [(?h, ?hdr)] @ ?B @ [(?h, header [] ?hdr)])"
    by (simp add: commit_writes_def Let_def n_def)
  show "get32 (Dk ?h) 0 = 0 \<and> (\<forall>x. x \<notin> logarea s \<longrightarrow> Dk x = disk s x)" if "k \<le> n"
  proof -
    have tk: "take k (commit_writes d s) = take k ?A" using that by (simp add: ws)
    have "fst ` set (take k ?A) \<subseteq> logarea s - {?h}"
      using A by (meson image_mono order_trans set_take_subset)
    then have "Dk x = disk s x" if "x = ?h \<or> x \<notin> logarea s" for x
      unfolding Dk_def tk using that by (intro apply_writes_other) auto
    then show ?thesis using D(9) by auto
  qed
  have Bx: "apply_writes ?B f x = (if x \<in> set (logged s) then ?c x else f x)" for f x
  proof -
    have "set (logged s) = (\<lambda>t. logged s ! t) ` set [0..<n]" using len by (auto simp: in_set_conv_nth)
    then show ?thesis
      using apply_writes_map [of "[0..<n]" "\<lambda>t. logged s ! t" x "\<lambda>t. ?c (logged s ! t)" "?c x" f] by auto
  qed
  have Ax: "apply_writes ?A (disk s) x = disk s x" if "x = ?h \<or> x \<notin> logarea s" for x
    using A that by (intro apply_writes_other) auto
  assume kn: "n < k"
  show "get32 (Dk ?h) 0 = 0 \<and> (\<forall>x. x \<notin> logarea s \<longrightarrow> Dk x = content d s x) \<or>
      Dk ?h = ?hdr \<and> (\<forall>i < n. Dk (logblk s i) = content d s (logged s ! i)) \<and>
      (\<forall>x. x \<notin> logarea s \<longrightarrow> x \<notin> set (logged s) \<longrightarrow> Dk x = content d s x)"
  proof (cases "n = 0")
    case True
    then have "Dk = disk s" "logged s = []" using len by (simp_all add: Dk_def ws)
    with D(9) same show ?thesis by auto
  next
    case n0: False
    show ?thesis
    proof (cases "k \<le> 2 * n + 1")
      case True
      define j where "j = k - n - 1"
      have k: "k = n + Suc j" "j \<le> n" using kn True by (simp_all add: j_def)
      have tk: "take k (commit_writes d s) = ?A @ [(?h, ?hdr)] @ take j ?B"
        using n0 k(2) by (simp add: ws k(1))
      have keep: "Dk x = ((apply_writes ?A (disk s))(?h := ?hdr)) x" if "x \<notin> set (logged s)" for x
      proof -
        have "x \<notin> fst ` set (take j ?B)" using B [of j] that by blast
        from apply_writes_other [OF this] show ?thesis unfolding Dk_def tk by simp
      qed
      have "Dk ?h = ?hdr" using keep [of ?h] hl by auto
      moreover have "Dk (logblk s i) = ?c (logged s ! i)" if i: "i < n" for i
      proof -
        have "logblk s i \<in> logarea s" "logblk s i \<noteq> ?h" using logblk_facts [OF D(3)] i unfolding n_def by auto
        then have "Dk (logblk s i) = apply_writes ?A (disk s) (logblk s i)" using keep [of "logblk s i"] hl by auto
        then show ?thesis
          using apply_writes_at [OF logblk_inj [OF D(3)], of i "\<lambda>t. ?c (logged s ! t)" "disk s"] i by (simp add: n_def)
      qed
      moreover have "Dk x = ?c x" if "x \<notin> logarea s" "x \<notin> set (logged s)" for x
        using keep [OF that(2)] Ax [of x] same [OF that(2)] that hl by auto
      ultimately show ?thesis by blast
    next
      case False
      then have tk: "take k (commit_writes d s) = ?A @ [(?h, ?hdr)] @ ?B @ [(?h, header [] ?hdr)]"
        using n0 by (simp add: ws)
      have "length ?hdr = BSIZE"
        using commit_writes_length [OF t, of ?h ?hdr] n0 by (simp add: ws)
      then have "get32 (Dk ?h) 0 = 0" unfolding Dk_def tk by (simp add: header_nil)
      moreover have "Dk x = ?c x" if "x \<notin> logarea s" for x
        unfolding Dk_def tk using that hl(1) Bx Ax [of x] same [of x] by (auto simp: Bx)
      ultimately show ?thesis by blast
    qed
  qed
qed

lemma apply_writes_same: "\<forall>w \<in> set ws. fst w = x \<longrightarrow> snd w = f x \<Longrightarrow> apply_writes ws f x = f x"
proof (induction ws arbitrary: f)
  case (Cons w ws)
  obtain n v where w: "w = (n, v)" by (cases w)
  have fx: "(f(n := v)) x = f x" using Cons.prems w by auto
  have "apply_writes ws (f(n := v)) x = (f(n := v)) x"
    by (rule Cons.IH) (unfold fx, use Cons.prems in simp)
  then show ?case unfolding w by (simp only: apply_writes_simps fx)
qed simp

lemma commit_installs:
  assumes t: "txn_ok me d {} P s" and c: "commit me s = Inr s'" and x: "x \<notin> logarea s"
  shows "disk s' x = content d s x" "content d s' x = content d s x"
proof -
  obtain s1 where s1: "commit me s = Inr s1" "bio_ok me d {} {} s1"
      "content d s1 = apply_writes (commit_writes d s) (content d s)"
    using commit_ran [OF t] by blast
  have e: "s' = s1" using c s1(1) by simp
  have lb: "logblk s t \<in> logarea s" if "t < nat (lhn s)" for t
    using logblk_facts(1) [OF txn_okD(3) [OF t] that] .
  have "content d s1 x = content d s x"
    unfolding s1(3) using x loghead_area [OF txn_okD(3) [OF t]] lb
    by (intro apply_writes_same) (auto simp: commit_writes_def Let_def split: if_splits)
  moreover have "content d s1 x = disk s1 x" by (rule content_disk [OF s1(2)]) simp
  ultimately show "disk s' x = content d s x" "content d s' x = content d s x" using e by auto
qed

lemma recover_prefix:
  fixes k :: nat
  assumes t: "txn_ok me d {} P s" and d: "d \<noteq> 0"
    and sb: "sint (sb_logstart sb) = lstart s" "sint (sb_nlog sb) = lsize s"
  defines "Dk \<equiv> apply_writes (take k (commit_writes d s)) (disk s)"
  shows "\<exists>r. recover me' d sb Dk = Inr r \<and>
    (\<forall>x. x \<notin> logarea s \<longrightarrow> disk r x = (if k \<le> nat (lhn s) then disk s x else content d s x))"
proof -
  note D = txn_okD [OF t]
  let ?n = "nat (lhn s)" and ?h = "loghead s" and ?c = "content d s"
  have g: "0 \<le> sint (sb_logstart sb)" "0 < sint (sb_nlog sb)" "?n \<le> LOGSIZE" "int ?n < sint (sb_nlog sb)"
    using D(3) sb by (auto simp: log_geo_def)
  have e: "sb_loghead sb = ?h" "sb_logarea sb = logarea s" "sb_logblk sb = logblk s"
    using sb by (simp_all add: sb_loghead_def sb_logarea_def sb_logblk_def loghead_def logarea_def logblk_def fun_eq_iff)
  have len: "length (Dk x) = BSIZE" for x
    unfolding Dk_def
    by (rule apply_writes_length [OF bio_okD(7) [OF D(1)]])
      (use commit_writes_length [OF t] in \<open>auto dest!: in_set_takeD\<close>)
  have old: ?thesis if z: "get32 (Dk ?h) 0 = 0"
    and v: "\<forall>x. x \<notin> logarea s \<longrightarrow> Dk x = (if k \<le> ?n then disk s x else ?c x)"
  proof -
    have m: "sint (get32 (Dk (sb_loghead sb)) 0) = 0" using z e by simp
    then obtain r where "recover me' d sb Dk = Inr r"
        "disk r = (apply_writes (recover_writes sb Dk) Dk)(?h := header [] (Dk ?h))"
      using recover_ok [where D = Dk and me = me', OF d len g(1,2)] g e by auto
    moreover have "recover_writes sb Dk = []" using m by (simp add: recover_writes_def)
    moreover have "x \<noteq> ?h" if "x \<notin> logarea s" for x using loghead_area [OF D(3)] that by auto
    ultimately show ?thesis using v by auto
  qed
  have new: ?thesis if hd: "Dk ?h = header (logged s) (disk s ?h)" and kn: "?n < k"
    and lg: "\<forall>i < ?n. Dk (logblk s i) = ?c (logged s ! i)"
    and v: "\<forall>x. x \<notin> logarea s \<longrightarrow> x \<notin> set (logged s) \<longrightarrow> Dk x = ?c x"
  proof -
    have ll: "length (logged s) = ?n" by (rule log_geo_len [OF D(3)])
    have ln: "length (logged s) \<le> LOGSIZE" using ll g(3) by simp
    have hl: "length (disk s ?h) = BSIZE" by (rule bio_okD(7) [OF D(1)])
    note hf = header_facts [OF hl ln]
    have p0: "0 \<le> lhn s" "lhn s \<le> int LOGSIZE" using D(3) by (simp_all add: log_geo_def)
    have m: "sint (get32 (Dk (sb_loghead sb)) 0) = lhn s"
      using hf(2) hd e ll sint_count [OF g(3)] p0 by simp
    have bl: "get32 (Dk ?h) (Suc i) = logged s ! i" if "i < ?n" for i using hf(3) hd ll that by simp
    have "get32 (Dk (sb_loghead sb)) (Suc i) \<notin> sb_logarea sb" if "i < ?n" for i
    proof -
      have "logged s ! i \<in> set (logged s)" using ll that by simp
      then have "logged s ! i \<notin> logarea s" using D(3) unfolding log_geo_def by blast
      then show ?thesis using bl [OF that] e by simp
    qed
    then obtain r where r: "recover me' d sb Dk = Inr r"
        "disk r = (apply_writes (recover_writes sb Dk) Dk)(?h := header [] (Dk ?h))"
      using recover_ok [where D = Dk and me = me', OF d len g(1,2)] g m e p0 by auto
    have rw: "recover_writes sb Dk = map (\<lambda>i. (logged s ! i, ?c (logged s ! i))) [0..<?n]"
      unfolding recover_writes_def m using e bl lg by simp
    have "disk r x = ?c x" if x: "x \<notin> logarea s" for x
    proof -
      have "x \<noteq> ?h" using loghead_area [OF D(3)] x by auto
      moreover have "apply_writes (recover_writes sb Dk) Dk x = ?c x"
      proof (cases "x \<in> set (logged s)")
        case True
        then have "x \<in> (\<lambda>i. logged s ! i) ` set [0..<?n]" using ll by (auto simp: in_set_conv_nth)
        then show ?thesis
          unfolding rw using apply_writes_map [of "[0..<?n]" "\<lambda>i. logged s ! i" x "\<lambda>i. ?c (logged s ! i)" "?c x" Dk] by auto
      next
        case False
        moreover have "fst ` set (recover_writes sb Dk) \<subseteq> set (logged s)" unfolding rw using ll by auto
        ultimately have "x \<notin> fst ` set (recover_writes sb Dk)" by blast
        from apply_writes_other [OF this] v x False show ?thesis by simp
      qed
      ultimately show ?thesis using r(2) by simp
    qed
    with r(1) kn show ?thesis by auto
  qed
  show ?thesis
  proof (cases "k \<le> ?n")
    case True
    with commit_prefix(1) [OF t this] old show ?thesis unfolding Dk_def by simp
  next
    case False
    with commit_prefix(2) [OF t, of k] old new show ?thesis unfolding Dk_def by auto
  qed
qed

section \<open>Recording a block\<close>

lemma find_idx_eq: "find_idx (\<lambda>y. y = x) xs = Some i \<Longrightarrow> i < length xs \<and> xs ! i = x"
  using find_idx_Some [of "\<lambda>y. y = x" xs i] by auto

text \<open>
  \<open>log_write\<close> of a held buffer records its block once: a block that is logged already is
  absorbed, another is appended and its buffer pinned.
\<close>

lemma log_write_ok:
  assumes t: "txn_ok me d H P s" and i: "i \<in> H" and room: "lhn s < lsize s - 1" and o: "1 \<le> outstanding s"
  defines "b \<equiv> blockno (bufs s i)"
  shows "\<exists>s'. log_write i s = Inr s' \<and> txn_ok me d H (insert i P) s' \<and> content d s' = content d s \<and>
    logged s' = (if b \<in> set (logged s) then logged s else logged s @ [b]) \<and> keeps s s' \<and>
    outstanding s' = outstanding s \<and> lsize s' = lsize s \<and> lstart s' = lstart s \<and>
    committing s' = committing s \<and> dwrites s' = dwrites s"
proof -
  note D = txn_okD [OF t]
  let ?n = "nat (lhn s)"
  have g: "?n < length (lhblock s)" "0 \<le> lhn s" "lhn s < int LOGSIZE" "length (lhblock s) = LOGSIZE"
    using D(3,4) room by (auto simp: log_geo_def)
  have ba: "b \<notin> logarea s" using D(8) [OF i] by (simp add: b_def)
  have ll: "s\<lparr>loglock := False\<rparr> = s" using D(5) by (cases s) simp
  show ?thesis
  proof (cases "b \<in> set (logged s)")
    case True
    then obtain k where k: "find_idx (\<lambda>x. x = b) (logged s) = Some k"
      using find_idx_ex [of b "logged s" "\<lambda>x. x = b"] by auto
    from find_idx_eq [OF this] have kk: "k < ?n" "lhblock s ! k = b" using g(1) by (auto simp: logged_def)
    then have up: "(lhblock s)[k := b] = lhblock s" by (metis list_update_id)
    have lb: "s\<lparr>loglock := True, lhblock := lhblock s, loglock := False\<rparr> = s" using D(5) by (cases s) simp
    have "log_write i s = Inr s"
      using k kk g room o D(5) up lb
      by (simp add: log_write_def acquire_log_def release_log_def logged_def b_def [symmetric] Let_def)
    moreover have "i \<in> P"
    proof -
      obtain j where "j \<in> P" "blockno (bufs s j) = b" using True D(7) by (metis (no_types, lifting) imageE)
      moreover have "i < NBUF" "dev (bufs s i) = d" using slot_other [OF D(1), of i] i by auto
      ultimately show ?thesis using pinned_unique [OF D(1), of i j] by (simp add: b_def)
    qed
    ultimately show ?thesis using t True by (auto simp: insert_absorb keeps_def)
  next
    case False
    then have k: "find_idx (\<lambda>x. x = b) (logged s) = None" by (auto simp: find_idx_None)
    have iP: "i \<notin> P" using False D(7) by (auto simp: b_def)
    let ?t = "s\<lparr>loglock := True, lhblock := (lhblock s)[?n := b]\<rparr>"
    have bt: "bio_ok me d H P ?t" using D(1) by simp
    obtain u where u: "bpin i ?t = Inr u" "bio_ok me d H (insert i P) u" "content d u = content d ?t"
        "u = ?t\<lparr>bufs := (bufs ?t)(i := (bufs ?t i)\<lparr>refcnt := refcnt (bufs ?t i) + 1\<rparr>)\<rparr>"
      using bpin_ok [OF bt i iP] by blast
    let ?v = "u\<lparr>lhn := lhn s + 1, loglock := False\<rparr>"
    have fu: "lhblock u = (lhblock s)[?n := b]" "lhn u = lhn s" "lsize u = lsize s" "lstart u = lstart s" "ldev u = ldev s"
      "loglock u" "outstanding u = outstanding s" "disk u = disk s" "committing u = committing s" "dwrites u = dwrites s"
      unfolding u(4) by simp_all
    have as: "aset (lhblock s) (lhn s) b = Inr ((lhblock s)[?n := b])"
      using g by (simp add: aset_def in_range_def)
    have run: "log_write i s = Inr ?v"
      using as k g room o D(5) u(1) fu
      by (simp add: log_write_def acquire_log_def release_log_def logged_def b_def [symmetric] Let_def)
    have nn: "nat (lhn s + 1) = Suc ?n" using g(2) by simp
    have lgv: "logged ?v = logged s @ [b]"
      using g(1) by (simp add: logged_def fu nn take_Suc_conv_app_nth)
    have kp: "keeps s ?v" unfolding u(4) by (simp add: keeps_def)
    have ar: "logarea ?v = logarea s" "loghead ?v = loghead s" by (simp_all add: logarea_def loghead_def fu)
    have bn: "blockno (bufs ?v j) = blockno (bufs s j)" for j using kp by (simp add: keeps_def)
    have geo: "log_geo ?v"
      using D(3) room D(4) ba unfolding log_geo_def lgv ar by (auto simp: fu)
    have "(\<lambda>j. blockno (bufs ?v j)) ` insert i P = set (logged ?v)"
      unfolding lgv using D(7) bn by (simp add: b_def)
    then have "txn_ok me d H (insert i P) ?v"
      using D geo u(2) False bn unfolding txn_ok_def ar lgv by (simp add: fu)
    moreover have "content d ?v = content d s" using u(3) by simp
    ultimately show ?thesis using run lgv kp False fu by simp
  qed
qed

section \<open>Inside a transaction\<close>

lemma io_only_txn:
  assumes "txn_ok me d H P s" "io_only s s'" "bio_ok me d H' P s'" "disk s' = disk s"
    and "\<And>i. i \<in> P \<Longrightarrow> blockno (bufs s' i) = blockno (bufs s i)"
    and "\<And>i. i \<in> H' \<Longrightarrow> blockno (bufs s' i) \<notin> logarea s"
  shows "txn_ok me d H' P s'"
proof -
  note f = io_only_frame [OF assms(2)]
  have "logged s' = logged s" "logarea s' = logarea s" "loghead s' = loghead s" "log_geo s' = log_geo s"
    using f by (simp_all add: logged_def logarea_def loghead_def log_geo_def)
  moreover have "(\<lambda>i. blockno (bufs s' i)) ` P = (\<lambda>i. blockno (bufs s i)) ` P"
    using assms(5) by auto
  ultimately show ?thesis using txn_okD [OF assms(1)] assms(3,4,6) f unfolding txn_ok_def by auto
qed

lemma bread_txn:
  assumes t: "txn_ok me d H P s" and n: "n \<notin> logarea s" "\<And>i. i \<in> H \<Longrightarrow> blockno (bufs s i) \<noteq> n"
    and room: "card (H \<union> P) < NBUF"
  shows "\<exists>i s'. bread me d n s = Inr (i, s') \<and> read_post me d H P n s i s' \<and> txn_ok me d (insert i H) P s'"
proof -
  obtain i s' where r: "bread me d n s = Inr (i, s')" "read_post me d H P n s i s'"
    using bread_ok [OF txn_okD(1) [OF t] n(2)] room by blast
  note p = read_postD [OF r(2)]
  have "txn_ok me d (insert i H) P s'"
    by (rule io_only_txn [OF t io_only_upd(1) [OF p(10)] p(2) p(7)])
      (use p(3,9) n(1) txn_okD(8) [OF t] in auto)
  with r show ?thesis by blast
qed

lemma set_data_txn:
  assumes t: "txn_ok me d H P s" and "i \<in> H" "length v = BSIZE"
  defines "s' \<equiv> set_buf i (\<lambda>x. x\<lparr>data := v\<rparr>) s"
  shows "txn_ok me d H P s'" "content d s' = (content d s)(blockno (bufs s i) := v)"
proof -
  note sd = set_data_ok [OF txn_okD(1) [OF t] assms(2,3)]
  show "content d s' = (content d s)(blockno (bufs s i) := v)" unfolding s'_def by (rule sd(2))
  show "txn_ok me d H P s'"
    unfolding s'_def
    by (rule io_only_txn [OF t _ sd(1)]) (use txn_okD(8) [OF t] in \<open>auto simp: set_buf_def intro: io_only_upd(1)\<close>)
qed

lemma brelse_txn:
  assumes t: "txn_ok me d H P s" and "i \<in> H" "i \<in> P \<or> data (bufs s i) = disk s (blockno (bufs s i))"
  shows "\<exists>s'. brelse me i s = Inr s' \<and> txn_ok me d (H - {i}) P s' \<and> keeps s s' \<and> content d s' = content d s \<and>
    io_only s s' \<and> dwrites s' = dwrites s"
proof -
  obtain s' where s': "brelse me i s = Inr s'" "bio_ok me d (H - {i}) P s'" "keeps s s'"
      "s' = s\<lparr>bufs := bufs s', woken := woken s'\<rparr>"
    using brelse_ok [OF txn_okD(1) [OF t] assms(2,3)] by blast
  have io: "io_only s s'" using io_only_upd(4) [OF s'(4)] .
  have "txn_ok me d (H - {i}) P s'"
    by (rule io_only_txn [OF t io s'(2)]) (use s'(3) txn_okD(8) [OF t] in \<open>auto simp: keeps_def\<close>)
  moreover have "dwrites s' = dwrites s" by (subst s'(4)) simp
  ultimately show ?thesis using s' io keeps_content [OF s'(3)] by blast
qed

text \<open>
  The idiom of the file system: read a block, change its data, \<open>log_write\<close>, release. It changes the
  content of this block and of no other.
\<close>

definition update_block :: "int \<Rightarrow> u32 \<Rightarrow> u32 \<Rightarrow> (u8 list \<Rightarrow> u8 list) \<Rightarrow> 'a logst_scheme \<Rightarrow> 'a logst_scheme res" where
  "update_block me d n f s =
     rbind (bread me d n s) (\<lambda>(b, s).
     let s = set_buf b (\<lambda>x. x\<lparr>data := f (data x)\<rparr>) s in
     rbind (log_write b s) (\<lambda>s. brelse me b s))"

lemma update_block_ok:
  assumes t: "txn_ok me d H P s" and n: "n \<notin> logarea s" "\<And>i. i \<in> H \<Longrightarrow> blockno (bufs s i) \<noteq> n"
    and room: "card (H \<union> P) < NBUF" "lhn s < lsize s - 1" and o: "1 \<le> outstanding s"
    and f: "\<And>bs. length bs = BSIZE \<Longrightarrow> length (f bs) = BSIZE"
  shows "\<exists>s' P'. update_block me d n f s = Inr s' \<and> txn_ok me d H P' s' \<and>
    content d s' = (content d s)(n := f (content d s n)) \<and>
    logged s' = (if n \<in> set (logged s) then logged s else logged s @ [n]) \<and>
    outstanding s' = outstanding s \<and> lsize s' = lsize s \<and> lstart s' = lstart s \<and> disk s' = disk s \<and>
    committing s' = committing s \<and> dwrites s' = dwrites s"
proof -
  obtain b s1 where r1: "bread me d n s = Inr (b, s1)" and p1: "read_post me d H P n s b s1"
      and t1: "txn_ok me d (insert b H) P s1"
    using bread_txn [OF t n room(1)] by blast
  note 1 = read_postD [OF p1]
  let ?v = "f (content d s n)"
  let ?s2 = "set_buf b (\<lambda>x. x\<lparr>data := ?v\<rparr>) s1"
  have v: "length ?v = BSIZE" using f length_content [OF txn_okD(1) [OF t]] by blast
  note sd = set_data_txn [OF t1 insertI1 v]
  have fr: "lhn ?s2 = lhn s" "lsize ?s2 = lsize s" "outstanding ?s2 = outstanding s" "logged ?s2 = logged s"
    "lstart ?s2 = lstart s" "committing ?s2 = committing s" "dwrites ?s2 = dwrites s"
    using 1(8) io_only_frame [OF io_only_upd(1) [OF 1(10)]] by (simp_all add: set_buf_def logged_def)
  have bb: "blockno (bufs ?s2 b) = n" using 1(3) by simp
  obtain s3 where s3: "log_write b ?s2 = Inr s3" "txn_ok me d (insert b H) (insert b P) s3" "content d s3 = content d ?s2"
      "logged s3 = (if n \<in> set (logged s) then logged s else logged s @ [n])" "keeps ?s2 s3"
      "outstanding s3 = outstanding s" "lsize s3 = lsize s" "lstart s3 = lstart s" "committing s3 = committing s"
      "dwrites s3 = dwrites s"
    using log_write_ok [OF sd(1) insertI1] room(2) o fr bb by auto
  obtain s4 where s4: "brelse me b s3 = Inr s4" "txn_ok me d (insert b H - {b}) (insert b P) s4" "content d s4 = content d s3"
      "io_only s3 s4" "keeps s3 s4" "dwrites s4 = dwrites s3"
    using brelse_txn [OF s3(2) insertI1] by blast
  note f4 = io_only_frame [OF s4(4)]
  have H: "insert b H - {b} = H" using 1(1) by auto
  have dat: "set_buf b (\<lambda>x. x\<lparr>data := f (data x)\<rparr>) s1 = ?s2" using 1(4) by (simp add: set_buf_def)
  have "update_block me d n f s = Inr s4"
    using r1 s3(1) s4(1) by (simp add: update_block_def dat)
  moreover have "content d s4 = (content d s)(n := ?v)" using s4(3) s3(3) sd(2) 1(3,5) by simp
  moreover have "logged s4 = logged s3" using f4 by (simp add: logged_def)
  moreover have "disk s4 = disk s" using s4(5) s3(5) 1(7) by (simp add: keeps_def)
  ultimately show ?thesis using s4(2,6) s3 f4 H by (intro exI [of _ s4] exI [of _ "insert b P"]) simp
qed

end
