(* ===== verification/Logging.thy ===== *)
theory Logging
  imports Crash
begin

text \<open>
  The contract of the log towards the file system: a locale for a store of blocks that are
  updated inside a transaction, interpreted by \<open>update_block\<close> on the log, and the atomicity of
  \<open>begin_op\<close>, updates, \<open>end_op\<close> under crashes.
\<close>

section \<open>A transactional block store\<close>

definition absorb :: "u32 \<Rightarrow> u32 list \<Rightarrow> u32 list" where
  "absorb n ns = (if n \<in> set ns then ns else ns @ [n])"

definition applied :: "(u32 \<times> (u8 list \<Rightarrow> u8 list)) list \<Rightarrow> (u32 \<Rightarrow> u8 list) \<Rightarrow> u32 \<Rightarrow> u8 list" where
  "applied us c = fold (\<lambda>(n, f) c. c(n := f (c n))) us c"

locale block_store =
  fixes ok :: "'s \<Rightarrow> bool"
    and cont :: "'s \<Rightarrow> u32 \<Rightarrow> u8 list"
    and upd :: "u32 \<Rightarrow> (u8 list \<Rightarrow> u8 list) \<Rightarrow> 's \<Rightarrow> 's res"
    and used :: "'s \<Rightarrow> u32 list"
    and cap :: "'s \<Rightarrow> nat"
    and legal :: "'s \<Rightarrow> u32 set"
    and base :: "'s \<Rightarrow> 'b"
  assumes upd_ok: "ok s \<Longrightarrow> n \<in> legal s \<Longrightarrow> length (used s) < cap s \<Longrightarrow>
      (\<And>bs. length bs = BSIZE \<Longrightarrow> length (f bs) = BSIZE) \<Longrightarrow>
      \<exists>s'. upd n f s = Inr s' \<and> ok s' \<and> cont s' = (cont s)(n := f (cont s n)) \<and>
        used s' = absorb n (used s) \<and> cap s' = cap s \<and> legal s' = legal s \<and> base s' = base s"
begin

lemma upds_ok:
  assumes "ok s" "\<And>n f. (n, f) \<in> set us \<Longrightarrow> n \<in> legal s"
    "\<And>n f bs. (n, f) \<in> set us \<Longrightarrow> length bs = BSIZE \<Longrightarrow> length (f bs) = BSIZE"
    "length (used s) + length us \<le> cap s"
  shows "\<exists>s'. for_each (\<lambda>(n, f). upd n f) us s = Inr s' \<and> ok s' \<and> cont s' = applied us (cont s) \<and>
    set (used s') = set (used s) \<union> fst ` set us \<and> legal s' = legal s \<and> base s' = base s"
  using assms
proof (induction us arbitrary: s)
  case Nil
  then show ?case by (simp add: applied_def)
next
  case (Cons u us)
  obtain n f where u: "u = (n, f)" by (cases u)
  obtain s1 where s1: "upd n f s = Inr s1" "ok s1" "cont s1 = (cont s)(n := f (cont s n))"
      "used s1 = absorb n (used s)" "cap s1 = cap s" "legal s1 = legal s" "base s1 = base s"
    using upd_ok [OF Cons.prems(1), of n f] Cons.prems(2-4) u by fastforce
  have "length (used s1) + length us \<le> cap s1" using Cons.prems(4) s1(4,5) by (simp add: absorb_def)
  then obtain s' where s': "for_each (\<lambda>(n, f). upd n f) us s1 = Inr s'" "ok s'" "cont s' = applied us (cont s1)"
      "set (used s') = set (used s1) \<union> fst ` set us" "legal s' = legal s1" "base s' = base s1"
    using Cons.IH [OF s1(2)] Cons.prems(2,3) s1(6) by (metis list.set_intros(2))
  show ?case
  proof (intro exI [of _ s'] conjI)
    show "for_each (\<lambda>(n, f). upd n f) (u # us) s = Inr s'" using s1(1) s'(1) u by simp
    show "cont s' = applied (u # us) (cont s)" using s1(3) s'(3) u by (simp add: applied_def)
    show "set (used s') = set (used s) \<union> fst ` set (u # us)" using s'(4) s1(4) u by (auto simp: absorb_def)
  qed (use s' s1 in simp_all)
qed

end

definition in_txn :: "int \<Rightarrow> u32 \<Rightarrow> 'a logst_scheme \<Rightarrow> bool" where
  "in_txn me d s \<longleftrightarrow> (\<exists>P. txn_ok me d {} P s) \<and> 1 \<le> outstanding s"

interpretation ls: block_store "in_txn me d" "content d" "update_block me d" logged "\<lambda>s. nat (lsize s - 1)"
  "\<lambda>s. - logarea s" "\<lambda>s. (disk s, outstanding s, lstart s, lsize s, committing s, dwrites s)"
proof
  fix s :: "'a logst_scheme" and n and f :: "u8 list \<Rightarrow> u8 list"
  assume a: "in_txn me d s" "n \<in> - logarea s" "length (logged s) < nat (lsize s - 1)"
    "\<And>bs. length bs = BSIZE \<Longrightarrow> length (f bs) = BSIZE"
  then obtain P where t: "txn_ok me d {} P s" and o: "1 \<le> outstanding s" by (auto simp: in_txn_def)
  have room: "card ({} \<union> P) < NBUF" "lhn s < lsize s - 1"
    using txn_card(2) [OF t] a(3) log_geo_len [OF txn_okD(3) [OF t]] by simp_all
  obtain s' P' where s': "update_block me d n f s = Inr s'" "txn_ok me d {} P' s'"
      "content d s' = (content d s)(n := f (content d s n))"
      "logged s' = (if n \<in> set (logged s) then logged s else logged s @ [n])"
      "outstanding s' = outstanding s" "lsize s' = lsize s" "lstart s' = lstart s" "disk s' = disk s"
      "committing s' = committing s" "dwrites s' = dwrites s"
    using update_block_ok [where n = n and f = f, OF t _ _ room o a(4)] a(2) by auto
  then show "\<exists>s'. update_block me d n f s = Inr s' \<and> in_txn me d s' \<and> content d s' = (content d s)(n := f (content d s n)) \<and>
      logged s' = absorb n (logged s) \<and> nat (lsize s' - 1) = nat (lsize s - 1) \<and> - logarea s' = - logarea s \<and>
      (disk s', outstanding s', lstart s', lsize s', committing s', dwrites s') =
      (disk s, outstanding s, lstart s, lsize s, committing s, dwrites s)"
    using o by (intro exI [of _ s']) (auto simp: in_txn_def absorb_def logarea_def)
qed

section \<open>Begin and end of an operation\<close>

lemma txn_ok_fields [simp]:
  "txn_ok me d H P (s\<lparr>outstanding := i\<rparr>) = txn_ok me d H P s"
  "txn_ok me d H P (s\<lparr>committing := b\<rparr>) = txn_ok me d H P s"
  "txn_ok me d H P (s\<lparr>woken := w\<rparr>) = txn_ok me d H P s"
  by (simp_all add: txn_ok_def log_geo_def logged_def logarea_def loghead_def)

lemma commit_writes_fields [simp]:
  "commit_writes d (s\<lparr>outstanding := i\<rparr>) = commit_writes d s"
  "commit_writes d (s\<lparr>committing := b\<rparr>) = commit_writes d s"
  by (simp_all add: commit_writes_def logged_def loghead_def logblk_def Let_def)

lemma loglock_back: "\<not> loglock s \<Longrightarrow> s\<lparr>loglock := False\<rparr> = s"
  by (cases s) simp

lemma begin_op_admit:
  assumes "\<not> loglock s" "\<not> committing s" "lhn s + (outstanding s + 1) * int MAXOPBLOCKS \<le> int LOGSIZE"
  shows "begin_op s = Inr (s\<lparr>outstanding := outstanding s + 1\<rparr>)"
  using assms by (simp add: begin_op_def acquire_log_def release_log_def loglock_back)

lemma commit_clears_head:
  assumes "txn_ok me d {} P s"
  shows "get32 (apply_writes (commit_writes d s) (disk s) (loghead s)) 0 = 0"
proof (cases "nat (lhn s) = 0")
  case True
  then show ?thesis using txn_okD(9) [OF assms] by (simp add: commit_writes_def)
next
  case False
  let ?hdr = "header (logged s) (disk s (loghead s))"
  have "(loghead s, ?hdr) \<in> set (commit_writes d s)" using False by (simp add: commit_writes_def Let_def)
  from commit_writes_length [OF assms this] False show ?thesis
    by (simp add: commit_writes_def Let_def header_nil)
qed

lemma commit_txn:
  assumes t: "txn_ok me d {} P s" and c: "commit me s = Inr s'"
  shows "txn_ok me d {} {} s'" "dwrites s' = dwrites s @ commit_writes d s"
    "disk s' = apply_writes (commit_writes d s) (disk s)" "outstanding s' = outstanding s"
    "committing s' = committing s" "lstart s' = lstart s" "lsize s' = lsize s"
proof -
  note D = txn_okD [OF t]
  obtain s1 where s1: "commit me s = Inr s1" "bio_ok me d {} {} s1" "lhn s1 = 0"
      "disk s1 = apply_writes (commit_writes d s) (disk s)" "dwrites s1 = dwrites s @ commit_writes d s"
      "io_only (s\<lparr>lhn := 0\<rparr>) s1"
    using commit_ran [OF t] by blast
  have e: "s' = s1" using c s1(1) by simp
  note f = io_only_frame [OF s1(6)]
  have "loghead s1 = loghead s" "logged s1 = []" "logarea s1 = logarea s"
    using f s1(3) by (simp_all add: loghead_def logged_def logarea_def)
  moreover have "log_geo s1" using D(3) f calculation(2) unfolding log_geo_def by simp
  ultimately show "txn_ok me d {} {} s'"
    using D s1 f commit_clears_head [OF t] unfolding txn_ok_def e by simp
  show "dwrites s' = dwrites s @ commit_writes d s" "disk s' = apply_writes (commit_writes d s) (disk s)"
    "outstanding s' = outstanding s" "committing s' = committing s" "lstart s' = lstart s" "lsize s' = lsize s"
    using s1 f e by simp_all
qed

lemma end_op_last:
  assumes t: "txn_ok me d {} P s" and o: "outstanding s = 1" "\<not> committing s"
  shows "\<exists>s'. end_op me s = Inr s' \<and> txn_ok me d {} {} s' \<and> outstanding s' = 0 \<and> \<not> committing s' \<and>
    dwrites s' = dwrites s @ commit_writes d s \<and> disk s' = apply_writes (commit_writes d s) (disk s) \<and>
    LogChan \<in> set (woken s') \<and> lstart s' = lstart s \<and> lsize s' = lsize s"
proof -
  let ?t = "s\<lparr>outstanding := 0, committing := True\<rparr>"
  have tt: "txn_ok me d {} P ?t" using t by simp
  obtain u where u: "commit me ?t = Inr u" using commit_ran [OF tt] by blast
  note c = commit_txn [OF tt u]
  have nl: "\<not> loglock s" "\<not> loglock u" using txn_okD(5) [OF t] txn_okD(5) [OF c(1)] by simp_all
  have e: "s\<lparr>loglock := True, outstanding := 0, committing := True, loglock := False\<rparr> = ?t"
    using nl(1) by (cases s) simp
  have "end_op me s = Inr (u\<lparr>committing := False, woken := woken u @ [LogChan]\<rparr>)"
    using nl o u e
    by (simp add: end_op_def acquire_log_def release_log_def wakeup_log_def Let_def loglock_back)
  with c show ?thesis by simp
qed

section \<open>Atomicity of a transaction\<close>

text \<open>A file-system operation: \<open>begin_op\<close>, updates of blocks, \<open>end_op\<close>.\<close>

definition run_txn :: "int \<Rightarrow> u32 \<Rightarrow> (u32 \<times> (u8 list \<Rightarrow> u8 list)) list \<Rightarrow> 'a logst_scheme \<Rightarrow> 'a logst_scheme res" where
  "run_txn me d us s =
     rbind (begin_op s) (\<lambda>s.
     rbind (for_each (\<lambda>(n, f). update_block me d n f) us s) (\<lambda>s.
     end_op me s))"

definition idle_log :: "int \<Rightarrow> u32 \<Rightarrow> 'a logst_scheme \<Rightarrow> bool" where
  "idle_log me d s \<longleftrightarrow> txn_ok me d {} {} s \<and> outstanding s = 0 \<and> \<not> committing s"

definition legal_updates :: "'a logst_scheme \<Rightarrow> (u32 \<times> (u8 list \<Rightarrow> u8 list)) list \<Rightarrow> bool" where
  "legal_updates s us \<longleftrightarrow> int (length us) < lsize s \<and>
     (\<forall>(n, f) \<in> set us. n \<notin> logarea s \<and> (\<forall>bs. length bs = BSIZE \<longrightarrow> length (f bs) = BSIZE))"

lemma idle_content: "txn_ok me d {} {} s \<Longrightarrow> content d s = disk s"
  using content_disk [OF txn_okD(1)] by fastforce

lemma idle_lhn: "txn_ok me d {} {} s \<Longrightarrow> lhn s = 0"
  using txn_card(1) [of me d "{}" "{}" s] txn_okD(3) [of me d "{}" "{}" s] by (simp add: log_geo_def)

lemma begin_op_idle:
  assumes "idle_log me d s"
  shows "begin_op s = Inr (s\<lparr>outstanding := 1\<rparr>)"
proof -
  have "txn_ok me d {} {} s" using assms by (simp add: idle_log_def)
  with assms show ?thesis
    using begin_op_admit [of s] idle_lhn [of me d s] txn_okD(5) [of me d "{}" "{}" s]
    by (simp add: idle_log_def MAXOPBLOCKS_def LOGSIZE_def)
qed

lemma run_txn_steps:
  assumes i: "idle_log me d s" and us: "legal_updates s us"
  obtains s1 P s2 where "for_each (\<lambda>(n, f). update_block me d n f) us (s\<lparr>outstanding := 1\<rparr>) = Inr s1"
    "txn_ok me d {} P s1" "content d s1 = applied us (disk s)" "disk s1 = disk s" "logarea s1 = logarea s"
    "lstart s1 = lstart s" "lsize s1 = lsize s" "run_txn me d us s = Inr s2" "end_op me s1 = Inr s2"
    "dwrites s2 = dwrites s @ commit_writes d s1" "disk s2 = apply_writes (commit_writes d s1) (disk s)" "idle_log me d s2"
    "logarea s2 = logarea s" "set (logged s1) = fst ` set us"
proof -
  have t0: "txn_ok me d {} {} (s\<lparr>outstanding := 1\<rparr>)" "\<not> committing s" using i by (simp_all add: idle_log_def)
  have la: "logarea (s\<lparr>outstanding := 1\<rparr>) = logarea s" by (simp add: logarea_def)
  have lg: "logged (s\<lparr>outstanding := 1\<rparr>) = []" using idle_lhn [OF t0(1)] by (simp add: logged_def)
  have c0: "content d (s\<lparr>outstanding := 1\<rparr>) = disk s" using idle_content [OF t0(1)] by simp
  have len: "length us \<le> nat (lsize s - 1)" using us by (auto simp: legal_updates_def)
  obtain s1 where s1: "for_each (\<lambda>(n, f). update_block me d n f) us (s\<lparr>outstanding := 1\<rparr>) = Inr s1" "in_txn me d s1"
      "content d s1 = applied us (disk s)" "logarea s1 = logarea s"
      "disk s1 = disk s" "outstanding s1 = 1" "lstart s1 = lstart s" "lsize s1 = lsize s" "\<not> committing s1"
      "dwrites s1 = dwrites s" "set (logged s1) = fst ` set us"
  proof -
    let ?t = "s\<lparr>outstanding := 1\<rparr>"
    have "in_txn me d ?t" using t0(1) unfolding in_txn_def by (intro conjI exI [of _ "{}"]) simp_all
    moreover have "n \<in> - logarea ?t" if "(n, f) \<in> set us" for n f
      using us that unfolding la legal_updates_def by auto
    moreover have "length (f bs) = BSIZE" if "(n, f) \<in> set us" "length bs = BSIZE" for n f bs
      using us that unfolding legal_updates_def by auto
    moreover have "length (logged ?t) + length us \<le> nat (lsize ?t - 1)" using len unfolding lg by simp
    ultimately obtain s1 where "for_each (\<lambda>(n, f). update_block me d n f) us ?t = Inr s1" "in_txn me d s1"
        "content d s1 = applied us (content d ?t)" "set (logged s1) = set (logged ?t) \<union> fst ` set us" "- logarea s1 = - logarea ?t"
        "(disk s1, outstanding s1, lstart s1, lsize s1, committing s1, dwrites s1) =
         (disk ?t, outstanding ?t, lstart ?t, lsize ?t, committing ?t, dwrites ?t)"
      using ls.upds_ok [of me d ?t us] by blast
    then show ?thesis using that [of s1] t0(2) c0 la lg by simp
  qed
  obtain P where P: "txn_ok me d {} P s1" using s1(2) by (auto simp: in_txn_def)
  obtain s2 where s2: "end_op me s1 = Inr s2" "txn_ok me d {} {} s2" "outstanding s2 = 0" "\<not> committing s2"
      "dwrites s2 = dwrites s1 @ commit_writes d s1" "disk s2 = apply_writes (commit_writes d s1) (disk s1)"
      "LogChan \<in> set (woken s2)" "lstart s2 = lstart s1" "lsize s2 = lsize s1"
    using end_op_last [OF P s1(6,9)] by (elim exE conjE) (rule that)
  have "run_txn me d us s = Inr s2"
    using begin_op_idle [OF i] s1(1) s2(1) by (simp add: run_txn_def)
  with s1 s2 P show ?thesis
    by (intro that [of s1 P s2]) (simp_all add: idle_log_def logarea_def)
qed

lemma zero_block: "get32 (replicate BSIZE 0) 0 = 0"
proof -
  have "slice (4 * 0) 4 (replicate BSIZE (0 :: u8)) = [0, 0, 0, 0]"
    by (simp add: slice_def BSIZE_def take_replicate numeral_eq_Suc)
  then show ?thesis by (simp add: get32_def de32_def)
qed

definition sample_sb :: superblock where
  "sample_sb = \<lparr>sb_magic = 0x10203040, sb_size = 1000, sb_nblocks = 954, sb_ninodes = 200, sb_nlog = 30,
     sb_logstart = 2, sb_inodestart = 32, sb_bmapstart = 45\<rparr>"

definition sample_log :: logst where
  "sample_log = (binit (fresh (\<lambda>_. replicate BSIZE 0)))\<lparr>lstart := 2, lsize := 30, ldev := 1\<rparr>"

lemma sample_idle: "idle_log 1 1 sample_log"
proof -
  have b: "bio_ok 1 1 {} {} sample_log"
    unfolding sample_log_def using fresh_ok(1) [of 1 "\<lambda>_. replicate BSIZE 0" 1] by simp
  have d: "disk sample_log = (\<lambda>_. replicate BSIZE 0)"
    unfolding sample_log_def using fresh_ok(3) [of 1 "\<lambda>_. replicate BSIZE 0"] by simp
  have io: "io_only (fresh (\<lambda>_. replicate BSIZE 0)) (binit (fresh (\<lambda>_. replicate BSIZE 0)))"
    by (rule fresh_ok(4) [of 1]) simp_all
  note f = io_only_frame [OF io]
  have "log_geo sample_log" "logged sample_log = []"
    using f by (simp_all add: log_geo_def logged_def sample_log_def fresh_def LOGSIZE_def)
  then show ?thesis
    unfolding idle_log_def txn_ok_def using b d f zero_block
    by (simp add: sample_log_def fresh_def LOGSIZE_def)
qed

lemma sample_area: "logarea sample_log = (\<lambda>k. of_int (2 + int k)) ` {..<30}" "lsize sample_log = 30" "lstart sample_log = 2"
  by (simp_all add: logarea_def sample_log_def)

lemma sample_block: "100 \<notin> logarea sample_log"
proof
  assume "100 \<in> logarea sample_log"
  then obtain k where k: "k < 30" "(100 :: u32) = of_int (2 + int k)" by (auto simp: sample_area)
  then have "(of_int 100 :: u32) = of_int (2 + int k)" by simp
  from of_int_u32_inj [OF _ _ _ _ this] k(1) show False by simp
qed

text \<open>
  C1: A file-system operation is atomic. From an idle log, \<open>begin_op\<close>, updates of fewer blocks than the log has
  room for and \<open>end_op\<close> return; the disk then holds exactly the updates. A crash
  after any number \<open>k\<close> of the disk writes that this takes, followed by recovery at boot, leaves the blocks outside
  the log as they were if \<open>k\<close> is at most \<open>c\<close>, and otherwise as after the whole operation; the
  writes pass the commit point \<open>c\<close> before \<open>end_op\<close> returns.
\<close>
theorem transaction_atomic:
  assumes "idle_log me d s" "legal_updates s us" "d \<noteq> 0"
    "sint (sb_logstart sb) = lstart s" "sint (sb_nlog sb) = lsize s"
  shows "\<exists>s' ws c. run_txn me d us s = Inr s' \<and> idle_log me d s' \<and> dwrites s' = dwrites s @ ws \<and>
    (\<forall>x. x \<notin> logarea s \<longrightarrow> disk s' x = applied us (disk s) x) \<and> (us = [] \<or> c < length ws) \<and>
    (\<forall>k. \<exists>r. recover boot d sb (apply_writes (take k ws) (disk s)) = Inr r \<and>
      (\<forall>x. x \<notin> logarea s \<longrightarrow> disk r x = (if k \<le> c then disk s x else applied us (disk s) x)))"
proof -
  obtain s1 P s2 where t: "for_each (\<lambda>(n, f). update_block me d n f) us (s\<lparr>outstanding := 1\<rparr>) = Inr s1"
      "txn_ok me d {} P s1" "content d s1 = applied us (disk s)" "disk s1 = disk s" "logarea s1 = logarea s"
      "lstart s1 = lstart s" "lsize s1 = lsize s" "run_txn me d us s = Inr s2" "end_op me s1 = Inr s2"
      "dwrites s2 = dwrites s @ commit_writes d s1" "disk s2 = apply_writes (commit_writes d s1) (disk s)" "idle_log me d s2"
      "logarea s2 = logarea s" "set (logged s1) = fst ` set us"
    by (rule run_txn_steps [OF assms(1,2)])
  obtain u where u: "commit me s1 = Inr u" using commit_ran [OF t(2)] by blast
  have "disk s2 x = applied us (disk s) x" if "x \<notin> logarea s" for x
    using commit_installs(1) [OF t(2) u, of x] commit_txn(3) [OF t(2) u] t(3-5,11) that by simp
  moreover have "us = [] \<or> nat (lhn s1) < length (commit_writes d s1)"
  proof (cases "nat (lhn s1) = 0")
    case True
    then show ?thesis using t(14) by (simp add: logged_def)
  qed (simp add: commit_writes_def Let_def)
  moreover have "\<exists>r. recover boot d sb (apply_writes (take k (commit_writes d s1)) (disk s)) = Inr r \<and>
      (\<forall>x. x \<notin> logarea s \<longrightarrow> disk r x = (if k \<le> nat (lhn s1) then disk s x else applied us (disk s) x))" for k
    using recover_prefix [OF t(2) assms(3), of sb boot k] assms(4,5) unfolding t(3-7) by blast
  ultimately show ?thesis using t(8,10,12) by blast
qed

theorem transaction_atomic_witness:
  "\<exists>s' ws c. run_txn 1 1 [(100, \<lambda>bs. put32 0 7 bs)] sample_log = Inr s' \<and> c < length ws \<and>
     dwrites s' = dwrites sample_log @ ws \<and> disk s' 100 = put32 0 7 (disk sample_log 100) \<and>
     (\<exists>r. recover 0 1 sample_sb (apply_writes (take (Suc c) ws) (disk sample_log)) = Inr r \<and>
       disk r 100 = put32 0 7 (disk sample_log 100))"
proof -
  have "legal_updates sample_log [(100, \<lambda>bs. put32 0 7 bs)]"
    using sample_block by (simp add: legal_updates_def sample_area(2) BSIZE_def)
  moreover have "sint (sb_logstart sample_sb) = lstart sample_log" "sint (sb_nlog sample_sb) = lsize sample_log"
    by (simp_all add: sample_sb_def sample_area)
  ultimately obtain s' ws c where w: "run_txn 1 1 [(100, \<lambda>bs. put32 0 7 bs)] sample_log = Inr s'"
      "dwrites s' = dwrites sample_log @ ws" "c < length ws"
      "\<forall>x. x \<notin> logarea sample_log \<longrightarrow> disk s' x = applied [(100, \<lambda>bs. put32 0 7 bs)] (disk sample_log) x"
      "\<forall>k. \<exists>r. recover 0 1 sample_sb (apply_writes (take k ws) (disk sample_log)) = Inr r \<and>
        (\<forall>x. x \<notin> logarea sample_log \<longrightarrow> disk r x = (if k \<le> c then disk sample_log x
          else applied [(100, \<lambda>bs. put32 0 7 bs)] (disk sample_log) x))"
    using transaction_atomic [OF sample_idle, of "[(100, \<lambda>bs. put32 0 7 bs)]" sample_sb 0] by auto
  have a: "applied [(100, \<lambda>bs. put32 0 7 bs)] (disk sample_log) 100 = put32 0 7 (disk sample_log 100)"
    by (simp add: applied_def)
  obtain r where "recover 0 1 sample_sb (apply_writes (take (Suc c) ws) (disk sample_log)) = Inr r"
      "disk r 100 = put32 0 7 (disk sample_log 100)"
    using w(5) sample_block a by (metis Suc_n_not_le_n)
  with w(1-4) sample_block a show ?thesis by metis
qed

section \<open>The reservation of log space\<close>

text \<open>
  C13: The reservation of \<open>begin_op\<close> is one block too large for a log of \<open>LOGSIZE\<close> blocks, of which
  the header takes one. Three operations are admitted together, each for MAXOPBLOCKS
  blocks; when they have logged 29 different blocks, the thirtieth, which the reservation
  covers, makes \<open>log_write\<close> panic.
\<close>
theorem reservation_exceeds_log:
  assumes "idle_log me d s" "lsize s = int LOGSIZE" "distinct ns" "length ns = 3 * MAXOPBLOCKS" "set ns \<inter> logarea s = {}"
  shows "for_each (\<lambda>_. begin_op) [0..<3] s = Inr (s\<lparr>outstanding := 3\<rparr>) \<and>
    (\<exists>s'. for_each (\<lambda>(n, f). update_block me d n f) (map (\<lambda>n. (n, id)) (take 29 ns)) (s\<lparr>outstanding := 3\<rparr>) = Inr s' \<and>
      update_block me d (ns ! 29) id s' = Inl (Panic ''too big a transaction''))"
proof (rule conjI)
  let ?t = "s\<lparr>outstanding := 3\<rparr>" and ?us = "map (\<lambda>n. (n, id :: u8 list \<Rightarrow> u8 list)) (take 29 ns)"
  have i: "txn_ok me d {} {} s" "outstanding s = 0" "\<not> committing s" using assms(1) by (simp_all add: idle_log_def)
  note lock = txn_okD(5) [OF i(1)] and n0 = idle_lhn [OF i(1)]
  have b: "begin_op (s\<lparr>outstanding := k\<rparr>) = Inr (s\<lparr>outstanding := k + 1\<rparr>)" if "0 \<le> k" "k < 3" for k
    using begin_op_admit [of "s\<lparr>outstanding := k\<rparr>"] lock i(3) n0 that by (simp add: MAXOPBLOCKS_def LOGSIZE_def)
  have "s\<lparr>outstanding := 0\<rparr> = s" using i(2) by (cases s) simp
  with b [of 0] b [of 1] b [of 2] show "for_each (\<lambda>_. begin_op) [0..<3] s = Inr ?t"
    by (simp add: numeral_eq_Suc upt_conv_Cons)
  have t: "in_txn me d ?t" using i(1) unfolding in_txn_def by (intro conjI exI [of _ "{}"]) simp_all
  have area: "logarea ?t = logarea s" "logged ?t = []" using n0 by (simp_all add: logarea_def logged_def)
  have ns: "length ns = 30" using assms(4) by (simp add: MAXOPBLOCKS_def)
  have mem: "n \<in> - logarea ?t \<and> f = id" if "(n, f) \<in> set ?us" for n f
    using that assms(5) area by (auto dest: in_set_takeD)
  have room: "length (logged ?t) + length ?us \<le> nat (lsize ?t - 1)"
    using area(2) assms(2) ns by (simp add: LOGSIZE_def)
  obtain s' where s': "for_each (\<lambda>(n, f). update_block me d n f) ?us ?t = Inr s'" "in_txn me d s'"
      "set (logged s') = set (logged ?t) \<union> fst ` set ?us" "- logarea s' = - logarea ?t"
      "(disk s', outstanding s', lstart s', lsize s', committing s', dwrites s') =
       (disk ?t, outstanding ?t, lstart ?t, lsize ?t, committing ?t, dwrites ?t)"
  proof -
    have "n \<in> - logarea ?t" if "(n, f) \<in> set ?us" for n f using mem [OF that] by blast
    moreover have "length (f bs) = BSIZE" if "(n, f) \<in> set ?us" "length bs = BSIZE" for n f bs
      using mem [OF that(1)] that(2) by simp
    ultimately show ?thesis using ls.upds_ok [OF t _ _ room] that by blast
  qed
  obtain P where P: "txn_ok me d {} P s'" using s'(2) by (auto simp: in_txn_def)
  have "set (logged s') = set (take 29 ns)" using s'(3) area(2) by (force simp: image_iff)
  then have "length (logged s') = 29"
    using distinct_card [OF txn_okD(6) [OF P]] distinct_card [OF distinct_take [OF assms(3)], of 29] ns by simp
  then have n: "lhn s' = 29" using log_geo_len [OF txn_okD(3) [OF P]] by simp
  have "ns ! 29 \<in> set ns" using ns by simp
  then have free: "ns ! 29 \<notin> logarea s'" using s'(4) area(1) assms(5) by blast
  obtain i s1 where r: "bread me d (ns ! 29) s' = Inr (i, s1)" "read_post me d {} P (ns ! 29) s' i s1"
      and t1: "txn_ok me d {i} P s1"
    using bread_txn [OF P free] txn_card(2) [OF P] by auto
  note f = io_only_frame [OF io_only_upd(1) [OF read_postD(10) [OF r(2)]]]
  have "lhn s1 = 29" "lsize s1 = 30" "\<not> loglock s1"
    using f n s'(5) assms(2) txn_okD(5) [OF t1] by (simp_all add: LOGSIZE_def)
  then have "update_block me d (ns ! 29) id s' = Inl (Panic ''too big a transaction'')"
    using r(1) by (simp add: update_block_def log_write_def acquire_log_def set_buf_def)
  with s'(1) show "\<exists>s'. for_each (\<lambda>(n, f). update_block me d n f) ?us ?t = Inr s' \<and>
      update_block me d (ns ! 29) id s' = Inl (Panic ''too big a transaction'')" by blast
qed

lemma sample_blocks: "set (map (\<lambda>k. of_nat (100 + k)) [0..<30]) \<inter> logarea sample_log = {}"
  "distinct (map (\<lambda>k. of_nat (100 + k) :: u32) [0..<30])"
proof -
  have "x = y" if "x < 1000" "y < 1000" "(of_nat x :: u32) = of_nat y" for x y :: nat
    using that of_int_u32_inj [of "int x" "int y"] by simp
  note inj = this
  show "distinct (map (\<lambda>k. of_nat (100 + k) :: u32) [0..<30])"
    unfolding distinct_map by (intro conjI inj_onI) (use inj in fastforce)+
  have "(of_nat (100 + j) :: u32) \<noteq> of_int (2 + int k)" if "j < 30" "k < 30" for j k
  proof
    assume "(of_nat (100 + j) :: u32) = of_int (2 + int k)"
    then have "(of_nat (100 + j) :: u32) = of_nat (2 + k)" by simp
    from inj [OF _ _ this] that show False by simp
  qed
  then show "set (map (\<lambda>k. of_nat (100 + k)) [0..<30]) \<inter> logarea sample_log = {}"
    by (auto simp: sample_area)
qed

theorem reservation_exceeds_log_witness:
  "\<exists>s'. for_each (\<lambda>(n, f). update_block 1 1 n f) (map (\<lambda>n. (n, id)) (take 29 (map (\<lambda>k. of_nat (100 + k)) [0..<30])))
      (sample_log\<lparr>outstanding := 3\<rparr>) = Inr s' \<and>
    update_block 1 1 (map (\<lambda>k. of_nat (100 + k)) [0..<30] ! 29) id s' = Inl (Panic ''too big a transaction'')"
  using reservation_exceeds_log [OF sample_idle _ sample_blocks(2) _ sample_blocks(1)]
  by (simp only: sample_area LOGSIZE_def MAXOPBLOCKS_def length_map length_upt)

text \<open>
  C12: \<open>bread\<close> is coherent: a process that holds the buffers \<open>H\<close> and reads another block, while fewer than
  \<open>NBUF\<close> buffers are in use, gets a buffer of its own with the latest data of that block, and
  no block changes its content.
\<close>
theorem bread_coherent:
  assumes "bio_ok me d H P s" "\<forall>i \<in> H. blockno (bufs s i) \<noteq> n" "card (H \<union> P) < NBUF"
  shows "\<exists>i s'. bread me d n s = Inr (i, s') \<and> i \<notin> H \<and> bio_ok me d (insert i H) P s' \<and>
    blockno (bufs s' i) = n \<and> data (bufs s' i) = content d s n \<and> content d s' = content d s \<and> disk s' = disk s"
proof -
  obtain i s' where r: "bread me d n s = Inr (i, s')" "read_post me d H P n s i s'"
    using bread_ok [OF assms(1), of n] assms(2,3) by blast
  from read_postD [OF r(2)] r(1) show ?thesis by blast
qed

theorem bread_coherent_witness:
  "\<exists>i s'. bread 1 1 100 sample_log = Inr (i, s') \<and> bio_ok 1 1 {i} {} s' \<and> data (bufs s' i) = content 1 sample_log 100"
  using bread_coherent [of 1 1 "{}" "{}" sample_log 100] sample_idle
  by (auto simp: idle_log_def txn_ok_def NBUF_def)

end
