(* ===== verification/Fs.thy ===== *)
theory Fs
  imports Crash Sched
begin

text \<open>
  kernel/fs.c: blocks, inodes, directories and path names, on top of the log. The state adds
  to the log the super block, the inode table, the memory that data is copied to and from
  (\<open>umem\<close>) and the process that runs (\<open>cur\<close>, the value of \<open>*myproc()\<close>).

  A pointer into \<open>itable\<close> is an index below \<open>NINODE\<close>; \<open>NINODE\<close> itself is the null pointer. A
  name is the byte string that a \<open>char\<close> array holds, without the terminating zero.

  Data that the kernel copies to one of its own local variables is returned as a byte list;
  data that it copies from one is given as a byte list (\<open>Local\<close>).
\<close>

section \<open>Constants and layout\<close>

definition NINODE :: nat where "NINODE = 50"
definition ROOTDEV :: u32 where "ROOTDEV = 1"
definition ROOTINO :: u32 where "ROOTINO = 1"
definition NDIRECT :: nat where "NDIRECT = 12"
definition NINDIRECT :: nat where "NINDIRECT = BSIZE div 4"
definition MAXFILE :: nat where "MAXFILE = NDIRECT + NINDIRECT"
definition DIRSIZ :: nat where "DIRSIZ = 14"
definition FSMAGIC :: u32 where "FSMAGIC = 0x10203040"
definition BPB :: nat where "BPB = BSIZE * 8"
definition IPB :: nat where "IPB = BSIZE div 64"
definition T_DIR :: u16 where "T_DIR = 1"
definition T_FILE :: u16 where "T_FILE = 2"
definition T_DEVICE :: u16 where "T_DEVICE = 3"

record dinode =
  d_type :: u16
  d_major :: u16
  d_minor :: u16
  d_nlink :: u16
  d_size :: u32
  d_addrs :: "u32 list"

record inode =
  idev :: u32
  inum :: u32
  iref :: int
  ilk :: sleeplock
  ivalid :: bool
  itype :: u16
  imajor :: u16
  iminor :: u16
  nlink :: u16
  isize :: u32
  addrs :: "u32 list"

record dirent =
  de_inum :: u16
  de_name :: "u8 list"

record stat =
  st_dev :: u32
  st_ino :: u32
  st_type :: u16
  st_nlink :: u16
  st_size :: u64

record fsst = logst +
  sb :: superblock
  itlock :: bool
  inodes :: "nat \<Rightarrow> inode"
  umem :: kmem
  cur :: proc

abbreviation me :: "'a fsst_scheme \<Rightarrow> int" where
  "me s \<equiv> pid (cur s)"

definition set_inode :: "nat \<Rightarrow> (inode \<Rightarrow> inode) \<Rightarrow> 'a fsst_scheme \<Rightarrow> 'a fsst_scheme" where
  "set_inode i f s = s\<lparr>inodes := (inodes s)(i := f (inodes s i))\<rparr>"

definition acquire_it :: "'a fsst_scheme \<Rightarrow> 'a fsst_scheme res" where
  "acquire_it s = rbind (spin_acquire (itlock s)) (\<lambda>h. Inr (s\<lparr>itlock := h\<rparr>))"

definition release_it :: "'a fsst_scheme \<Rightarrow> 'a fsst_scheme res" where
  "release_it s = rbind (spin_release (itlock s)) (\<lambda>h. Inr (s\<lparr>itlock := h\<rparr>))"

definition IBLOCK :: "nat \<Rightarrow> 'a fsst_scheme \<Rightarrow> u32" where
  "IBLOCK i s = of_nat (i div IPB) + sb_inodestart (sb s)"

definition BBLOCK :: "nat \<Rightarrow> 'a fsst_scheme \<Rightarrow> u32" where
  "BBLOCK b s = of_nat (b div BPB) + sb_bmapstart (sb s)"

text \<open>\<open>(struct dinode*)bp->data + k\<close>: an on-disk inode is 64 bytes.\<close>

definition get_dinode :: "nat \<Rightarrow> u8 list \<Rightarrow> dinode" where
  "get_dinode k bs =
     \<lparr>d_type = de16 (slice (64 * k) 2 bs), d_major = de16 (slice (64 * k + 2) 2 bs),
      d_minor = de16 (slice (64 * k + 4) 2 bs), d_nlink = de16 (slice (64 * k + 6) 2 bs),
      d_size = get32 bs (16 * k + 2), d_addrs = map (\<lambda>i. get32 bs (16 * k + 3 + i)) [0..<Suc NDIRECT]\<rparr>"

definition dinode_bytes :: "dinode \<Rightarrow> u8 list" where
  "dinode_bytes d =
     le16 (d_type d) @ le16 (d_major d) @ le16 (d_minor d) @ le16 (d_nlink d) @ le32 (d_size d) @
     concat (map le32 (d_addrs d))"

definition put_dinode :: "nat \<Rightarrow> dinode \<Rightarrow> u8 list \<Rightarrow> u8 list" where
  "put_dinode k d bs = splice (64 * k) (dinode_bytes d) bs"

definition dirent_bytes :: "dirent \<Rightarrow> u8 list" where
  "dirent_bytes e = le16 (de_inum e) @ de_name e"

definition get_dirent :: "u8 list \<Rightarrow> dirent" where
  "get_dirent bs = \<lparr>de_inum = de16 (take 2 bs), de_name = take DIRSIZ (drop 2 bs)\<rparr>"

definition get_superblock :: "u8 list \<Rightarrow> superblock" where
  "get_superblock bs =
     \<lparr>sb_magic = get32 bs 0, sb_size = get32 bs 1, sb_nblocks = get32 bs 2, sb_ninodes = get32 bs 3,
      sb_nlog = get32 bs 4, sb_logstart = get32 bs 5, sb_inodestart = get32 bs 6, sb_bmapstart = get32 bs 7\<rparr>"

text \<open>\<open>memset\<close> or assignment through \<open>bp->data\<close>.\<close>

definition upd_data :: "nat \<Rightarrow> (u8 list \<Rightarrow> u8 list) \<Rightarrow> 'a bcache_scheme \<Rightarrow> 'a bcache_scheme" where
  "upd_data b f s = set_buf b (\<lambda>x. x\<lparr>data := f (data x)\<rparr>) s"

section \<open>Super block\<close>

definition readsb :: "u32 \<Rightarrow> 'a fsst_scheme \<Rightarrow> (superblock \<times> 'a fsst_scheme) res" where
  "readsb d s =
     rbind (bread (me s) d 1 s) (\<lambda>(bp, s).
     let b = get_superblock (data (bufs s bp)) in
     rbind (brelse (me s) bp s) (\<lambda>s. Inr (b, s)))"

definition fsinit :: "u32 \<Rightarrow> 'a fsst_scheme \<Rightarrow> 'a fsst_scheme res" where
  "fsinit d s =
     rbind (readsb d s) (\<lambda>(b, s).
     let s = s\<lparr>sb := b\<rparr> in
     if sb_magic b \<noteq> FSMAGIC then Inl (Panic ''invalid file system'')
     else initlog (me s) d b s)"

section \<open>Blocks\<close>

definition bzero :: "u32 \<Rightarrow> u32 \<Rightarrow> 'a fsst_scheme \<Rightarrow> 'a fsst_scheme res" where
  "bzero d bno s =
     rbind (bread (me s) d bno s) (\<lambda>(bp, s).
     let s = upd_data bp (\<lambda>_. replicate BSIZE 0) s in
     rbind (log_write bp s) (\<lambda>s.
     brelse (me s) bp s))"

text \<open>\<open>data[bi/8] & m\<close>, \<open>data[bi/8] |= m\<close> and \<open>data[bi/8] &= ~m\<close> with \<open>m = 1 << (bi % 8)\<close>.\<close>

definition bit_used :: "u8 list \<Rightarrow> nat \<Rightarrow> bool" where
  "bit_used bs bi \<longleftrightarrow> bs ! (bi div 8) AND push_bit (bi mod 8) 1 \<noteq> 0"

definition mark_used :: "nat \<Rightarrow> u8 list \<Rightarrow> u8 list" where
  "mark_used bi bs = bs[bi div 8 := bs ! (bi div 8) OR push_bit (bi mod 8) 1]"

definition mark_free :: "nat \<Rightarrow> u8 list \<Rightarrow> u8 list" where
  "mark_free bi bs = bs[bi div 8 := bs ! (bi div 8) AND NOT (push_bit (bi mod 8) 1)]"

text \<open>
  The outer loop of \<open>balloc\<close>: \<open>bs\<close> are the values of \<open>b\<close>, the multiples of \<open>BPB\<close> below
  \<open>sb.size\<close>. The inner loop is the search for the first clear bit.
\<close>

definition free_bit :: "nat \<Rightarrow> nat \<Rightarrow> u8 list \<Rightarrow> nat option" where
  "free_bit nblk b bs = find_idx (\<lambda>bi. \<not> bit_used bs bi) [0..<min BPB (nblk - b)]"

fun balloc_loop :: "u32 \<Rightarrow> nat list \<Rightarrow> 'a fsst_scheme \<Rightarrow> (u32 \<times> 'a fsst_scheme) res" where
  "balloc_loop d [] s = Inl (Panic ''balloc: out of blocks'')"
| "balloc_loop d (b # rest) s =
     (if 2 ^ 31 \<le> b then Inl (Undef ''int overflow'')
      else
        rbind (bread (me s) d (BBLOCK b s) s) (\<lambda>(bp, s).
        case free_bit (unat (sb_size (sb s))) b (data (bufs s bp)) of
          Some bi \<Rightarrow>
            let s = upd_data bp (mark_used bi) s in
            rbind (log_write bp s) (\<lambda>s.
            rbind (brelse (me s) bp s) (\<lambda>s.
            rbind (bzero d (of_nat (b + bi)) s) (\<lambda>s.
            Inr (of_nat (b + bi), s))))
        | None \<Rightarrow>
            rbind (brelse (me s) bp s) (\<lambda>s.
            balloc_loop d rest s)))"

definition balloc :: "u32 \<Rightarrow> 'a fsst_scheme \<Rightarrow> (u32 \<times> 'a fsst_scheme) res" where
  "balloc d s =
     balloc_loop d (map (\<lambda>k. k * BPB) [0..<(unat (sb_size (sb s)) + BPB - 1) div BPB]) s"

definition bfree :: "u32 \<Rightarrow> u32 \<Rightarrow> 'a fsst_scheme \<Rightarrow> 'a fsst_scheme res" where
  "bfree d b s =
     rbind (bread (me s) d (BBLOCK (unat b) s) s) (\<lambda>(bp, s).
     let bi = unat b mod BPB in
     if \<not> bit_used (data (bufs s bp)) bi then Inl (Panic ''freeing free block'')
     else
       let s = upd_data bp (mark_free bi) s in
       rbind (log_write bp s) (\<lambda>s.
       brelse (me s) bp s))"

section \<open>Inodes\<close>

definition iinit :: "'a fsst_scheme \<Rightarrow> 'a fsst_scheme" where
  "iinit s =
     fold (\<lambda>i s. set_inode i (\<lambda>x. x\<lparr>ilk := initsleeplock (ilk x)\<rparr>) s) [0..<NINODE] (s\<lparr>itlock := False\<rparr>)"

text \<open>
  The table scan of \<open>iget\<close> stops at the entry that holds the inode; otherwise it has
  remembered the first free entry.
\<close>

definition iget_match :: "u32 \<Rightarrow> u32 \<Rightarrow> inode \<Rightarrow> bool" where
  "iget_match d n x \<longleftrightarrow> iref x > 0 \<and> idev x = d \<and> inum x = n"

definition iget :: "u32 \<Rightarrow> u32 \<Rightarrow> 'a fsst_scheme \<Rightarrow> (nat \<times> 'a fsst_scheme) res" where
  "iget d n s =
     rbind (acquire_it s) (\<lambda>s.
     case find_idx (iget_match d n) (map (inodes s) [0..<NINODE]) of
       Some ip \<Rightarrow>
         if iref (inodes s ip) \<ge> 2 ^ 31 - 1 then Inl (Undef ''signed overflow'')
         else
           let s = set_inode ip (\<lambda>x. x\<lparr>iref := iref x + 1\<rparr>) s in
           rbind (release_it s) (\<lambda>s. Inr (ip, s))
     | None \<Rightarrow>
         (case find_idx (\<lambda>x. iref x = 0) (map (inodes s) [0..<NINODE]) of
            None \<Rightarrow> Inl (Panic ''iget: no inodes'')
          | Some ip \<Rightarrow>
              let s = set_inode ip (\<lambda>x. x\<lparr>idev := d, inum := n, iref := 1, ivalid := False\<rparr>) s in
              rbind (release_it s) (\<lambda>s. Inr (ip, s))))"

fun ialloc_loop :: "u32 \<Rightarrow> u16 \<Rightarrow> nat list \<Rightarrow> 'a fsst_scheme \<Rightarrow> (nat \<times> 'a fsst_scheme) res" where
  "ialloc_loop d ty [] s = Inl (Panic ''ialloc: no inodes'')"
| "ialloc_loop d ty (n # rest) s =
     (if 2 ^ 31 \<le> n then Inl (Undef ''int overflow'')
      else
        rbind (bread (me s) d (IBLOCK n s) s) (\<lambda>(bp, s).
        if d_type (get_dinode (n mod IPB) (data (bufs s bp))) = 0 then
          let s = upd_data bp (put_dinode (n mod IPB)
                    \<lparr>d_type = ty, d_major = 0, d_minor = 0, d_nlink = 0, d_size = 0,
                     d_addrs = replicate (Suc NDIRECT) 0\<rparr>) s in
          rbind (log_write bp s) (\<lambda>s.
          rbind (brelse (me s) bp s) (\<lambda>s.
          iget d (of_nat n) s))
        else
          rbind (brelse (me s) bp s) (\<lambda>s.
          ialloc_loop d ty rest s)))"

definition ialloc :: "u32 \<Rightarrow> u16 \<Rightarrow> 'a fsst_scheme \<Rightarrow> (nat \<times> 'a fsst_scheme) res" where
  "ialloc d ty s = ialloc_loop d ty [1..<unat (sb_ninodes (sb s))] s"

definition dinode_of :: "inode \<Rightarrow> dinode" where
  "dinode_of x =
     \<lparr>d_type = itype x, d_major = imajor x, d_minor = iminor x, d_nlink = nlink x, d_size = isize x,
      d_addrs = addrs x\<rparr>"

definition iupdate :: "nat \<Rightarrow> 'a fsst_scheme \<Rightarrow> 'a fsst_scheme res" where
  "iupdate ip s =
     (let x = inodes s ip in
      rbind (bread (me s) (idev x) (IBLOCK (unat (inum x)) s) s) (\<lambda>(bp, s).
      let s = upd_data bp (put_dinode (unat (inum x) mod IPB) (dinode_of (inodes s ip))) s in
      rbind (log_write bp s) (\<lambda>s.
      brelse (me s) bp s)))"

definition idup :: "nat \<Rightarrow> 'a fsst_scheme \<Rightarrow> (nat \<times> 'a fsst_scheme) res" where
  "idup ip s =
     (if NINODE \<le> ip then Inl (Undef ''null inode'')
      else
        rbind (acquire_it s) (\<lambda>s.
        if iref (inodes s ip) \<ge> 2 ^ 31 - 1 then Inl (Undef ''signed overflow'')
        else
          let s = set_inode ip (\<lambda>x. x\<lparr>iref := iref x + 1\<rparr>) s in
          rbind (release_it s) (\<lambda>s. Inr (ip, s))))"

definition lock_inode :: "nat \<Rightarrow> 'a fsst_scheme \<Rightarrow> 'a fsst_scheme res" where
  "lock_inode ip s =
     rbind (acquiresleep (me s) (SleepChan (InodeLock ip)) (ilk (inodes s ip))) (\<lambda>l.
     Inr (set_inode ip (\<lambda>x. x\<lparr>ilk := l\<rparr>) s))"

definition unlock_inode :: "nat \<Rightarrow> 'a fsst_scheme \<Rightarrow> 'a fsst_scheme res" where
  "unlock_inode ip s =
     rbind (releasesleep (SleepChan (InodeLock ip)) (ilk (inodes s ip))) (\<lambda>(ch, l).
     Inr ((set_inode ip (\<lambda>x. x\<lparr>ilk := l\<rparr>) s)\<lparr>woken := woken s @ [ch]\<rparr>))"

definition load_inode :: "dinode \<Rightarrow> inode \<Rightarrow> inode" where
  "load_inode d x =
     x\<lparr>itype := d_type d, imajor := d_major d, iminor := d_minor d, nlink := d_nlink d, isize := d_size d,
       addrs := d_addrs d\<rparr>"

definition ilock :: "nat \<Rightarrow> 'a fsst_scheme \<Rightarrow> 'a fsst_scheme res" where
  "ilock ip s =
     (if NINODE \<le> ip \<or> iref (inodes s ip) < 1 then Inl (Panic ''ilock'')
      else
        rbind (lock_inode ip s) (\<lambda>s.
        if \<not> ivalid (inodes s ip) then
          let x = inodes s ip in
          rbind (bread (me s) (idev x) (IBLOCK (unat (inum x)) s) s) (\<lambda>(bp, s).
          let s = set_inode ip (load_inode (get_dinode (unat (inum x) mod IPB) (data (bufs s bp)))) s in
          rbind (brelse (me s) bp s) (\<lambda>s.
          let s = set_inode ip (\<lambda>x. x\<lparr>ivalid := True\<rparr>) s in
          if itype (inodes s ip) = 0 then Inl (Panic ''ilock: no type'') else Inr s))
        else Inr s))"

definition iunlock :: "nat \<Rightarrow> 'a fsst_scheme \<Rightarrow> 'a fsst_scheme res" where
  "iunlock ip s =
     (if NINODE \<le> ip then Inl (Panic ''iunlock'')
      else
        rbind (holdingsleep (me s) (ilk (inodes s ip))) (\<lambda>(h, l).
        let s = set_inode ip (\<lambda>x. x\<lparr>ilk := l\<rparr>) s in
        if \<not> h \<or> iref (inodes s ip) < 1 then Inl (Panic ''iunlock'')
        else unlock_inode ip s))"

section \<open>Inode content\<close>

definition bmap :: "nat \<Rightarrow> u32 \<Rightarrow> 'a fsst_scheme \<Rightarrow> (u32 \<times> 'a fsst_scheme) res" where
  "bmap ip bn s =
     (let d = idev (inodes s ip) in
      if unat bn < NDIRECT then
        (let a = addrs (inodes s ip) ! unat bn in
         if a = 0 then
           rbind (balloc d s) (\<lambda>(a, s).
           Inr (a, set_inode ip (\<lambda>x. x\<lparr>addrs := (addrs x)[unat bn := a]\<rparr>) s))
         else Inr (a, s))
      else
        let bn = unat bn - NDIRECT in
        if bn < NINDIRECT then
          rbind (if addrs (inodes s ip) ! NDIRECT = 0 then
                   rbind (balloc d s) (\<lambda>(a, s).
                   Inr (a, set_inode ip (\<lambda>x. x\<lparr>addrs := (addrs x)[NDIRECT := a]\<rparr>) s))
                 else Inr (addrs (inodes s ip) ! NDIRECT, s)) (\<lambda>(a, s).
          rbind (bread (me s) d a s) (\<lambda>(bp, s).
          rbind (if get32 (data (bufs s bp)) bn = 0 then
                   rbind (balloc d s) (\<lambda>(a, s).
                   let s = upd_data bp (put32 bn a) s in
                   rbind (log_write bp s) (\<lambda>s. Inr (a, s)))
                 else Inr (get32 (data (bufs s bp)) bn, s)) (\<lambda>(a, s).
          rbind (brelse (me s) bp s) (\<lambda>s.
          Inr (a, s)))))
        else Inl (Panic ''bmap: out of range''))"

definition itrunc_direct :: "nat \<Rightarrow> nat \<Rightarrow> 'a fsst_scheme \<Rightarrow> 'a fsst_scheme res" where
  "itrunc_direct ip i s =
     (let a = addrs (inodes s ip) ! i in
      if a \<noteq> 0 then
        rbind (bfree (idev (inodes s ip)) a s) (\<lambda>s.
        Inr (set_inode ip (\<lambda>x. x\<lparr>addrs := (addrs x)[i := 0]\<rparr>) s))
      else Inr s)"

definition itrunc_indirect :: "nat \<Rightarrow> nat \<Rightarrow> nat \<Rightarrow> 'a fsst_scheme \<Rightarrow> 'a fsst_scheme res" where
  "itrunc_indirect ip bp j s =
     (let a = get32 (data (bufs s bp)) j in
      if a \<noteq> 0 then bfree (idev (inodes s ip)) a s else Inr s)"

definition itrunc :: "nat \<Rightarrow> 'a fsst_scheme \<Rightarrow> 'a fsst_scheme res" where
  "itrunc ip s =
     rbind (for_each (itrunc_direct ip) [0..<NDIRECT] s) (\<lambda>s.
     rbind (let a = addrs (inodes s ip) ! NDIRECT in
            if a \<noteq> 0 then
              rbind (bread (me s) (idev (inodes s ip)) a s) (\<lambda>(bp, s).
              rbind (for_each (itrunc_indirect ip bp) [0..<NINDIRECT] s) (\<lambda>s.
              rbind (brelse (me s) bp s) (\<lambda>s.
              rbind (bfree (idev (inodes s ip)) (addrs (inodes s ip) ! NDIRECT) s) (\<lambda>s.
              Inr (set_inode ip (\<lambda>x. x\<lparr>addrs := (addrs x)[NDIRECT := 0]\<rparr>) s)))))
            else Inr s) (\<lambda>s.
     iupdate ip (set_inode ip (\<lambda>x. x\<lparr>isize := 0\<rparr>) s)))"

definition iput :: "nat \<Rightarrow> 'a fsst_scheme \<Rightarrow> 'a fsst_scheme res" where
  "iput ip s =
     (if NINODE \<le> ip then Inl (Undef ''null inode'')
      else
        rbind (acquire_it s) (\<lambda>s.
        rbind (if iref (inodes s ip) = 1 \<and> ivalid (inodes s ip) \<and> nlink (inodes s ip) = 0 then
                 rbind (lock_inode ip s) (\<lambda>s.
                 rbind (release_it s) (\<lambda>s.
                 rbind (itrunc ip s) (\<lambda>s.
                 let s = set_inode ip (\<lambda>x. x\<lparr>itype := 0\<rparr>) s in
                 rbind (iupdate ip s) (\<lambda>s.
                 let s = set_inode ip (\<lambda>x. x\<lparr>ivalid := False\<rparr>) s in
                 rbind (unlock_inode ip s) acquire_it))))
               else Inr s) (\<lambda>s.
        release_it (set_inode ip (\<lambda>x. x\<lparr>iref := iref x - 1\<rparr>) s))))"

definition iunlockput :: "nat \<Rightarrow> 'a fsst_scheme \<Rightarrow> 'a fsst_scheme res" where
  "iunlockput ip s = rbind (iunlock ip s) (iput ip)"

definition stati :: "nat \<Rightarrow> 'a fsst_scheme \<Rightarrow> stat" where
  "stati ip s =
     (let x = inodes s ip in
      \<lparr>st_dev = idev x, st_ino = inum x, st_type = itype x, st_nlink = nlink x, st_size = ucast (isize x)\<rparr>)"

datatype iodst = ToMem uaddr | ToLocal
datatype iosrc = FromMem uaddr | FromLocal "u8 list"

definition copy_dst :: "iodst \<Rightarrow> u8 list \<Rightarrow> 'a fsst_scheme \<Rightarrow> (int \<times> 'a fsst_scheme) res" where
  "copy_dst dst bs s =
     (case dst of
        ToLocal \<Rightarrow> Inr (0, s)
      | ToMem u \<Rightarrow> rbind (either_copyout (pagetable (cur s)) u bs (umem s)) (\<lambda>(r, k). Inr (r, s\<lparr>umem := k\<rparr>)))"

definition copy_src :: "iosrc \<Rightarrow> nat \<Rightarrow> 'a fsst_scheme \<Rightarrow> (int \<times> u8 list) res" where
  "copy_src src n s =
     (case src of
        FromLocal bs \<Rightarrow> Inr (0, take n bs)
      | FromMem u \<Rightarrow> either_copyin (pagetable (cur s)) u n (umem s))"

definition dst_plus :: "iodst \<Rightarrow> nat \<Rightarrow> iodst" where
  "dst_plus dst n = (case dst of ToLocal \<Rightarrow> ToLocal | ToMem u \<Rightarrow> ToMem (uaddr_plus u n))"

definition src_plus :: "iosrc \<Rightarrow> nat \<Rightarrow> iosrc" where
  "src_plus src n = (case src of FromLocal bs \<Rightarrow> FromLocal (drop n bs) | FromMem u \<Rightarrow> FromMem (uaddr_plus u n))"

text \<open>\<open>m = min(n - tot, BSIZE - off%BSIZE)\<close>\<close>

definition io_chunk :: "u32 \<Rightarrow> u32 \<Rightarrow> u32" where
  "io_chunk rest off = min rest (1024 - off mod 1024)"

lemma io_chunk_bounds: "0 < rest \<Longrightarrow> 0 < io_chunk rest off" "io_chunk rest off \<le> rest"
proof -
  have "off mod 1024 < 1024" by (simp add: word_less_nat_alt unat_mod)
  then have "(1024 :: u32) - off mod 1024 \<noteq> 0" by auto
  then have "0 < (1024 :: u32) - off mod 1024" by (simp only: word_neq_0_conv)
  then show "0 < rest \<Longrightarrow> 0 < io_chunk rest off" by (simp add: io_chunk_def min_def)
  show "io_chunk rest off \<le> rest" by (simp add: io_chunk_def)
qed

lemma io_chunk_less:
  assumes "tot < n"
  shows "unat (n - (tot + io_chunk (n - tot) off)) < unat (n - tot)"
proof -
  let ?m = "io_chunk (n - tot) off"
  have r: "0 < n - tot" using assms by (metis right_minus_eq word_gt_0 less_irrefl)
  have m: "0 < ?m" "?m \<le> n - tot" using io_chunk_bounds r by auto
  have "n - (tot + ?m) = n - tot - ?m" by simp
  then have "unat (n - (tot + ?m)) = unat (n - tot) - unat ?m" using unat_sub [OF m(2)] by (simp only:)
  with m r show ?thesis by (simp add: word_less_nat_alt word_le_nat_alt)
qed

text \<open>The loop of \<open>readi\<close>; the list collects the bytes that have been copied out.\<close>

function readi_loop ::
  "nat \<Rightarrow> iodst \<Rightarrow> u32 \<Rightarrow> u32 \<Rightarrow> u32 \<Rightarrow> u8 list \<Rightarrow> 'a fsst_scheme \<Rightarrow> (int \<times> u8 list \<times> 'a fsst_scheme) res" where
  "readi_loop ip dst off n tot acc s =
     (if tot < n then
        rbind (bmap ip (off div 1024) s) (\<lambda>(a, s).
        rbind (bread (me s) (idev (inodes s ip)) a s) (\<lambda>(bp, s).
        let m = io_chunk (n - tot) off;
            bs = slice (unat off mod BSIZE) (unat m) (data (bufs s bp)) in
        rbind (copy_dst dst bs s) (\<lambda>(r, s).
        rbind (brelse (me s) bp s) (\<lambda>s.
        if r = -1 then Inr (-1, acc, s)
        else readi_loop ip (dst_plus dst (unat m)) (off + m) n (tot + m) (acc @ bs) s))))
      else Inr (sint tot, acc, s))"
  by pat_completeness auto
termination
  by (relation "measure (\<lambda>(ip, dst, off, n, tot, acc, s). unat (n - tot))") (auto simp: io_chunk_less)

definition readi :: "nat \<Rightarrow> iodst \<Rightarrow> u32 \<Rightarrow> u32 \<Rightarrow> 'a fsst_scheme \<Rightarrow> (int \<times> u8 list \<times> 'a fsst_scheme) res" where
  "readi ip dst off n s =
     (let size = isize (inodes s ip) in
      if size < off \<or> off + n < off then Inr (0, [], s)
      else readi_loop ip dst off (if size < off + n then size - off else n) 0 [] s)"

function writei_loop ::
  "nat \<Rightarrow> iosrc \<Rightarrow> u32 \<Rightarrow> u32 \<Rightarrow> u32 \<Rightarrow> 'a fsst_scheme \<Rightarrow> (u32 \<times> u32 \<times> 'a fsst_scheme) res" where
  "writei_loop ip src off n tot s =
     (if tot < n then
        rbind (bmap ip (off div 1024) s) (\<lambda>(a, s).
        rbind (bread (me s) (idev (inodes s ip)) a s) (\<lambda>(bp, s).
        let m = io_chunk (n - tot) off in
        rbind (copy_src src (unat m) s) (\<lambda>(r, bs).
        let s = upd_data bp (splice (unat off mod BSIZE) bs) s in
        if r = -1 then rbind (brelse (me s) bp s) (\<lambda>s. Inr (tot, off, s))
        else
          rbind (log_write bp s) (\<lambda>s.
          rbind (brelse (me s) bp s) (\<lambda>s.
          writei_loop ip (src_plus src (unat m)) (off + m) n (tot + m) s)))))
      else Inr (tot, off, s))"
  by pat_completeness auto
termination
  by (relation "measure (\<lambda>(ip, src, off, n, tot, s). unat (n - tot))") (auto simp: io_chunk_less)

declare readi_loop.simps [simp del] writei_loop.simps [simp del]

definition writei :: "nat \<Rightarrow> iosrc \<Rightarrow> u32 \<Rightarrow> u32 \<Rightarrow> 'a fsst_scheme \<Rightarrow> (int \<times> 'a fsst_scheme) res" where
  "writei ip src off n s =
     (if isize (inodes s ip) < off \<or> off + n < off then Inr (-1, s)
      else if MAXFILE * BSIZE < unat (off + n) then Inr (-1, s)
      else
        rbind (writei_loop ip src off n 0 s) (\<lambda>(tot, off, s).
        let s = (if isize (inodes s ip) < off then set_inode ip (\<lambda>x. x\<lparr>isize := off\<rparr>) s else s) in
        rbind (iupdate ip s) (\<lambda>s.
        Inr (sint tot, s))))"

section \<open>Directories\<close>

text \<open>\<open>strncmp\<close> on byte strings; past the end of the list there is the terminating zero.\<close>

fun name_diff :: "nat \<Rightarrow> u8 list \<Rightarrow> u8 list \<Rightarrow> int" where
  "name_diff 0 s t = 0"
| "name_diff (Suc n) s t =
     (let p = (case s of [] \<Rightarrow> 0 | c # _ \<Rightarrow> c);
          q = (case t of [] \<Rightarrow> 0 | c # _ \<Rightarrow> c) in
      if p \<noteq> 0 \<and> p = q then name_diff n (tl s) (tl t) else uint p - uint q)"

definition namecmp :: "u8 list \<Rightarrow> u8 list \<Rightarrow> int" where
  "namecmp s t = name_diff DIRSIZ s t"

text \<open>
  The loop of \<open>dirlookup\<close>; the list holds the offsets of the entries, the multiples of 16
  below \<open>dp->size\<close>. The result is null or the inode, with the offset stored in \<open>*poff\<close>.
\<close>

definition entry_offs :: "u32 \<Rightarrow> nat list" where
  "entry_offs n = map (\<lambda>k. 16 * k) [0..<(unat n + 15) div 16]"

fun dirlookup_loop :: "nat \<Rightarrow> u8 list \<Rightarrow> nat list \<Rightarrow> 'a fsst_scheme \<Rightarrow> (nat \<times> nat \<times> 'a fsst_scheme) res" where
  "dirlookup_loop dp name [] s = Inr (NINODE, 0, s)"
| "dirlookup_loop dp name (off # offs) s =
     rbind (readi dp ToLocal (of_nat off) 16 s) (\<lambda>(r, bs, s).
     if r \<noteq> 16 then Inl (Panic ''dirlookup read'')
     else
       let e = get_dirent bs in
       if de_inum e = 0 then dirlookup_loop dp name offs s
       else if namecmp name (de_name e) = 0 then
         rbind (iget (idev (inodes s dp)) (ucast (de_inum e)) s) (\<lambda>(ip, s). Inr (ip, off, s))
       else dirlookup_loop dp name offs s)"

definition dirlookup :: "nat \<Rightarrow> u8 list \<Rightarrow> 'a fsst_scheme \<Rightarrow> (nat \<times> nat \<times> 'a fsst_scheme) res" where
  "dirlookup dp name s =
     (if itype (inodes s dp) \<noteq> T_DIR then Inl (Panic ''dirlookup not DIR'')
      else dirlookup_loop dp name (entry_offs (isize (inodes s dp))) s)"

text \<open>The search of \<open>dirlink\<close> for an empty entry: its offset, or the offset after the last one.\<close>

fun dirlink_loop :: "nat \<Rightarrow> nat list \<Rightarrow> nat \<Rightarrow> 'a fsst_scheme \<Rightarrow> (nat \<times> 'a fsst_scheme) res" where
  "dirlink_loop dp [] off s = Inr (off, s)"
| "dirlink_loop dp (off # offs) _ s =
     rbind (readi dp ToLocal (of_nat off) 16 s) (\<lambda>(r, bs, s).
     if r \<noteq> 16 then Inl (Panic ''dirlink read'')
     else if de_inum (get_dirent bs) = 0 then Inr (off, s)
     else dirlink_loop dp offs (off + 16) s)"

text \<open>\<open>strncpy(de.name, name, DIRSIZ)\<close>: cut at \<open>DIRSIZ\<close> bytes or filled up with zeros.\<close>

definition pad_name :: "u8 list \<Rightarrow> u8 list" where
  "pad_name name = take DIRSIZ (name @ replicate DIRSIZ 0)"

definition dirlink :: "nat \<Rightarrow> u8 list \<Rightarrow> u32 \<Rightarrow> 'a fsst_scheme \<Rightarrow> (int \<times> 'a fsst_scheme) res" where
  "dirlink dp name n s =
     rbind (dirlookup dp name s) (\<lambda>(ip, _, s).
     if ip \<noteq> NINODE then rbind (iput ip s) (\<lambda>s. Inr (-1, s))
     else
       rbind (dirlink_loop dp (entry_offs (isize (inodes s dp))) 0 s) (\<lambda>(off, s).
       rbind (writei dp (FromLocal (dirent_bytes \<lparr>de_inum = ucast n, de_name = pad_name name\<rparr>))
                (of_nat off) 16 s) (\<lambda>(r, s).
       if r \<noteq> 16 then Inl (Panic ''dirlink'') else Inr (0, s))))"

section \<open>Paths\<close>

text \<open>
  \<open>skipelem\<close>: the rest of the path and the element, or null. \<open>memmove(name, s, DIRSIZ)\<close> cuts a long
  element.
\<close>

abbreviation SLASH :: u8 where "SLASH \<equiv> 47"

definition skipelem :: "u8 list \<Rightarrow> (u8 list \<times> u8 list) option" where
  "skipelem path =
     (let path = dropWhile (\<lambda>c. c = SLASH) path in
      if path = [] then None
      else
        let elem = takeWhile (\<lambda>c. c \<noteq> SLASH) path;
            path = dropWhile (\<lambda>c. c \<noteq> SLASH) path;
            name = (if length elem \<ge> DIRSIZ then take DIRSIZ elem else elem)
        in Some (dropWhile (\<lambda>c. c = SLASH) path, name))"

lemma skipelem_shorter:
  assumes "skipelem path = Some (rest, name)"
  shows "length rest < length path"
proof -
  let ?p = "dropWhile (\<lambda>c. c = SLASH) path"
  have ne: "?p \<noteq> []" using assms by (auto simp: skipelem_def Let_def split: if_splits)
  then have hd: "hd ?p \<noteq> SLASH" by (rule hd_dropWhile)
  have r: "rest = dropWhile (\<lambda>c. c = SLASH) (dropWhile (\<lambda>c. c \<noteq> SLASH) ?p)"
    using assms by (auto simp: skipelem_def Let_def split: if_splits)
  have "length rest \<le> length (dropWhile (\<lambda>c. c \<noteq> SLASH) ?p)" unfolding r by (rule length_dropWhile_le)
  also have "\<dots> < length ?p" using ne hd by (cases ?p) (auto simp: length_dropWhile_le le_imp_less_Suc)
  also have "\<dots> \<le> length path" by (rule length_dropWhile_le)
  finally show ?thesis .
qed

function namex_loop :: "nat \<Rightarrow> u8 list \<Rightarrow> bool \<Rightarrow> u8 list \<Rightarrow> 'a fsst_scheme \<Rightarrow> (nat \<times> u8 list \<times> 'a fsst_scheme) res" where
  "namex_loop ip path par name s =
     (case skipelem path of
        None \<Rightarrow>
          if par then rbind (iput ip s) (\<lambda>s. Inr (NINODE, name, s))
          else Inr (ip, name, s)
      | Some (path, name) \<Rightarrow>
          rbind (ilock ip s) (\<lambda>s.
          if itype (inodes s ip) \<noteq> T_DIR then rbind (iunlockput ip s) (\<lambda>s. Inr (NINODE, name, s))
          else if par \<and> path = [] then rbind (iunlock ip s) (\<lambda>s. Inr (ip, name, s))
          else
            rbind (dirlookup ip name s) (\<lambda>(nxt, _, s).
            rbind (iunlockput ip s) (\<lambda>s.
            if nxt = NINODE then Inr (NINODE, name, s)
            else namex_loop nxt path par name s))))"
  by pat_completeness auto
termination
  by (relation "measure (\<lambda>(ip, path, par, name, s). length path)") (auto dest: skipelem_shorter)

declare namex_loop.simps [simp del]

definition namex :: "u8 list \<Rightarrow> bool \<Rightarrow> 'a fsst_scheme \<Rightarrow> (nat \<times> u8 list \<times> 'a fsst_scheme) res" where
  "namex path par s =
     rbind (if take 1 path = [SLASH] then iget ROOTDEV ROOTINO s
            else idup (case cwd (cur s) of None \<Rightarrow> NINODE | Some ip \<Rightarrow> ip) s) (\<lambda>(ip, s).
     namex_loop ip path par [] s)"

definition namei :: "u8 list \<Rightarrow> 'a fsst_scheme \<Rightarrow> (nat \<times> 'a fsst_scheme) res" where
  "namei path s = rbind (namex path False s) (\<lambda>(ip, _, s). Inr (ip, s))"

definition nameiparent :: "u8 list \<Rightarrow> 'a fsst_scheme \<Rightarrow> (nat \<times> u8 list \<times> 'a fsst_scheme) res" where
  "nameiparent path s = namex path True s"

end
