(* ===== verification/Ring.thy ===== *)
theory Ring
  imports Prelude
begin

text \<open>
  Ring buffers, as the console, the serial line and pipes use them: an array of \<open>N\<close> entries
  and two counters that only grow, modulo the width of their type. An entry is at its number
  modulo \<open>N\<close>; \<open>N\<close> divides \<open>2 ^ w\<close>, so that the wrap-around of the counters does not matter.
  The locale \<open>fifo\<close> is the contract of a bounded queue.
\<close>

section \<open>A bounded queue\<close>

locale fifo =
  fixes queue :: "'s \<Rightarrow> 'a list" and capacity :: nat and good :: "'s \<Rightarrow> bool"
    and put :: "'a \<Rightarrow> 's \<Rightarrow> 's" and get :: "'s \<Rightarrow> 'a \<times> 's"
  assumes put_queue: "good s \<Longrightarrow> length (queue s) < capacity \<Longrightarrow> queue (put x s) = queue s @ [x]"
    and put_good: "good s \<Longrightarrow> length (queue s) < capacity \<Longrightarrow> good (put x s)"
    and get_queue: "good s \<Longrightarrow> queue s \<noteq> [] \<Longrightarrow> queue s = fst (get s) # queue (snd (get s))"
    and get_good: "good s \<Longrightarrow> queue s \<noteq> [] \<Longrightarrow> good (snd (get s))"
    and bounded: "good s \<Longrightarrow> length (queue s) \<le> capacity"
begin

text \<open>\<open>n\<close> times \<open>get\<close>.\<close>

fun get_many :: "nat \<Rightarrow> 's \<Rightarrow> 'a list \<times> 's" where
  "get_many 0 s = ([], s)"
| "get_many (Suc n) s = (let (x, s) = get s; (xs, s) = get_many n s in (x # xs, s))"

lemma put_many:
  assumes "good s" "length (queue s) + length xs \<le> capacity"
  shows "good (fold put xs s) \<and> queue (fold put xs s) = queue s @ xs"
  using assms
proof (induction xs arbitrary: s)
  case (Cons x xs)
  then have l: "length (queue s) < capacity" by simp
  note p = put_queue [OF Cons.prems(1) l, of x] put_good [OF Cons.prems(1) l, of x]
  have "length (queue (put x s)) + length xs \<le> capacity" using Cons.prems p(1) by simp
  from Cons.IH [OF p(2) this] p(1) show ?case by simp
qed simp

lemma get_many:
  assumes "good s" "n \<le> length (queue s)"
  shows "fst (get_many n s) = take n (queue s) \<and> queue (snd (get_many n s)) = drop n (queue s) \<and>
    good (snd (get_many n s))"
  using assms
proof (induction n arbitrary: s)
  case (Suc n)
  then have ne: "queue s \<noteq> []" by auto
  note g = get_queue [OF Suc.prems(1) ne] get_good [OF Suc.prems(1) ne]
  obtain x t where e: "get s = (x, t)" by (cases "get s")
  then have q: "queue s = x # queue t" "good t" using g by simp_all
  have "n \<le> length (queue t)" using Suc.prems(2) q(1) by simp
  from Suc.IH [OF q(2) this] show ?case using e q(1) by (simp add: case_prod_beta Let_def)
qed simp

text \<open>What goes in comes out, in order.\<close>

lemma in_order:
  assumes "good s" "queue s = []" "length xs \<le> capacity"
  shows "fst (get_many (length xs) (fold put xs s)) = xs"
  using put_many [of s xs] get_many [of "fold put xs s" "length xs"] assms by simp

end

section \<open>The ring\<close>

definition ring_queue :: "nat \<Rightarrow> 'a list \<Rightarrow> 'w::len word \<Rightarrow> 'w word \<Rightarrow> 'a list" where
  "ring_queue N buf r w = map (\<lambda>i. buf ! (unat (r + of_nat i) mod N)) [0..<unat (w - r)]"

definition ring_ok :: "nat \<Rightarrow> 'a list \<Rightarrow> 'w::len word \<Rightarrow> 'w word \<Rightarrow> bool" where
  "ring_ok N buf r w \<longleftrightarrow>
     length buf = N \<and> N dvd 2 ^ LENGTH('w) \<and> N < 2 ^ LENGTH('w) \<and> unat (w - r) \<le> N"

lemma length_ring_queue [simp]: "length (ring_queue N buf r w) = unat (w - r)"
  by (simp add: ring_queue_def)

lemma ring_queue_empty_iff: "ring_queue N buf r w = [] \<longleftrightarrow> r = w"
  by (auto simp: ring_queue_def unat_eq_0)

lemma ring_index:
  assumes "N dvd 2 ^ LENGTH('w)"
  shows "unat ((r :: 'w::len word) + of_nat i) mod N = (unat r + i) mod N"
  using assms by (simp add: unat_word_ariths unat_of_nat mod_mod_cancel mod_add_right_eq)

lemma ring_full_iff:
  assumes "ring_ok N buf r (w :: 'w::len word)"
  shows "w = r + of_nat N \<longleftrightarrow> length (ring_queue N buf r w) = N"
proof -
  have N: "N < 2 ^ LENGTH('w)" using assms by (simp add: ring_ok_def)
  have "w = r + of_nat N \<longleftrightarrow> w - r = of_nat N" by (auto simp: diff_eq_eq add.commute)
  also have "\<dots> \<longleftrightarrow> unat (w - r) = N"
    using N by (auto simp: word_eq_iff_unsigned unat_of_nat word_unat_eq_iff)
  finally show ?thesis by simp
qed

lemma ring_put:
  assumes ok: "ring_ok N buf r (w :: 'w::len word)" and room: "unat (w - r) < N"
  shows "ring_queue N (buf[unat w mod N := x]) r (w + 1) = ring_queue N buf r w @ [x]"
    "ring_ok N (buf[unat w mod N := x]) r (w + 1)"
proof -
  let ?k = "unat (w - r)"
  have d: "N dvd 2 ^ LENGTH('w)" and N: "length buf = N" "N < 2 ^ LENGTH('w)" "0 < N"
    using ok room by (auto simp: ring_ok_def)
  have "w + 1 - r = (w - r) + 1" by simp
  then have "unat (w + 1 - r) = (?k + 1) mod 2 ^ LENGTH('w)" by (simp only: unat_word_ariths mod_add_right_eq) (simp add: mod_add_right_eq)
  then have s: "unat (w + 1 - r) = Suc ?k" using room N(2) by simp
  have wk: "w = r + of_nat ?k" by simp
  have wm: "unat w mod N = (unat r + ?k) mod N" using ring_index [OF d, of r ?k] wk by simp
  have ne: "unat (r + of_nat i) mod N \<noteq> unat w mod N" if "i < ?k" for i
  proof
    assume "unat (r + of_nat i) mod N = unat w mod N"
    then have "(unat r + i) mod N = (unat r + ?k) mod N" using wm ring_index [OF d, of r i] by simp
    then have "(unat r + ?k) mod N = (unat r + i) mod N" by simp
    then have "N dvd ?k - i" using that by (subst (asm) mod_eq_dvd_iff_nat) auto
    then show False using that room dvd_imp_le [of N "?k - i"] by simp
  qed
  have lt: "unat w mod N < length buf" using N by simp
  show "ring_queue N (buf[unat w mod N := x]) r (w + 1) = ring_queue N buf r w @ [x]"
    unfolding ring_queue_def s using ne [symmetric] lt by (simp add: nth_list_update)
  show "ring_ok N (buf[unat w mod N := x]) r (w + 1)" using ok room s by (simp add: ring_ok_def)
qed

lemma ring_get:
  assumes ok: "ring_ok N buf r (w :: 'w::len word)" and ne: "r \<noteq> w"
  shows "ring_queue N buf r w = buf ! (unat r mod N) # ring_queue N buf (r + 1) w"
    "ring_ok N buf (r + 1) w"
proof -
  have p: "0 < unat (w - r)" using ne by (simp add: unat_gt_0)
  have "w - (r + 1) = (w - r) - 1" by simp
  then have s: "unat (w - r) = Suc (unat (w - (r + 1)))"
    using p by (metis Suc_pred' unat_minus_one unat_gt_0)
  have "[0..<unat (w - r)] = 0 # map Suc [0..<unat (w - (r + 1))]"
    unfolding s by (simp add: map_Suc_upt upt_conv_Cons)
  then show "ring_queue N buf r w = buf ! (unat r mod N) # ring_queue N buf (r + 1) w"
    by (simp add: ring_queue_def add.assoc)
  show "ring_ok N buf (r + 1) w" using ok s by (simp add: ring_ok_def)
qed

lemma ring_unput:
  assumes ok: "ring_ok N buf r (e :: 'w::len word)" and ne: "r \<noteq> e"
  shows "ring_queue N buf r (e - 1) = butlast (ring_queue N buf r e)" "ring_ok N buf r (e - 1)"
    "Suc (unat (e - 1 - r)) = unat (e - r)" "last (ring_queue N buf r e) = buf ! (unat (e - 1) mod N)"
proof -
  have p: "0 < unat (e - r)" using ne by (simp add: unat_gt_0)
  have "e - 1 - r = (e - r) - 1" by simp
  then show k: "Suc (unat (e - 1 - r)) = unat (e - r)"
    using p by (metis Suc_pred' unat_minus_one unat_gt_0)
  then have u: "[0..<unat (e - r)] = [0..<unat (e - 1 - r)] @ [unat (e - 1 - r)]" by (metis upt_Suc_append zero_le)
  show "ring_queue N buf r (e - 1) = butlast (ring_queue N buf r e)" by (simp add: ring_queue_def u)
  show "ring_ok N buf r (e - 1)" using ok k by (simp add: ring_ok_def)
  show "last (ring_queue N buf r e) = buf ! (unat (e - 1) mod N)" by (simp add: ring_queue_def u)
qed

end
