(* ===== verification/Console.thy ===== *)
theory Console
  imports Fs Ring
begin

text \<open>
  kernel/uart.c, kernel/console.c and kernel/printf.c. The serial device is seen through its
  registers. \<open>lsrs\<close> are the values that the coming reads of LSR return; when the list is used
  up LSR reads 0, so that waiting for it does not end (\<open>Hang\<close>). \<open>rhrs\<close> are the values that the
  coming reads of RHR return; \<open>uwrites\<close> records the writes, register and value. \<open>char\<close> is
  unsigned on this machine.

  \<open>uartputc_sync\<close> disables interrupts and restores them around its body (\<open>push_off\<close>, \<open>pop_off\<close>),
  which leaves the state here as it is.
\<close>

section \<open>State\<close>

definition UART_TX_BUF_SIZE :: nat where "UART_TX_BUF_SIZE = 32"
definition INPUT_BUF :: nat where "INPUT_BUF = 128"
definition BACKSPACE :: int where "BACKSPACE = 0x100"
definition CONSOLE :: nat where "CONSOLE = 1"

definition RHR :: nat where "RHR = 0"
definition THR :: nat where "THR = 0"
definition IER :: nat where "IER = 1"
definition FCR :: nat where "FCR = 2"
definition LCR :: nat where "LCR = 3"
definition IER_RX_ENABLE :: u8 where "IER_RX_ENABLE = 1"
definition IER_TX_ENABLE :: u8 where "IER_TX_ENABLE = 2"
definition FCR_FIFO_ENABLE :: u8 where "FCR_FIFO_ENABLE = 1"
definition FCR_FIFO_CLEAR :: u8 where "FCR_FIFO_CLEAR = 6"
definition LCR_EIGHT_BITS :: u8 where "LCR_EIGHT_BITS = 3"
definition LCR_BAUD_LATCH :: u8 where "LCR_BAUD_LATCH = 0x80"
definition LSR_TX_IDLE :: u8 where "LSR_TX_IDLE = 0x20"

datatype devfn = Consoleread | Consolewrite

record condev = fsst +
  lsrs :: "u8 list"
  rhrs :: "u8 list"
  uwrites :: "(nat \<times> u8) list"
  txlock :: bool
  tx_buf :: "u8 list"
  tx_w :: u64
  tx_r :: u64
  panicked :: bool
  conslock :: bool
  cbuf :: "u8 list"
  c_r :: u32
  c_w :: u32
  c_e :: u32
  prlock :: bool
  prlocking :: bool
  devread :: "nat \<Rightarrow> devfn option"
  devwrite :: "nat \<Rightarrow> devfn option"

definition acquire_tx :: "'a condev_scheme \<Rightarrow> 'a condev_scheme res" where
  "acquire_tx s = rbind (spin_acquire (txlock s)) (\<lambda>h. Inr (s\<lparr>txlock := h\<rparr>))"

definition release_tx :: "'a condev_scheme \<Rightarrow> 'a condev_scheme res" where
  "release_tx s = rbind (spin_release (txlock s)) (\<lambda>h. Inr (s\<lparr>txlock := h\<rparr>))"

definition acquire_cons :: "'a condev_scheme \<Rightarrow> 'a condev_scheme res" where
  "acquire_cons s = rbind (spin_acquire (conslock s)) (\<lambda>h. Inr (s\<lparr>conslock := h\<rparr>))"

definition release_cons :: "'a condev_scheme \<Rightarrow> 'a condev_scheme res" where
  "release_cons s = rbind (spin_release (conslock s)) (\<lambda>h. Inr (s\<lparr>conslock := h\<rparr>))"

section \<open>The serial line\<close>

definition WriteReg :: "nat \<Rightarrow> u8 \<Rightarrow> 'a condev_scheme \<Rightarrow> 'a condev_scheme" where
  "WriteReg reg v s = s\<lparr>uwrites := uwrites s @ [(reg, v)]\<rparr>"

definition read_lsr :: "'a condev_scheme \<Rightarrow> u8 \<times> 'a condev_scheme" where
  "read_lsr s = (case lsrs s of [] \<Rightarrow> (0, s) | l # ls \<Rightarrow> (l, s\<lparr>lsrs := ls\<rparr>))"

definition read_rhr :: "'a condev_scheme \<Rightarrow> u8 \<times> 'a condev_scheme" where
  "read_rhr s = (case rhrs s of [] \<Rightarrow> (0, s) | c # cs \<Rightarrow> (c, s\<lparr>rhrs := cs\<rparr>))"

definition uartinit :: "'a condev_scheme \<Rightarrow> 'a condev_scheme" where
  "uartinit s =
     (let s = WriteReg IER 0 s;
          s = WriteReg LCR LCR_BAUD_LATCH s;
          s = WriteReg 0 3 s;
          s = WriteReg 1 0 s;
          s = WriteReg LCR LCR_EIGHT_BITS s;
          s = WriteReg FCR (FCR_FIFO_ENABLE OR FCR_FIFO_CLEAR) s;
          s = WriteReg IER (IER_TX_ENABLE OR IER_RX_ENABLE) s
      in s\<lparr>txlock := False\<rparr>)"

function uartstart :: "'a condev_scheme \<Rightarrow> 'a condev_scheme" where
  "uartstart s =
     (if tx_w s = tx_r s then s
      else
        let (l, s) = read_lsr s in
        if l AND LSR_TX_IDLE = 0 then s
        else
          let c = tx_buf s ! (unat (tx_r s) mod UART_TX_BUF_SIZE);
              s = s\<lparr>tx_r := tx_r s + 1\<rparr>;
              s = s\<lparr>woken := woken s @ [UartChan]\<rparr>
          in uartstart (WriteReg THR c s))"
  by pat_completeness auto
termination
  by (relation "measure (\<lambda>s. length (lsrs s))")
    (auto simp: read_lsr_def WriteReg_def split: list.splits)

declare uartstart.simps [simp del]

definition uartputc :: "int \<Rightarrow> 'a condev_scheme \<Rightarrow> 'a condev_scheme res" where
  "uartputc c s =
     rbind (acquire_tx s) (\<lambda>s.
     if panicked s then Inl Hang
     else if tx_w s = tx_r s + of_nat UART_TX_BUF_SIZE then Inl (Block UartChan)
     else
       let s = s\<lparr>tx_buf := (tx_buf s)[unat (tx_w s) mod UART_TX_BUF_SIZE := of_int c]\<rparr>;
           s = s\<lparr>tx_w := tx_w s + 1\<rparr>
       in release_tx (uartstart s))"

definition uartputc_sync :: "int \<Rightarrow> 'a condev_scheme \<Rightarrow> 'a condev_scheme res" where
  "uartputc_sync c s =
     (if panicked s then Inl Hang
      else
        case dropWhile (\<lambda>l. l AND LSR_TX_IDLE = 0) (lsrs s) of
          [] \<Rightarrow> Inl Hang
        | _ # ls \<Rightarrow> Inr (WriteReg THR (of_int c) (s\<lparr>lsrs := ls\<rparr>)))"

definition uartgetc :: "'a condev_scheme \<Rightarrow> int \<times> 'a condev_scheme" where
  "uartgetc s =
     (let (l, s) = read_lsr s in
      if l AND 1 \<noteq> 0 then (let (c, s) = read_rhr s in (uint c, s)) else (-1, s))"

section \<open>The console\<close>

definition consputc :: "int \<Rightarrow> 'a condev_scheme \<Rightarrow> 'a condev_scheme res" where
  "consputc c s =
     (if c = BACKSPACE then
        rbind (uartputc_sync 8 s) (\<lambda>s.
        rbind (uartputc_sync 32 s) (\<lambda>s.
        uartputc_sync 8 s))
      else uartputc_sync c s)"

text \<open>\<open>src+i\<close> for the remaining \<open>m = n - i\<close> bytes.\<close>

fun consolewrite_loop :: "nat \<Rightarrow> int \<Rightarrow> uaddr \<Rightarrow> 'a condev_scheme \<Rightarrow> (int \<times> 'a condev_scheme) res" where
  "consolewrite_loop 0 i src s = Inr (i, s)"
| "consolewrite_loop (Suc m) i src s =
     rbind (either_copyin (pagetable (cur s)) src 1 (umem s)) (\<lambda>(r, bs).
     if r = -1 then Inr (i, s)
     else rbind (uartputc (uint (hd bs)) s) (consolewrite_loop m (i + 1) (uaddr_plus src 1)))"

definition consolewrite :: "uaddr \<Rightarrow> int \<Rightarrow> 'a condev_scheme \<Rightarrow> (int \<times> 'a condev_scheme) res" where
  "consolewrite src n s = consolewrite_loop (nat n) 0 src s"

text \<open>
  The loop of \<open>consoleread\<close> with \<open>m = n > 0\<close> bytes to go. The result is the number of bytes
  copied, or -1.
\<close>

fun consoleread_loop :: "nat \<Rightarrow> int \<Rightarrow> uaddr \<Rightarrow> 'a condev_scheme \<Rightarrow> (int \<times> 'a condev_scheme) res" where
  "consoleread_loop 0 target dst s = rbind (release_cons s) (\<lambda>s. Inr (target, s))"
| "consoleread_loop (Suc m) target dst s =
     (if c_r s = c_w s then
        if killed (cur s) then rbind (release_cons s) (\<lambda>s. Inr (-1, s))
        else Inl (Block ConsChan)
      else
        let c = cbuf s ! (unat (c_r s) mod INPUT_BUF);
            s = s\<lparr>c_r := c_r s + 1\<rparr>;
            n = int (Suc m) in
        if c = 4 then
          let s = (if n < target then s\<lparr>c_r := c_r s - 1\<rparr> else s) in
          rbind (release_cons s) (\<lambda>s. Inr (target - n, s))
        else
          rbind (either_copyout (pagetable (cur s)) dst [c] (umem s)) (\<lambda>(r, k).
          let s = s\<lparr>umem := k\<rparr> in
          if r = -1 then rbind (release_cons s) (\<lambda>s. Inr (target - n, s))
          else if c = 10 then rbind (release_cons s) (\<lambda>s. Inr (target - (n - 1), s))
          else consoleread_loop m target (uaddr_plus dst 1) s))"

definition consoleread :: "uaddr \<Rightarrow> int \<Rightarrow> 'a condev_scheme \<Rightarrow> (int \<times> 'a condev_scheme) res" where
  "consoleread dst n s =
     rbind (acquire_cons s) (\<lambda>s.
     if n \<le> 0 then rbind (release_cons s) (\<lambda>s. Inr (0, s))
     else consoleread_loop (nat n) n dst s)"

text \<open>Output changes nothing but the registers of the device.\<close>

definition out_only :: "'a condev_scheme \<Rightarrow> 'a condev_scheme \<Rightarrow> bool" where
  "out_only s s' \<longleftrightarrow> (\<exists>l u. s' = s\<lparr>lsrs := l, uwrites := u\<rparr>)"

lemma out_only_trans: "out_only s t \<Longrightarrow> out_only t u \<Longrightarrow> out_only s u"
  by (fastforce simp: out_only_def)

lemma uartputc_sync_frame:
  assumes "uartputc_sync c s = Inr s'"
  shows "out_only s s'"
proof -
  from assms obtain ls where "s' = WriteReg THR (of_int c) (s\<lparr>lsrs := ls\<rparr>)"
    by (auto simp: uartputc_sync_def split: if_splits list.splits)
  then have "s' = s\<lparr>lsrs := ls, uwrites := uwrites s @ [(THR, of_int c)]\<rparr>" by (simp add: WriteReg_def)
  then show ?thesis unfolding out_only_def by blast
qed

lemma consputc_frame:
  assumes "consputc c s = Inr s'"
  shows "out_only s s'"
proof (cases "c = BACKSPACE")
  case True
  with assms obtain t u where "uartputc_sync 8 s = Inr t" "uartputc_sync 32 t = Inr u" "uartputc_sync 8 u = Inr s'"
    by (auto simp: consputc_def)
  then show ?thesis by (blast dest: uartputc_sync_frame intro: out_only_trans)
next
  case False
  with assms show ?thesis by (simp add: consputc_def uartputc_sync_frame)
qed

text \<open>Control-U: erase to the start of the line.\<close>

function kill_line :: "'a condev_scheme \<Rightarrow> 'a condev_scheme res" where
  "kill_line s =
     (if c_e s \<noteq> c_w s \<and> cbuf s ! (unat (c_e s - 1) mod INPUT_BUF) \<noteq> 10 then
        rbind (consputc BACKSPACE (s\<lparr>c_e := c_e s - 1\<rparr>)) kill_line
      else Inr s)"
  by pat_completeness auto
termination
proof (relation "measure (\<lambda>s. unat (c_e s - c_w s))")
  fix s x :: "'a condev_scheme"
  assume c: "c_e s \<noteq> c_w s \<and> cbuf s ! (unat (c_e s - 1) mod INPUT_BUF) \<noteq> 10"
    and x: "consputc BACKSPACE (s\<lparr>c_e := c_e s - 1\<rparr>) = Inr x"
  from consputc_frame [OF x] obtain l u where "x = s\<lparr>c_e := c_e s - 1\<rparr>\<lparr>lsrs := l, uwrites := u\<rparr>"
    unfolding out_only_def by blast
  then have e: "c_e x = c_e s - 1" "c_w x = c_w s" by simp_all
  have "c_e s - c_w s \<noteq> 0" using c by simp
  then have "0 < unat (c_e s - c_w s)" by (simp add: unat_gt_0)
  moreover have "unat (c_e s - c_w s - 1) = unat (c_e s - c_w s) - 1"
    by (rule unat_minus_one) fact
  moreover have "c_e x - c_w x = c_e s - c_w s - 1" using e by simp
  ultimately show "(x, s) \<in> measure (\<lambda>s. unat (c_e s - c_w s))" by simp
qed simp

declare kill_line.simps [simp del]

text \<open>The switch of \<open>consoleintr\<close>; \<open>dump\<close> are the characters that \<open>procdump()\<close> prints.\<close>

definition cons_key :: "int list \<Rightarrow> int \<Rightarrow> 'a condev_scheme \<Rightarrow> 'a condev_scheme res" where
  "cons_key dump c s =
     (if c = 0x10 then for_each consputc dump s
      else if c = 0x15 then kill_line s
      else if c = 8 \<or> c = 0x7f then
        if c_e s \<noteq> c_w s then consputc BACKSPACE (s\<lparr>c_e := c_e s - 1\<rparr>) else Inr s
      else if c \<noteq> 0 \<and> unat (c_e s - c_r s) < INPUT_BUF then
        let c = (if c = 13 then 10 else c) in
        rbind (consputc c s) (\<lambda>s.
        let s = s\<lparr>cbuf := (cbuf s)[unat (c_e s) mod INPUT_BUF := of_int c]\<rparr>;
            s = s\<lparr>c_e := c_e s + 1\<rparr> in
        if c = 10 \<or> c = 4 \<or> c_e s = c_r s + of_nat INPUT_BUF then
          let s = s\<lparr>c_w := c_e s\<rparr> in
          Inr (s\<lparr>woken := woken s @ [ConsChan]\<rparr>)
        else Inr s)
      else Inr s)"

definition consoleintr :: "int list \<Rightarrow> int \<Rightarrow> 'a condev_scheme \<Rightarrow> 'a condev_scheme res" where
  "consoleintr dump c s =
     rbind (acquire_cons s) (\<lambda>s.
     rbind (cons_key dump c s) release_cons)"

definition consoleinit :: "'a condev_scheme \<Rightarrow> 'a condev_scheme" where
  "consoleinit s =
     (let s = uartinit (s\<lparr>conslock := False\<rparr>);
          s = s\<lparr>devread := (devread s)(CONSOLE := Some Consoleread)\<rparr>
      in s\<lparr>devwrite := (devwrite s)(CONSOLE := Some Consolewrite)\<rparr>)"

text \<open>
  The receive loop of \<open>uartintr\<close>. Every round reads LSR, so that \<open>Suc (length (lsrs s))\<close>
  rounds reach its end.
\<close>

fun uartintr_loop :: "nat \<Rightarrow> int list \<Rightarrow> 'a condev_scheme \<Rightarrow> 'a condev_scheme res" where
  "uartintr_loop 0 dump s = Inl Hang"
| "uartintr_loop (Suc n) dump s =
     (let (c, s) = uartgetc s in
      if c = -1 then Inr s
      else rbind (consoleintr dump c s) (uartintr_loop n dump))"

definition uartintr :: "int list \<Rightarrow> 'a condev_scheme \<Rightarrow> 'a condev_scheme res" where
  "uartintr dump s =
     rbind (uartintr_loop (Suc (length (lsrs s))) dump s) (\<lambda>s.
     rbind (acquire_tx s) (\<lambda>s.
     release_tx (uartstart s)))"

section \<open>printf\<close>

text \<open>A value of \<open>va_arg\<close>: an \<open>int\<close>, a \<open>uint64\<close>, or a string (null or its characters).\<close>

datatype parg = AInt u32 | APtr u64 | AStr "u8 list option"

definition digit :: "nat \<Rightarrow> int" where
  "digit d = (if d < 10 then 48 + int d else 87 + int d)"

text \<open>The characters that the do-loop of \<open>printint\<close> stores in \<open>buf\<close>, least digit first.\<close>

function int_digits :: "nat \<Rightarrow> nat \<Rightarrow> int list" where
  "int_digits base x =
     (if base < 2 then []
      else digit (x mod base) # (if x div base \<noteq> 0 then int_digits base (x div base) else []))"
  by pat_completeness auto
termination
  by (relation "measure snd") (auto intro!: div_less_dividend gr0I)

declare int_digits.simps [simp del]

definition printint :: "u32 \<Rightarrow> nat \<Rightarrow> bool \<Rightarrow> 'a condev_scheme \<Rightarrow> 'a condev_scheme res" where
  "printint xx base sign s =
     (let neg = (sign \<and> sint xx < 0) in
      if neg \<and> sint xx = - (2 ^ 31) then Inl (Undef ''-INT_MIN'')
      else
        let x = (if neg then - xx else xx);
            buf = int_digits base (unat x) @ (if neg then [45] else []) in
        for_each consputc (rev buf) s)"

definition printptr :: "u64 \<Rightarrow> 'a condev_scheme \<Rightarrow> 'a condev_scheme res" where
  "printptr x s =
     rbind (consputc 48 s) (\<lambda>s.
     rbind (consputc 120 s) (\<lambda>s.
     for_each (\<lambda>i. consputc (digit (unat (drop_bit 60 (push_bit (4 * i) x))))) [0..<16] s))"

definition null_text :: "u8 list" where
  "null_text = [40, 110, 117, 108, 108, 41]"

fun printf_loop :: "u8 list \<Rightarrow> parg list \<Rightarrow> 'a condev_scheme \<Rightarrow> 'a condev_scheme res" where
  "printf_loop [] ap s = Inr s"
| "printf_loop [c] ap s = (if c \<noteq> 37 then consputc (uint c) s else Inr s)"
| "printf_loop (c # d # fmt) ap s =
     (if c \<noteq> 37 then rbind (consputc (uint c) s) (printf_loop (d # fmt) ap)
      else if d = 100 \<or> d = 120 then
        (case ap of
           AInt x # ap \<Rightarrow> rbind (printint x (if d = 100 then 10 else 16) True s) (printf_loop fmt ap)
         | _ \<Rightarrow> Inl (Undef ''va_arg''))
      else if d = 112 then
        (case ap of
           APtr x # ap \<Rightarrow> rbind (printptr x s) (printf_loop fmt ap)
         | _ \<Rightarrow> Inl (Undef ''va_arg''))
      else if d = 115 then
        (case ap of
           AStr v # ap \<Rightarrow>
             let str = (case v of None \<Rightarrow> null_text | Some str \<Rightarrow> str) in
             rbind (for_each (\<lambda>c. consputc (uint c)) str s) (printf_loop fmt ap)
         | _ \<Rightarrow> Inl (Undef ''va_arg''))
      else if d = 37 then rbind (consputc 37 s) (printf_loop fmt ap)
      else rbind (consputc 37 s) (\<lambda>s. rbind (consputc (uint d) s) (printf_loop fmt ap)))"

definition printf :: "u8 list \<Rightarrow> parg list \<Rightarrow> 'a condev_scheme \<Rightarrow> 'a condev_scheme res" where
  "printf fmt ap s =
     (if prlocking s then
        rbind (spin_acquire (prlock s)) (\<lambda>h.
        rbind (printf_loop fmt ap (s\<lparr>prlock := h\<rparr>)) (\<lambda>s.
        rbind (spin_release (prlock s)) (\<lambda>h. Inr (s\<lparr>prlock := h\<rparr>))))
      else printf_loop fmt ap s)"

definition ascii :: "string \<Rightarrow> u8 list" where
  "ascii cs = map of_char cs"

text \<open>\<open>panic\<close>: the state in which it starts to spin.\<close>

definition panic :: "u8 list \<Rightarrow> 'a condev_scheme \<Rightarrow> 'a condev_scheme res" where
  "panic msg s =
     rbind (printf (ascii ''panic: '') [] (s\<lparr>prlocking := False\<rparr>)) (\<lambda>s.
     rbind (printf msg [] s) (\<lambda>s.
     rbind (printf [10] [] s) (\<lambda>s.
     Inr (s\<lparr>panicked := True\<rparr>))))"

definition printfinit :: "'a condev_scheme \<Rightarrow> 'a condev_scheme" where
  "printfinit s = s\<lparr>prlock := False, prlocking := True\<rparr>"

end
