(* ===== verification/Pipe.thy ===== *)
theory Pipe
  imports Console
begin

text \<open>
  The file table of kernel/file.c and kernel/pipe.c. A pointer to an open file is an index
  below \<open>NFILE\<close> (\<open>NFILE\<close> is null); a pointer to a pipe is the address of its page.

  A process that waits in a pipe gives up the lock and sleeps: \<open>Asleep ch i\<close> says so, with
  the channel and the number of bytes it has moved. What it does after a wakeup is
  \<open>pipewrite_resume\<close> and \<open>piperead_resume\<close>.
\<close>

section \<open>State\<close>

definition PIPESIZE :: nat where "PIPESIZE = 512"
definition NFILE :: nat where "NFILE = 100"
definition NDEV :: nat where "NDEV = 10"

datatype ftype = FD_NONE | FD_PIPE | FD_INODE | FD_DEVICE

record kfile =
  f_type :: ftype
  f_ref :: int
  f_readable :: bool
  f_writable :: bool
  f_pipe :: nat
  f_ip :: nat
  f_off :: u32
  f_major :: u16

record pipe =
  pi_lock :: bool
  pi_data :: "u8 list"
  nread :: u32
  nwrite :: u32
  readopen :: bool
  writeopen :: bool

record filest = condev +
  ftlock :: bool
  files :: "nat \<Rightarrow> kfile"
  pipes :: "nat \<Rightarrow> pipe"

datatype run = Done int | Asleep chan nat

definition set_file :: "nat \<Rightarrow> (kfile \<Rightarrow> kfile) \<Rightarrow> 'a filest_scheme \<Rightarrow> 'a filest_scheme" where
  "set_file f g s = s\<lparr>files := (files s)(f := g (files s f))\<rparr>"

definition set_pipe :: "nat \<Rightarrow> (pipe \<Rightarrow> pipe) \<Rightarrow> 'a filest_scheme \<Rightarrow> 'a filest_scheme" where
  "set_pipe a g s = s\<lparr>pipes := (pipes s)(a := g (pipes s a))\<rparr>"

definition acquire_ft :: "'a filest_scheme \<Rightarrow> 'a filest_scheme res" where
  "acquire_ft s = rbind (spin_acquire (ftlock s)) (\<lambda>h. Inr (s\<lparr>ftlock := h\<rparr>))"

definition release_ft :: "'a filest_scheme \<Rightarrow> 'a filest_scheme res" where
  "release_ft s = rbind (spin_release (ftlock s)) (\<lambda>h. Inr (s\<lparr>ftlock := h\<rparr>))"

definition acquire_pipe :: "nat \<Rightarrow> 'a filest_scheme \<Rightarrow> 'a filest_scheme res" where
  "acquire_pipe a s =
     rbind (spin_acquire (pi_lock (pipes s a))) (\<lambda>h. Inr (set_pipe a (\<lambda>p. p\<lparr>pi_lock := h\<rparr>) s))"

definition release_pipe :: "nat \<Rightarrow> 'a filest_scheme \<Rightarrow> 'a filest_scheme res" where
  "release_pipe a s =
     rbind (spin_release (pi_lock (pipes s a))) (\<lambda>h. Inr (set_pipe a (\<lambda>p. p\<lparr>pi_lock := h\<rparr>) s))"

definition wake :: "chan \<Rightarrow> 'a bcache_scheme \<Rightarrow> 'a bcache_scheme" where
  "wake ch s = s\<lparr>woken := woken s @ [ch]\<rparr>"

section \<open>The file table\<close>

definition fileinit :: "'a filest_scheme \<Rightarrow> 'a filest_scheme" where
  "fileinit s = s\<lparr>ftlock := False\<rparr>"

definition filealloc :: "'a filest_scheme \<Rightarrow> (nat \<times> 'a filest_scheme) res" where
  "filealloc s =
     rbind (acquire_ft s) (\<lambda>s.
     case find_idx (\<lambda>f. f_ref f = 0) (map (files s) [0..<NFILE]) of
       Some f \<Rightarrow> rbind (release_ft (set_file f (\<lambda>x. x\<lparr>f_ref := 1\<rparr>) s)) (\<lambda>s. Inr (f, s))
     | None \<Rightarrow> rbind (release_ft s) (\<lambda>s. Inr (NFILE, s)))"

definition filedup :: "nat \<Rightarrow> 'a filest_scheme \<Rightarrow> (nat \<times> 'a filest_scheme) res" where
  "filedup f s =
     rbind (acquire_ft s) (\<lambda>s.
     if f_ref (files s f) < 1 then Inl (Panic ''filedup'')
     else if f_ref (files s f) \<ge> 2 ^ 31 - 1 then Inl (Undef ''signed overflow'')
     else rbind (release_ft (set_file f (\<lambda>x. x\<lparr>f_ref := f_ref x + 1\<rparr>) s)) (\<lambda>s. Inr (f, s)))"

section \<open>Pipes\<close>

definition pipeclose :: "nat \<Rightarrow> bool \<Rightarrow> 'a filest_scheme \<Rightarrow> 'a filest_scheme res" where
  "pipeclose a writable s =
     rbind (acquire_pipe a s) (\<lambda>s.
     let s = (if writable then wake (PipeReadChan a) (set_pipe a (\<lambda>p. p\<lparr>writeopen := False\<rparr>) s)
              else wake (PipeWriteChan a) (set_pipe a (\<lambda>p. p\<lparr>readopen := False\<rparr>) s)) in
     if \<not> readopen (pipes s a) \<and> \<not> writeopen (pipes s a) then
       rbind (release_pipe a s) (\<lambda>s.
       rbind (kfree a (umem s)) (\<lambda>k. Inr (s\<lparr>umem := k\<rparr>)))
     else release_pipe a s)"

text \<open>\<open>data[nwrite++ % PIPESIZE] = ch\<close> and \<open>ch = data[nread++ % PIPESIZE]\<close>.\<close>

definition pipe_put :: "u8 \<Rightarrow> pipe \<Rightarrow> pipe" where
  "pipe_put ch p = p\<lparr>pi_data := (pi_data p)[unat (nwrite p) mod PIPESIZE := ch], nwrite := nwrite p + 1\<rparr>"

definition pipe_get :: "pipe \<Rightarrow> u8 \<times> pipe" where
  "pipe_get p = (pi_data p ! (unat (nread p) mod PIPESIZE), p\<lparr>nread := nread p + 1\<rparr>)"

definition pipewrite_end :: "nat \<Rightarrow> nat \<Rightarrow> 'a filest_scheme \<Rightarrow> (run \<times> 'a filest_scheme) res" where
  "pipewrite_end a i s = rbind (release_pipe a (wake (PipeReadChan a) s)) (\<lambda>s. Inr (Done (int i), s))"

text \<open>The loop of \<open>pipewrite\<close> with \<open>m = n - i\<close> bytes to go.\<close>

fun pipewrite_loop :: "nat \<Rightarrow> u64 \<Rightarrow> nat \<Rightarrow> nat \<Rightarrow> 'a filest_scheme \<Rightarrow> (run \<times> 'a filest_scheme) res" where
  "pipewrite_loop a addr 0 i s = pipewrite_end a i s"
| "pipewrite_loop a addr (Suc m) i s =
     (if \<not> readopen (pipes s a) \<or> killed (cur s) then
        rbind (release_pipe a s) (\<lambda>s. Inr (Done (-1), s))
      else if nwrite (pipes s a) = nread (pipes s a) + of_nat PIPESIZE then
        rbind (release_pipe a (wake (PipeReadChan a) s)) (\<lambda>s. Inr (Asleep (PipeWriteChan a) i, s))
      else
        rbind (copyin (pagetable (cur s)) (addr + of_nat i) 1 (umem s)) (\<lambda>(r, bs).
        if r = -1 then pipewrite_end a i s
        else pipewrite_loop a addr m (Suc i) (set_pipe a (pipe_put (hd bs)) s)))"

definition pipewrite_resume :: "nat \<Rightarrow> u64 \<Rightarrow> int \<Rightarrow> nat \<Rightarrow> 'a filest_scheme \<Rightarrow> (run \<times> 'a filest_scheme) res" where
  "pipewrite_resume a addr n i s = rbind (acquire_pipe a s) (pipewrite_loop a addr (nat n - i) i)"

definition pipewrite :: "nat \<Rightarrow> u64 \<Rightarrow> int \<Rightarrow> 'a filest_scheme \<Rightarrow> (run \<times> 'a filest_scheme) res" where
  "pipewrite a addr n s = pipewrite_resume a addr n 0 s"

definition piperead_end :: "nat \<Rightarrow> nat \<Rightarrow> 'a filest_scheme \<Rightarrow> (run \<times> 'a filest_scheme) res" where
  "piperead_end a i s = rbind (release_pipe a (wake (PipeWriteChan a) s)) (\<lambda>s. Inr (Done (int i), s))"

fun piperead_loop :: "nat \<Rightarrow> u64 \<Rightarrow> nat \<Rightarrow> nat \<Rightarrow> 'a filest_scheme \<Rightarrow> (run \<times> 'a filest_scheme) res" where
  "piperead_loop a addr 0 i s = piperead_end a i s"
| "piperead_loop a addr (Suc m) i s =
     (if nread (pipes s a) = nwrite (pipes s a) then piperead_end a i s
      else
        let (ch, p) = pipe_get (pipes s a);
            s = set_pipe a (\<lambda>_. p) s in
        rbind (copyout (pagetable (cur s)) (addr + of_nat i) [ch] (umem s)) (\<lambda>(r, k).
        let s = s\<lparr>umem := k\<rparr> in
        if r = -1 then piperead_end a i s else piperead_loop a addr m (Suc i) s))"

definition piperead :: "nat \<Rightarrow> u64 \<Rightarrow> int \<Rightarrow> 'a filest_scheme \<Rightarrow> (run \<times> 'a filest_scheme) res" where
  "piperead a addr n s =
     rbind (acquire_pipe a s) (\<lambda>s.
     if nread (pipes s a) = nwrite (pipes s a) \<and> writeopen (pipes s a) then
       if killed (cur s) then rbind (release_pipe a s) (\<lambda>s. Inr (Done (-1), s))
       else rbind (release_pipe a s) (\<lambda>s. Inr (Asleep (PipeReadChan a) 0, s))
     else piperead_loop a addr (nat n) 0 s)"

text \<open>A reader that has slept tests again and starts to copy only then.\<close>

abbreviation piperead_resume :: "nat \<Rightarrow> u64 \<Rightarrow> int \<Rightarrow> 'a filest_scheme \<Rightarrow> (run \<times> 'a filest_scheme) res" where
  "piperead_resume \<equiv> piperead"

end
