(* ===== verification/Samples.thy ===== *)
theory Samples
  imports Pipe Logging Pagetable
begin

text \<open>
  A concrete state of the file system and the devices, at which the properties of the later
  theories are applied: a disk with contents \<open>D\<close> and a log at block 2, an open transaction, a
  process with one page of memory, all devices idle.
\<close>

definition bss_inode :: inode where
  "bss_inode = \<lparr>idev = 0, inum = 0, iref = 0, ilk = \<lparr>slk = False, slocked = False, spid = 0\<rparr>, ivalid = False,
     itype = 0, imajor = 0, iminor = 0, nlink = 0, isize = 0, addrs = replicate 13 0\<rparr>"

definition bss_file :: kfile where
  "bss_file = \<lparr>f_type = FD_NONE, f_ref = 0, f_readable = False, f_writable = False, f_pipe = 0, f_ip = 0, f_off = 0, f_major = 0\<rparr>"

definition empty_pipe :: pipe where
  "empty_pipe =
     \<lparr>pi_lock = False, pi_data = replicate PIPESIZE 0, nread = 0, nwrite = 0, readopen = True, writeopen = True\<rparr>"

definition sample_logst :: "(u32 \<Rightarrow> u8 list) \<Rightarrow> logst" where
  "sample_logst D = (binit (fresh D))\<lparr>lstart := 2, lsize := 30, ldev := 1, outstanding := 1\<rparr>"

definition sample_io :: "(u32 \<Rightarrow> u8 list) \<Rightarrow> filest" where
  "sample_io D = logst.extend (sample_logst D)
     \<lparr>sb = sample_sb, itlock = False, inodes = (\<lambda>_. bss_inode), umem = sample_kmem,
      cur = bss_proc\<lparr>pid := 1, pagetable := sample_root\<rparr>,
      lsrs = [], rhrs = [], uwrites = [], txlock = False, tx_buf = replicate UART_TX_BUF_SIZE 0, tx_w = 0, tx_r = 0,
      panicked = False, conslock = False, cbuf = replicate INPUT_BUF 0, c_r = 0, c_w = 0, c_e = 0,
      prlock = False, prlocking = True, devread = (\<lambda>_. None), devwrite = (\<lambda>_. None),
      ftlock = False, files = (\<lambda>_. bss_file), pipes = (\<lambda>_. empty_pipe)\<rparr>"

lemma extend_sel:
  "bclock (logst.extend s m) = bclock s" "bufs (logst.extend s m) = bufs s" "disk (logst.extend s m) = disk s"
  "loglock (logst.extend s m) = loglock s" "lstart (logst.extend s m) = lstart s" "lsize (logst.extend s m) = lsize s"
  "outstanding (logst.extend s m) = outstanding s" "ldev (logst.extend s m) = ldev s" "lhn (logst.extend s m) = lhn s"
  "lhblock (logst.extend s m) = lhblock s" "committing (logst.extend s m) = committing s"
  by (simp_all add: logst.extend_def)

lemma txn_ok_extend: "txn_ok p d H P (logst.extend s m) = txn_ok p d H P s"
  by (simp add: txn_ok_def bio_ok_def log_geo_def logged_def logarea_def loghead_def extend_sel)

lemma content_extend: "content d (logst.extend s m) = content d s"
  by (simp add: content_def fun_eq_iff extend_sel split: option.split)

lemma sample_io_sel:
  "sb (sample_io D) = sample_sb" "itlock (sample_io D) = False" "inodes (sample_io D) = (\<lambda>_. bss_inode)"
  "umem (sample_io D) = sample_kmem" "cur (sample_io D) = bss_proc\<lparr>pid := 1, pagetable := sample_root\<rparr>"
  "pipes (sample_io D) = (\<lambda>_. empty_pipe)" "files (sample_io D) = (\<lambda>_. bss_file)" "ftlock (sample_io D) = False"
  "lsrs (sample_io D) = []" "uwrites (sample_io D) = []" "txlock (sample_io D) = False" "tx_w (sample_io D) = 0" "tx_r (sample_io D) = 0"
  "tx_buf (sample_io D) = replicate UART_TX_BUF_SIZE 0" "panicked (sample_io D) = False" "conslock (sample_io D) = False"
  "cbuf (sample_io D) = replicate INPUT_BUF 0" "c_r (sample_io D) = 0" "c_w (sample_io D) = 0" "c_e (sample_io D) = 0"
  by (simp_all add: sample_io_def logst.extend_def)

lemma sample_io_ok:
  assumes "\<And>n. length (D n) = BSIZE" "get32 (D 2) 0 = 0"
  shows "txn_ok 1 1 {} {} (sample_io D)" "content 1 (sample_io D) = D" "disk (sample_io D) = D"
    "lstart (sample_io D) = 2" "lsize (sample_io D) = 30" "outstanding (sample_io D) = 1" "lhn (sample_io D) = 0"
proof -
  note f = fresh_ok [of 1 D, OF _ assms(1)]
  have io: "io_only (fresh D) (binit (fresh D))" by (rule f(4)) simp
  note fr = io_only_frame [OF io]
  have d: "disk (sample_logst D) = D" "bufs (sample_logst D) = bufs (binit (fresh D))" using f(3) by (simp_all add: sample_logst_def)
  have "bio_ok 1 1 {} {} (sample_logst D)" using f(1) [of 1] by (simp add: sample_logst_def)
  moreover have "log_geo (sample_logst D)" "logged (sample_logst D) = []"
    using fr by (simp_all add: log_geo_def logged_def sample_logst_def fresh_def LOGSIZE_def)
  ultimately have "txn_ok 1 1 {} {} (sample_logst D)"
    unfolding txn_ok_def using d assms(2) fr(8)
    by (simp add: sample_logst_def loghead_def LOGSIZE_def) (simp add: fresh_def)
  then show "txn_ok 1 1 {} {} (sample_io D)" unfolding sample_io_def txn_ok_extend .
  show "disk (sample_io D) = D" by (simp add: sample_io_def extend_sel d)
  have "content 1 (sample_logst D) = content 1 (binit (fresh D))" using f(3) by (simp add: content_def fun_eq_iff sample_logst_def)
  then show "content 1 (sample_io D) = D" unfolding sample_io_def content_extend using f(2) by simp
  show "lstart (sample_io D) = 2" "lsize (sample_io D) = 30" "outstanding (sample_io D) = 1" "lhn (sample_io D) = 0"
    using fr by (simp_all add: sample_io_def extend_sel sample_logst_def fresh_def)
qed

end
