(* ===== verification/Queues.thy ===== *)
theory Queues
  imports Samples
begin

text \<open>
  The ring buffer of kernel/pipe.c as a bounded queue: the interpretation of \<open>fifo\<close>, and what
  the loops over it do to the queue. Writing to a pipe appends the bytes of the caller's
  memory, in order, and reading takes them from the front.
\<close>

section \<open>Pipes\<close>

definition pipe_queue :: "'a pipe_scheme \<Rightarrow> u8 list" where
  "pipe_queue p = ring_queue PIPESIZE (pi_data p) (nread p) (nwrite p)"

definition pipe_ok :: "'a pipe_scheme \<Rightarrow> bool" where
  "pipe_ok p \<longleftrightarrow> ring_ok PIPESIZE (pi_data p) (nread p) (nwrite p)"

lemma pipe_full_iff: "pipe_ok p \<Longrightarrow> nwrite p = nread p + of_nat PIPESIZE \<longleftrightarrow> length (pipe_queue p) = PIPESIZE"
  unfolding pipe_ok_def pipe_queue_def by (rule ring_full_iff)

lemma pipe_empty_iff: "nread p = nwrite p \<longleftrightarrow> pipe_queue p = []"
  by (simp add: pipe_queue_def ring_queue_empty_iff)

interpretation pq: fifo pipe_queue PIPESIZE pipe_ok pipe_put pipe_get
proof unfold_locales
  fix p :: pipe and c
  assume ok: "pipe_ok p"
  then show "length (pipe_queue p) \<le> PIPESIZE" by (simp add: pipe_ok_def pipe_queue_def ring_ok_def)
  {
    assume "length (pipe_queue p) < PIPESIZE"
    then have "unat (nwrite p - nread p) < PIPESIZE" by (simp add: pipe_queue_def)
    note r = ring_put [OF ok [unfolded pipe_ok_def] this, of c]
    show "pipe_queue (pipe_put c p) = pipe_queue p @ [c]" "pipe_ok (pipe_put c p)"
      using r by (simp_all add: pipe_queue_def pipe_ok_def pipe_put_def)
  next
    assume "pipe_queue p \<noteq> []"
    then have "nread p \<noteq> nwrite p" by (simp add: pipe_empty_iff)
    note r = ring_get [OF ok [unfolded pipe_ok_def] this]
    show "pipe_queue p = fst (pipe_get p) # pipe_queue (snd (pipe_get p))" "pipe_ok (snd (pipe_get p))"
      using r by (simp_all add: pipe_queue_def pipe_ok_def pipe_get_def)
  }
qed

lemma new_queue:
  assumes "length (pi_data p) = PIPESIZE" "nread p = 0" "nwrite p = 0"
  shows "pipe_ok p" "pipe_queue p = []"
  using assms by (simp_all add: pipe_ok_def pipe_queue_def ring_ok_def ring_queue_def PIPESIZE_def)

text \<open>Locks and the other flags of a pipe are not part of the queue.\<close>

lemma pipe_flags [simp]:
  "pipe_queue (p\<lparr>pi_lock := h\<rparr>) = pipe_queue p" "pipe_ok (p\<lparr>pi_lock := h\<rparr>) = pipe_ok p"
  by (simp_all add: pipe_queue_def pipe_ok_def)

lemma set_pipe_sel [simp]:
  "pipes (set_pipe a g s) = (pipes s)(a := g (pipes s a))" "umem (set_pipe a g s) = umem s" "cur (set_pipe a g s) = cur s"
  by (simp_all add: set_pipe_def)

lemma wake_sel [simp]: "pipes (wake ch s) = pipes s" "umem (wake ch s) = umem s" "cur (wake ch s) = cur s"
  for s :: "'a filest_scheme"
  by (simp_all add: wake_def)

lemma set_umem_sel [simp]: "pipes (s\<lparr>umem := k\<rparr>) = pipes s" "cur (s\<lparr>umem := k\<rparr>) = cur s" for s :: "'a filest_scheme"
  by simp_all

text \<open>One byte of user memory.\<close>

lemma ubyte_None_iff: "ubyte m pt va = None \<longleftrightarrow> user_page m pt va = None"
  by (auto simp: ubyte_def split: option.splits)

lemma mapped_one: "mapped m pt va (Suc 0) \<longleftrightarrow> ubyte m pt va \<noteq> None"
  unfolding ubyte_None_iff by (rule mapped_page) (simp_all add: PGSIZE_def Suc_le_eq)

lemma copyin_byte:
  assumes "user_ok k ps pt"
  shows "ubyte (ram k) pt va = Some c \<Longrightarrow> \<exists>bs. copyin pt va 1 k = Inr (0, bs) \<and> hd bs = c"
    "ubyte (ram k) pt va = None \<Longrightarrow> \<exists>bs. copyin pt va 1 k = Inr (-1, bs)"
proof -
  from copyin_ok [OF assms, of 1 va] obtain bs where
    c: "copyin pt va 1 k = Inr (if ubyte (ram k) pt va \<noteq> None then 0 else -1, bs)"
      "ubyte (ram k) pt va \<noteq> None \<longrightarrow> fetched (ram k) pt va 1 bs" by (auto simp: mapped_one)
  show "\<exists>bs. copyin pt va 1 k = Inr (-1, bs)" if "ubyte (ram k) pt va = None" using c(1) that by simp
  show "\<exists>bs. copyin pt va 1 k = Inr (0, bs) \<and> hd bs = c" if u: "ubyte (ram k) pt va = Some c"
  proof -
    have f: "length bs = 1" "\<forall>vb. dist va vb < 1 \<longrightarrow> ubyte (ram k) pt vb = Some (bs ! dist va vb)"
      using c(2) u by (simp_all add: fetched_def)
    have "dist va va = 0" by (simp add: dist_def)
    with f(2) u have "bs ! 0 = c" by (metis less_one option.inject)
    with f(1) c(1) u show ?thesis by (cases bs) auto
  qed
qed

lemma copyout_byte:
  assumes "user_ok k ps pt"
  shows "\<exists>k'. copyout pt va [c] k = Inr (if ubyte (ram k) pt va = None then -1 else 0, k') \<and> user_ok k' ps pt \<and>
    (\<forall>vb. vb \<noteq> va \<longrightarrow> ubyte (ram k') pt vb = ubyte (ram k) pt vb) \<and>
    ubyte (ram k') pt va = (if ubyte (ram k) pt va = None then None else Some c)"
proof -
  have d: "1 \<le> dist va vb \<longleftrightarrow> vb \<noteq> va" for vb by (auto simp: dist_def Suc_le_eq unat_gt_0)
  obtain r k' where c: "copyout pt va [c] k = Inr (r, k')" "copied pt ps va [c] k r k'"
    using copyout_ok [OF assms, of "[c]" va] by auto
  note f = c(2) [unfolded copied_def]
  have r: "r = (if ubyte (ram k) pt va = None then -1 else 0)" using f by (simp add: mapped_one)
  have o: "ubyte (ram k') pt vb = ubyte (ram k) pt vb" if "vb \<noteq> va" for vb
    using f d [of vb] that by simp
  have "dist va va = 0" by (simp add: dist_def)
  moreover have "user_page (ram k') pt va = user_page (ram k) pt va" using f by blast
  ultimately have "ubyte (ram k') pt va = (if ubyte (ram k) pt va = None then None else Some c)"
    using f r by (auto simp: ubyte_None_iff)
  with c(1) f r o show ?thesis by auto
qed

text \<open>The memory that the process sees.\<close>

definition umemory :: "'a filest_scheme \<Rightarrow> u64 \<Rightarrow> u8 option" where
  "umemory s = ubyte (ram (umem s)) (pagetable (cur s))"

abbreviation umem_ok :: "nat list \<Rightarrow> 'a filest_scheme \<Rightarrow> bool" where
  "umem_ok ps s \<equiv> user_ok (umem s) ps (pagetable (cur s))"

lemma umemory_cong [simp]: "umemory (set_pipe a g s) = umemory s" "umemory (wake ch s) = umemory s"
  by (simp_all add: umemory_def)

lemma release_pipe_ok:
  assumes "pi_lock (pipes s a)"
  shows "\<exists>s'. release_pipe a s = Inr s' \<and> pipes s' a = (pipes s a)\<lparr>pi_lock := False\<rparr> \<and> umem s' = umem s \<and> cur s' = cur s"
  using assms by (simp add: release_pipe_def spin_release_def)

lemma acquire_pipe_ok:
  assumes "\<not> pi_lock (pipes s a)"
  shows "\<exists>s'. acquire_pipe a s = Inr s' \<and> pipes s' a = (pipes s a)\<lparr>pi_lock := True\<rparr> \<and> umem s' = umem s \<and> cur s' = cur s"
  using assms by (simp add: acquire_pipe_def spin_acquire_def)

text \<open>
  What a part of \<open>pipewrite\<close> does that has to write \<open>m\<close> bytes from \<open>addr\<close> on and has written \<open>i\<close>
  before: it appends bytes of the caller's memory in order. It ends because the reader is
  gone or the process is killed, because all is written or the next byte is not mapped, or
  it sleeps because the pipe is full.
\<close>

definition pipe_wrote :: "nat \<Rightarrow> u64 \<Rightarrow> nat \<Rightarrow> nat \<Rightarrow> 'a filest_scheme \<Rightarrow> run \<Rightarrow> 'a filest_scheme \<Rightarrow> u8 list \<Rightarrow> bool" where
  "pipe_wrote a addr m i s r s' bs \<longleftrightarrow>
     pipe_queue (pipes s' a) = pipe_queue (pipes s a) @ bs \<and> pipe_ok (pipes s' a) \<and> \<not> pi_lock (pipes s' a) \<and>
     umem s' = umem s \<and> cur s' = cur s \<and> length bs \<le> m \<and>
     (\<forall>k < length bs. umemory s (addr + of_nat (i + k)) = Some (bs ! k)) \<and>
     (r = Done (-1) \<and> bs = [] \<and> (\<not> readopen (pipes s a) \<or> killed (cur s)) \<or>
      r = Done (int (i + length bs)) \<and> (length bs = m \<or> umemory s (addr + of_nat (i + length bs)) = None) \<or>
      r = Asleep (PipeWriteChan a) (i + length bs) \<and> length (pipe_queue (pipes s' a)) = PIPESIZE)"

lemma pipe_wrote_nothing:
  assumes "pipe_ok (pipes s a)" "pi_lock (pipes s a)"
    and "r = Done (-1) \<and> (\<not> readopen (pipes s a) \<or> killed (cur s)) \<or>
      r = Done (int i) \<and> (m = 0 \<or> umemory s (addr + of_nat i) = None) \<or>
      r = Asleep (PipeWriteChan a) i \<and> length (pipe_queue (pipes s a)) = PIPESIZE"
  shows "\<exists>s'. release_pipe a (wake ch s) = Inr s' \<and> pipe_wrote a addr m i s r s' []"
    "\<exists>s'. release_pipe a s = Inr s' \<and> pipe_wrote a addr m i s r s' []"
  using release_pipe_ok [of "wake ch s" a] release_pipe_ok [of s a] assms by (auto simp: pipe_wrote_def)

lemma pipe_wrote_Cons:
  assumes "pipe_wrote a addr m (Suc i) (set_pipe a (pipe_put c) s) r s' bs" "umemory s (addr + of_nat i) = Some c"
    and "pipe_queue (pipe_put c (pipes s a)) = pipe_queue (pipes s a) @ [c]"
    and "readopen (pipes s a)" "\<not> killed (cur s)"
  shows "pipe_wrote a addr (Suc m) i s r s' (c # bs)"
proof -
  have w: "pipe_queue (pipes s' a) = pipe_queue (pipe_put c (pipes s a)) @ bs" "pipe_ok (pipes s' a)" "\<not> pi_lock (pipes s' a)"
      "umem s' = umem s" "cur s' = cur s" "length bs \<le> m"
      "\<forall>k < length bs. umemory s (addr + of_nat (Suc i + k)) = Some (bs ! k)"
    and r: "r = Done (-1) \<and> bs = [] \<and> (\<not> readopen (pipe_put c (pipes s a)) \<or> killed (cur s)) \<or>
      r = Done (int (Suc i + length bs)) \<and> (length bs = m \<or> umemory s (addr + of_nat (Suc i + length bs)) = None) \<or>
      r = Asleep (PipeWriteChan a) (Suc i + length bs) \<and> length (pipe_queue (pipes s' a)) = PIPESIZE"
    using assms(1) unfolding pipe_wrote_def umemory_cong set_pipe_sel fun_upd_same by - (elim conjE, assumption)+
  have "umemory s (addr + of_nat (i + k)) = Some ((c # bs) ! k)" if "k < length (c # bs)" for k
  proof (cases k)
    case 0
    then show ?thesis using assms(2) by simp
  next
    case (Suc l)
    then show ?thesis using w(7) that by (metis add_Suc_shift Suc_less_eq length_Cons nth_Cons_Suc)
  qed
  moreover have "readopen (pipe_put c (pipes s a))" using assms(4) by (simp add: pipe_put_def)
  ultimately show ?thesis unfolding pipe_wrote_def length_Cons add_Suc_right using w(1-6) r assms(3,5)
    by (intro conjI) (auto simp del: of_nat_add of_nat_Suc)
qed

lemma pipewrite_loop_ok:
  assumes "pipe_ok (pipes s a)" "pi_lock (pipes s a)" "umem_ok ps s"
  shows "\<exists>r s' bs. pipewrite_loop a addr m i s = Inr (r, s') \<and> pipe_wrote a addr m i s r s' bs"
  using assms
proof (induction m arbitrary: i s)
  case 0
  then show ?case
    using pipe_wrote_nothing(1) [OF 0(1,2), where r = "Done (int i)" and i = i and m = 0 and ch = "PipeReadChan a" and addr = addr]
    by (auto simp: pipewrite_end_def)
next
  case (Suc m)
  note ok = Suc.prems(1) and n = pipe_wrote_nothing [OF Suc.prems(1,2), where i = i and m = "Suc m" and addr = addr]
  consider (closed) "\<not> readopen (pipes s a) \<or> killed (cur s)"
    | (full) "readopen (pipes s a)" "\<not> killed (cur s)" "nwrite (pipes s a) = nread (pipes s a) + of_nat PIPESIZE"
    | (room) "readopen (pipes s a)" "\<not> killed (cur s)" "nwrite (pipes s a) \<noteq> nread (pipes s a) + of_nat PIPESIZE" by blast
  then show ?case
  proof cases
    case closed
    then show ?thesis using n(2) [where r = "Done (-1)"] by (auto; blast)
  next
    case full
    have "length (pipe_queue (pipes s a)) = PIPESIZE" using pipe_full_iff [OF ok] full(3) by simp
    with full show ?thesis
      using n(1) [where r = "Asleep (PipeWriteChan a) i" and ch = "PipeReadChan a"] by (auto; blast)
  next
    case room
    show ?thesis
    proof (cases "umemory s (addr + of_nat i)")
      case None
      then obtain bs where "copyin (pagetable (cur s)) (addr + of_nat i) 1 (umem s) = Inr (-1, bs)"
        using copyin_byte(2) [OF Suc.prems(3)] by (auto simp: umemory_def)
      with room None show ?thesis
        using n(1) [where r = "Done (int i)" and ch = "PipeReadChan a"] by (auto simp: pipewrite_end_def; blast)
    next
      case (Some c)
      then obtain bs where c: "copyin (pagetable (cur s)) (addr + of_nat i) 1 (umem s) = Inr (0, bs)" "hd bs = c"
        using copyin_byte(1) [OF Suc.prems(3)] by (auto simp: umemory_def)
      let ?s = "set_pipe a (pipe_put c) s"
      have l: "length (pipe_queue (pipes s a)) < PIPESIZE"
        using pq.bounded [OF ok] pipe_full_iff [OF ok] room(3) by simp
      note p = pq.put_queue [OF ok l, of c] pq.put_good [OF ok l, of c]
      have "pi_lock (pipe_put c (pipes s a))" using Suc.prems(2) by (simp add: pipe_put_def)
      then obtain r s' cs where "pipewrite_loop a addr m (Suc i) ?s = Inr (r, s')" "pipe_wrote a addr m (Suc i) ?s r s' cs"
        using Suc.IH [of ?s "Suc i"] p(2) Suc.prems(3) by auto
      with pipe_wrote_Cons [OF this(2) Some p(1) room(1,2)] c room show ?thesis by auto
    qed
  qed
qed

text \<open>
  What \<open>piperead\<close> does with \<open>m\<close> bytes to read to \<open>addr\<close>: it takes bytes from the front of the
  queue and stores them in the caller's memory in order. It stops when the pipe is empty;
  when a byte cannot be stored, that byte is lost.
\<close>

definition pipe_took :: "nat \<Rightarrow> u64 \<Rightarrow> nat \<Rightarrow> nat \<Rightarrow> nat list \<Rightarrow> 'a filest_scheme \<Rightarrow> run \<Rightarrow> 'a filest_scheme \<Rightarrow> u8 list \<Rightarrow> u8 list \<Rightarrow> bool" where
  "pipe_took a addr m i ps s r s' bs lost \<longleftrightarrow>
     pipe_queue (pipes s a) = bs @ lost @ pipe_queue (pipes s' a) \<and> pipe_ok (pipes s' a) \<and> \<not> pi_lock (pipes s' a) \<and>
     umem_ok ps s' \<and> cur s' = cur s \<and> r = Done (int (i + length bs)) \<and> length bs \<le> m \<and>
     (\<forall>k < length bs. umemory s' (addr + of_nat (i + k)) = Some (bs ! k)) \<and>
     (\<forall>vb. (\<forall>k < length bs. vb \<noteq> addr + of_nat (i + k)) \<longrightarrow> umemory s' vb = umemory s vb) \<and>
     (lost = [] \<and> (length bs = m \<or> pipe_queue (pipes s' a) = []) \<or>
      length lost = 1 \<and> umemory s (addr + of_nat (i + length bs)) = None)"

lemma piperead_end_took:
  assumes "pipe_ok (pipes s a)" "pi_lock (pipes s a)" "umem_ok ps s" "m = 0 \<or> pipe_queue (pipes s a) = []"
  shows "\<exists>s'. piperead_end a i s = Inr (Done (int i), s') \<and> pipe_took a addr m i ps s (Done (int i)) s' [] []"
  using release_pipe_ok [of "wake (PipeWriteChan a) s" a] assms
  by (auto simp: piperead_end_def pipe_took_def umemory_def)

lemma offset_inj:
  assumes "i < 2 ^ 64" "j < 2 ^ 64"
  shows "(addr :: u64) + of_nat i = addr + of_nat j \<longleftrightarrow> i = j"
proof
  assume "addr + of_nat i = addr + of_nat j"
  then have "unat (of_nat i :: u64) = unat (of_nat j :: u64)" by simp
  with assms show "i = j" by (simp add: unat_of_nat)
qed simp

lemma pipe_took_Cons:
  assumes t: "pipe_took a addr m (Suc i) ps t r s' bs lost" and q: "pipe_queue (pipes s a) = c # pipe_queue (pipes t a)"
    and k: "umemory t (addr + of_nat i) = Some c" "umemory s (addr + of_nat i) \<noteq> None" "cur t = cur s"
    and o: "\<forall>vb. vb \<noteq> addr + of_nat i \<longrightarrow> umemory t vb = umemory s vb" and b: "i + Suc m < 2 ^ 64"
  shows "pipe_took a addr (Suc m) i ps s r s' (c # bs) lost"
proof -
  have f: "pipe_queue (pipes t a) = bs @ lost @ pipe_queue (pipes s' a)" "pipe_ok (pipes s' a)" "\<not> pi_lock (pipes s' a)"
      "umem_ok ps s'" "cur s' = cur t" "r = Done (int (Suc i + length bs))" "length bs \<le> m"
      "\<forall>k < length bs. umemory s' (addr + of_nat (Suc i + k)) = Some (bs ! k)"
    and fo: "\<forall>vb. (\<forall>k < length bs. vb \<noteq> addr + of_nat (Suc i + k)) \<longrightarrow> umemory s' vb = umemory t vb"
    and fl: "lost = [] \<and> (length bs = m \<or> pipe_queue (pipes s' a) = []) \<or>
      length lost = 1 \<and> umemory t (addr + of_nat (Suc i + length bs)) = None"
    using t unfolding pipe_took_def by - (elim conjE, assumption)+
  have ne: "addr + of_nat i \<noteq> addr + of_nat (Suc i + k)" if "k < Suc (length bs)" for k
    using that f(7) b by (subst offset_inj) auto
  have same: "umemory s' (addr + of_nat i) = umemory t (addr + of_nat i)"
    using ne by (intro fo [rule_format]) (meson less_SucI)
  have "umemory s' (addr + of_nat (i + j)) = Some ((c # bs) ! j)" if "j < length (c # bs)" for j
  proof (cases j)
    case 0
    then show ?thesis using same k(1) by simp
  next
    case (Suc l)
    then show ?thesis using f(8) that by (metis add_Suc_shift Suc_less_eq length_Cons nth_Cons_Suc)
  qed
  moreover have "umemory s' vb = umemory s vb" if v: "\<forall>j < length (c # bs). vb \<noteq> addr + of_nat (i + j)" for vb
  proof -
    have "vb \<noteq> addr + of_nat (Suc i + j)" if "j < length bs" for j
      using v [rule_format, of "Suc j"] that by (metis add_Suc_shift Suc_less_eq length_Cons)
    then have "umemory s' vb = umemory t vb" using fo by blast
    moreover have "vb \<noteq> addr + of_nat i" using v [rule_format, of 0] by simp
    ultimately show ?thesis using o by simp
  qed
  moreover have "umemory t (addr + of_nat (Suc i + length bs)) = umemory s (addr + of_nat (Suc i + length bs))"
    using o ne [of "length bs"] by (metis lessI)
  ultimately show ?thesis unfolding pipe_took_def length_Cons add_Suc_right using f(1-7) fl q k(3)
    by (intro conjI) (auto simp del: of_nat_add of_nat_Suc)
qed

lemma piperead_loop_ok:
  assumes "pipe_ok (pipes s a)" "pi_lock (pipes s a)" "umem_ok ps s" "i + m < 2 ^ 64"
  shows "\<exists>r s' bs lost. piperead_loop a addr m i s = Inr (r, s') \<and> pipe_took a addr m i ps s r s' bs lost"
  using assms
proof (induction m arbitrary: i s)
  case 0
  then show ?case using piperead_end_took [OF 0(1-3), of 0 i addr] by auto
next
  case (Suc m)
  note ok = Suc.prems(1)
  show ?case
  proof (cases "nread (pipes s a) = nwrite (pipes s a)")
    case True
    then show ?thesis using piperead_end_took [OF Suc.prems(1-3), of "Suc m" i addr] by (auto simp: pipe_empty_iff)
  next
    case False
    then have ne: "pipe_queue (pipes s a) \<noteq> []" by (simp add: pipe_empty_iff)
    obtain c p where g: "pipe_get (pipes s a) = (c, p)" by fastforce
    note q = pq.get_queue [OF ok ne, unfolded g prod.sel] pq.get_good [OF ok ne, unfolded g prod.sel]
    let ?va = "addr + of_nat i"
    obtain k where k: "copyout (pagetable (cur s)) ?va [c] (umem s) = Inr (if umemory s ?va = None then -1 else 0, k)"
        "user_ok k ps (pagetable (cur s))" "\<forall>vb. vb \<noteq> ?va \<longrightarrow> ubyte (ram k) (pagetable (cur s)) vb = umemory s vb"
        "ubyte (ram k) (pagetable (cur s)) ?va = (if umemory s ?va = None then None else Some c)"
      using copyout_byte [OF Suc.prems(3), of ?va c] unfolding umemory_def by blast
    let ?t = "(set_pipe a (\<lambda>_. p) s)\<lparr>umem := k\<rparr>"
    have lk: "pi_lock p" using g Suc.prems(2) by (auto simp: pipe_get_def)
    have t: "pipes ?t a = p" "cur ?t = cur s" "umem_ok ps ?t" using k(2) by simp_all
    have ut: "umemory ?t vb = ubyte (ram k) (pagetable (cur s)) vb" for vb by (simp add: umemory_def)
    show ?thesis
    proof (cases "umemory s ?va = None")
      case True
      then have e: "piperead_loop a addr (Suc m) i s = piperead_end a i ?t" using False g k(1) by simp
      obtain s' where s': "piperead_end a i ?t = Inr (Done (int i), s')" "pipe_took a addr 0 i ps ?t (Done (int i)) s' [] []"
        using piperead_end_took [of ?t a ps 0 i addr] q(2) lk t by auto
      have "umemory s' vb = umemory s vb" for vb
        using s'(2) k(3,4) True ut [of vb] by (cases "vb = ?va") (auto simp: pipe_took_def)
      then have "pipe_took a addr (Suc m) i ps s (Done (int i)) s' [] [c]"
        using s'(2) q(1) True t(1) by (auto simp: pipe_took_def)
      with e s'(1) show ?thesis by auto
    next
      case some: False
      then obtain d where "umemory s ?va = Some d" by blast
      then have e: "piperead_loop a addr (Suc m) i s = piperead_loop a addr m (Suc i) ?t" using False g k(1) by simp
      obtain r s' bs lost where r: "piperead_loop a addr m (Suc i) ?t = Inr (r, s')" "pipe_took a addr m (Suc i) ps ?t r s' bs lost"
        using Suc.IH [of ?t "Suc i"] q(2) lk t Suc.prems(4) by auto
      have "pipe_took a addr (Suc m) i ps s r s' (c # bs) lost"
      proof (rule pipe_took_Cons [OF r(2)])
        show "pipe_queue (pipes s a) = c # pipe_queue (pipes ?t a)" using q(1) t(1) by simp
        show "umemory ?t ?va = Some c" using ut k(4) some by simp
        show "\<forall>vb. vb \<noteq> ?va \<longrightarrow> umemory ?t vb = umemory s vb" using ut k(3) by simp
      qed (use some t Suc.prems(4) in simp_all)
      with e r(1) show ?thesis by metis
    qed
  qed
qed

lemma pipe_cong:
  assumes "pipes t a = (pipes s a)\<lparr>pi_lock := h\<rparr>" "umem t = umem s" "cur t = cur s"
  shows "pipe_wrote a addr m i t = pipe_wrote a addr m i s" "pipe_took a addr m i ps t = pipe_took a addr m i ps s"
  by (simp_all add: fun_eq_iff pipe_wrote_def pipe_took_def umemory_def assms)

text \<open>A pipe with three bytes in it, and the memory of the sample process.\<close>

abbreviation zero_disk :: "u32 \<Rightarrow> u8 list" where
  "zero_disk \<equiv> \<lambda>_. replicate BSIZE 0"

definition sample_pipe :: pipe where
  "sample_pipe = fold pipe_put [1, 2, 3] empty_pipe"

lemma sample_pipe_ok:
  "pipe_ok empty_pipe" "pipe_queue empty_pipe = []" "pipe_ok sample_pipe" "pipe_queue sample_pipe = [1, 2, 3]" "\<not> pi_lock sample_pipe"
proof -
  show e: "pipe_ok empty_pipe" "pipe_queue empty_pipe = []" by (rule new_queue; simp add: empty_pipe_def)+
  show "pipe_ok sample_pipe" "pipe_queue sample_pipe = [1, 2, 3]"
    unfolding sample_pipe_def using pq.put_many [OF e(1), of "[1, 2, 3]"] e(2) by (simp_all add: PIPESIZE_def)
  show "\<not> pi_lock sample_pipe" by (simp add: sample_pipe_def pipe_put_def empty_pipe_def)
qed

lemma sample_umemory: "x < 4096 \<Longrightarrow> umemory (sample_io D) x \<noteq> None"
  by (simp add: umemory_def sample_io_sel ubyte_None_iff sample_kmem_def sample_user_page word_less_nat_alt)

lemma sample_umem_ok: "umem_ok [] (sample_io D)"
  by (simp add: sample_io_sel sample_user_ok)



text \<open>
  C27: Reading from a pipe. \<open>piperead\<close> takes bytes from the front of the queue, in order, stores
  them at \<open>addr\<close> and changes no other byte that the process sees; it reports how many. It
  reads \<open>n\<close> bytes unless the pipe becomes empty or a byte cannot be stored, and then that
  byte is lost. On an empty pipe whose write end is open it sleeps, or returns -1 if
  the process is killed, and leaves the pipe as it is.
\<close>
theorem piperead_takes:
  assumes "pipe_ok (pipes s a)" "\<not> pi_lock (pipes s a)" "umem_ok ps s" "n < 2 ^ 31"
  shows "if pipe_queue (pipes s a) = [] \<and> writeopen (pipes s a)
    then \<exists>s'. piperead a addr n s = Inr (if killed (cur s) then Done (-1) else Asleep (PipeReadChan a) 0, s') \<and> pipes s' a = pipes s a
    else \<exists>r s' bs lost. piperead a addr n s = Inr (r, s') \<and> pipe_took a addr (nat n) 0 ps s r s' bs lost"
proof -
  obtain t where t: "acquire_pipe a s = Inr t" "pipes t a = (pipes s a)\<lparr>pi_lock := True\<rparr>" "umem t = umem s" "cur t = cur s"
    using acquire_pipe_ok [OF assms(2)] by blast
  have e: "nread (pipes t a) = nwrite (pipes t a) \<longleftrightarrow> pipe_queue (pipes s a) = []" using t(2) by (simp add: pipe_empty_iff [symmetric])
  have w: "writeopen (pipes t a) = writeopen (pipes s a)" using t(2) by simp
  show ?thesis
  proof (cases "pipe_queue (pipes s a) = [] \<and> writeopen (pipes s a)")
    case True
    obtain s' where "release_pipe a t = Inr s'" "pipes s' a = pipes s a"
      using release_pipe_ok [of t a] t(2) assms(2) by auto
    with True t e w show ?thesis by (auto simp: piperead_def)
  next
    case False
    have "0 + nat n < 2 ^ 64" using assms(4) by auto
    then obtain r s' bs lost where "piperead_loop a addr (nat n) 0 t = Inr (r, s')" "pipe_took a addr (nat n) 0 ps t r s' bs lost"
      using piperead_loop_ok [of t a ps 0 "nat n" addr] assms t by auto
    moreover from this(2) have "pipe_took a addr (nat n) 0 ps s r s' bs lost"
      by (simp add: pipe_cong [OF t(2-4)])
    moreover have "piperead a addr n s = piperead_loop a addr (nat n) 0 t" using False t(1) e w by (auto simp: piperead_def)
    ultimately show ?thesis unfolding if_not_P [OF False] by metis
  qed
qed

theorem piperead_takes_witness:
  "\<exists>s'. piperead 0 10 2 ((sample_io zero_disk)\<lparr>pipes := \<lambda>_. sample_pipe\<rparr>) = Inr (Done 2, s') \<and>
     pipe_queue (pipes s' 0) = [3] \<and> umemory s' 10 = Some 1 \<and> umemory s' 11 = Some 2"
proof -
  let ?s = "(sample_io zero_disk)\<lparr>pipes := \<lambda>_. sample_pipe\<rparr>"
  have u: "umemory ?s = umemory (sample_io zero_disk)" by (simp add: umemory_def)
  obtain r s' bs lost where r: "piperead 0 10 2 ?s = Inr (r, s')" and t: "pipe_took 0 10 (nat 2) 0 [] ?s r s' bs lost"
    using piperead_takes [of ?s 0 "[]" 2 10] sample_pipe_ok(3-5) sample_umem_ok by auto
  have q: "[1, 2, 3] = bs @ lost @ pipe_queue (pipes s' 0)" "length bs \<le> 2" "r = Done (int (length bs))"
      "\<forall>k < length bs. umemory s' (10 + of_nat k) = Some (bs ! k)"
    using t sample_pipe_ok(4) by (simp_all add: pipe_took_def)
  have "umemory ?s (10 + of_nat (0 + length bs)) \<noteq> None"
    unfolding u by (rule sample_umemory) (use q(2) in \<open>auto simp: word_less_nat_alt unat_word_ariths unat_of_nat\<close>)
  then have l: "lost = []" "length bs = 2 \<or> pipe_queue (pipes s' 0) = []" using t by (auto simp: pipe_took_def)
  have "length [1 :: u8, 2, 3] = length (bs @ lost @ pipe_queue (pipes s' 0))" by (simp only: q(1))
  with l q(2) have "length bs = 2" by auto
  then obtain x y where b: "bs = [x, y]" by (auto simp: numeral_2_eq_2 length_Suc_conv)
  with q(1) l(1) have "x = 1" "y = 2" "pipe_queue (pipes s' 0) = [3]" by simp_all
  moreover have "umemory s' 10 = Some x" "umemory s' 11 = Some y"
    using q(4) [rule_format, of 0] q(4) [rule_format, of 1] b by simp_all
  ultimately show ?thesis using r q(3) b by simp
qed

end
