(* ===== verification/Serial.thy ===== *)
theory Serial
  imports Samples
begin

text \<open>
  Correctness of kernel/uart.c, kernel/console.c and the number printing of kernel/printf.c:
  the transmit buffer is a bounded queue that leaves in order, the input buffer is a line
  editor, and a printed number reads back as the number.
\<close>

section \<open>The transmit buffer\<close>

definition tx_queue :: "'a condev_scheme \<Rightarrow> u8 list" where
  "tx_queue s = ring_queue UART_TX_BUF_SIZE (tx_buf s) (tx_r s) (tx_w s)"

definition tx_ok :: "'a condev_scheme \<Rightarrow> bool" where
  "tx_ok s \<longleftrightarrow> ring_ok UART_TX_BUF_SIZE (tx_buf s) (tx_r s) (tx_w s)"

text \<open>The two lines of \<open>uartputc\<close> and of \<open>uartstart\<close> that move a character.\<close>

definition tx_put :: "u8 \<Rightarrow> 'a condev_scheme \<Rightarrow> 'a condev_scheme" where
  "tx_put c s = (s\<lparr>tx_buf := (tx_buf s)[unat (tx_w s) mod UART_TX_BUF_SIZE := c]\<rparr>)\<lparr>tx_w := tx_w s + 1\<rparr>"

definition tx_get :: "'a condev_scheme \<Rightarrow> u8 \<times> 'a condev_scheme" where
  "tx_get s = (tx_buf s ! (unat (tx_r s) mod UART_TX_BUF_SIZE), s\<lparr>tx_r := tx_r s + 1\<rparr>)"

lemma tx_full_iff: "tx_ok s \<Longrightarrow> tx_w s = tx_r s + of_nat UART_TX_BUF_SIZE \<longleftrightarrow> length (tx_queue s) = UART_TX_BUF_SIZE"
  unfolding tx_ok_def tx_queue_def by (rule ring_full_iff)

lemma tx_empty_iff: "tx_w s = tx_r s \<longleftrightarrow> tx_queue s = []"
  by (auto simp: tx_queue_def ring_queue_empty_iff)

interpretation tq: fifo tx_queue UART_TX_BUF_SIZE tx_ok tx_put tx_get
proof unfold_locales
  fix s :: "'a condev_scheme" and c
  assume ok: "tx_ok s"
  then show "length (tx_queue s) \<le> UART_TX_BUF_SIZE" by (simp add: tx_ok_def tx_queue_def ring_ok_def)
  {
    assume "length (tx_queue s) < UART_TX_BUF_SIZE"
    then have "unat (tx_w s - tx_r s) < UART_TX_BUF_SIZE" by (simp add: tx_queue_def)
    note r = ring_put [OF ok [unfolded tx_ok_def] this, of c]
    show "tx_queue (tx_put c s) = tx_queue s @ [c]" "tx_ok (tx_put c s)"
      using r by (simp_all add: tx_queue_def tx_ok_def tx_put_def)
  next
    assume "tx_queue s \<noteq> []"
    then have "tx_r s \<noteq> tx_w s" by (auto simp: tx_queue_def ring_queue_empty_iff)
    note r = ring_get [OF ok [unfolded tx_ok_def] this]
    show "tx_queue s = fst (tx_get s) # tx_queue (snd (tx_get s))" "tx_ok (snd (tx_get s))"
      using r by (simp_all add: tx_queue_def tx_ok_def tx_get_def)
  }
qed

definition idle :: "u8 \<Rightarrow> bool" where
  "idle l \<longleftrightarrow> l AND LSR_TX_IDLE \<noteq> 0"

text \<open>How many characters \<open>uartstart\<close> can send.\<close>

definition sendable :: "'a condev_scheme \<Rightarrow> nat" where
  "sendable s = min (length (tx_queue s)) (length (takeWhile idle (lsrs s)))"

lemma tx_cong [simp]:
  "tx_queue (s\<lparr>lsrs := x\<rparr>) = tx_queue s" "tx_ok (s\<lparr>lsrs := x\<rparr>) = tx_ok s"
  "tx_queue (s\<lparr>woken := y\<rparr>) = tx_queue s" "tx_ok (s\<lparr>woken := y\<rparr>) = tx_ok s"
  "tx_queue (s\<lparr>txlock := z\<rparr>) = tx_queue s" "tx_ok (s\<lparr>txlock := z\<rparr>) = tx_ok s"
  "tx_queue (WriteReg r v s) = tx_queue s" "tx_ok (WriteReg r v s) = tx_ok s"
  by (simp_all add: tx_queue_def tx_ok_def WriteReg_def)

lemma uartstart_step:
  assumes "tx_queue s \<noteq> []" "lsrs s = l # ls" "idle l"
  shows "uartstart s = uartstart (WriteReg THR (fst (tx_get s)) ((snd (tx_get (s\<lparr>lsrs := ls\<rparr>)))\<lparr>woken := woken s @ [UartChan]\<rparr>))"
proof -
  have "tx_w s \<noteq> tx_r s" using assms(1) by (simp add: tx_empty_iff)
  then show ?thesis using assms(2,3)
    by (subst uartstart.simps) (simp add: read_lsr_def idle_def tx_get_def Let_def)
qed

lemma uartstart_stop:
  assumes "tx_queue s = [] \<or> lsrs s = [] \<or> \<not> idle (hd (lsrs s))"
  shows "tx_queue (uartstart s) = tx_queue s" "tx_ok (uartstart s) = tx_ok s" "uwrites (uartstart s) = uwrites s"
    "txlock (uartstart s) = txlock s"
proof -
  have "uartstart s = s \<or> uartstart s = s\<lparr>lsrs := tl (lsrs s)\<rparr>"
    using assms by (subst (1 2) uartstart.simps) (auto simp: read_lsr_def idle_def tx_empty_iff split: list.splits)
  then show "tx_queue (uartstart s) = tx_queue s" "tx_ok (uartstart s) = tx_ok s" "uwrites (uartstart s) = uwrites s"
    "txlock (uartstart s) = txlock s" by auto
qed

lemma uartstart_ok:
  assumes "tx_ok s"
  shows "tx_ok (uartstart s) \<and> tx_queue (uartstart s) = drop (sendable s) (tx_queue s) \<and>
    uwrites (uartstart s) = uwrites s @ map (Pair THR) (take (sendable s) (tx_queue s)) \<and> txlock (uartstart s) = txlock s"
  using assms
proof (induction "length (lsrs s)" arbitrary: s)
  case 0
  then have "sendable s = 0" "lsrs s = []" by (simp_all add: sendable_def)
  with uartstart_stop [of s] 0(2) show ?case by simp
next
  case (Suc n)
  then obtain l ls where l: "lsrs s = l # ls" by (cases "lsrs s") auto
  show ?case
  proof (cases "tx_queue s = [] \<or> \<not> idle l")
    case True
    then have "sendable s = 0" using l by (auto simp: sendable_def)
    with uartstart_stop [of s] True Suc.prems l show ?thesis by simp
  next
    case False
    then have ne: "tx_queue s \<noteq> []" "idle l" by auto
    note g = tq.get_queue [OF Suc.prems ne(1)] tq.get_good [OF Suc.prems ne(1)]
    let ?t = "WriteReg THR (fst (tx_get s)) ((snd (tx_get (s\<lparr>lsrs := ls\<rparr>)))\<lparr>woken := woken s @ [UartChan]\<rparr>)"
    have f: "lsrs ?t = ls" "uwrites ?t = uwrites s @ [(THR, fst (tx_get s))]" "txlock ?t = txlock s"
        "tx_queue ?t = tx_queue (snd (tx_get s))" "tx_ok ?t"
      using g(2) by (simp_all add: WriteReg_def tx_get_def tx_ok_def tx_queue_def)
    have "sendable s = Suc (sendable ?t)"
      using l ne f g(1) by (simp add: sendable_def)
    moreover have "n = length (lsrs ?t)" using Suc.hyps(2) l f by simp
    ultimately show ?thesis
      using Suc.hyps(1) [OF _ f(5)] f uartstart_step [OF ne(1) l ne(2)] g(1)
      by (metis (no_types, lifting) append_Cons append_Nil append_assoc drop_Suc_Cons list.simps(9) take_Suc_Cons)
  qed
qed

text \<open>
  C29: The serial line is a bounded queue of 32 characters that the device drains in order.
  \<open>uartputc\<close> on a full buffer sleeps; otherwise it returns, with the character at the end of
  the queue: what has gone to the transmit register, followed by what is still in the buffer,
  is the old queue followed by the character.
\<close>
theorem uartputc_in_order:
  assumes "tx_ok s" "\<not> txlock s" "\<not> panicked s"
  shows "if length (tx_queue s) = UART_TX_BUF_SIZE then uartputc c s = Inl (Block UartChan)
    else \<exists>s' sent. uartputc c s = Inr s' \<and> tx_ok s' \<and> \<not> txlock s' \<and>
      uwrites s' = uwrites s @ map (Pair THR) sent \<and> sent @ tx_queue s' = tx_queue s @ [of_int c]"
proof -
  let ?s = "s\<lparr>txlock := True\<rparr>"
  have a: "acquire_tx s = Inr ?s" using assms(2) by (simp add: acquire_tx_def spin_acquire_def)
  have ok: "tx_ok ?s" using assms(1) by simp
  show ?thesis
  proof (cases "length (tx_queue s) = UART_TX_BUF_SIZE")
    case True
    then show ?thesis using tx_full_iff [OF assms(1)] a assms(3) by (simp add: uartputc_def)
  next
    case False
    then have l: "length (tx_queue ?s) < UART_TX_BUF_SIZE" using tq.bounded [OF ok] by simp
    note p = tq.put_queue [OF ok l, of "of_int c"] tq.put_good [OF ok l, of "of_int c"]
    let ?t = "tx_put (of_int c) ?s"
    note u = uartstart_ok [OF p(2)]
    have e: "uartputc c s = release_tx (uartstart ?t)"
      using a assms(3) False tx_full_iff [OF assms(1)] by (simp add: uartputc_def tx_put_def)
    have lk: "txlock (uartstart ?t)" using u by (simp add: tx_put_def)
    let ?u = "(uartstart ?t)\<lparr>txlock := False\<rparr>"
    have "uartputc c s = Inr ?u" using e lk by (simp add: release_tx_def spin_release_def)
    moreover have "tx_ok ?u" "\<not> txlock ?u" using u by simp_all
    moreover have "uwrites ?u = uwrites s @ map (Pair THR) (take (sendable ?t) (tx_queue ?t))"
      using u by (simp add: tx_put_def)
    moreover have "take (sendable ?t) (tx_queue ?t) @ tx_queue ?u = tx_queue s @ [of_int c]"
    proof -
      have "tx_queue ?u = drop (sendable ?t) (tx_queue ?t)" using u by simp
      then show ?thesis using p(1) by (simp only: append_take_drop_id tx_cong)
    qed
    ultimately show ?thesis unfolding if_not_P [OF False] by blast
  qed
qed

theorem uartputc_in_order_witness:
  "\<exists>s' sent. uartputc 65 (sample_io (\<lambda>_. replicate BSIZE 0)) = Inr s' \<and> uwrites s' = map (Pair THR) sent \<and> sent @ tx_queue s' = [65]"
proof -
  let ?s = "sample_io (\<lambda>_. replicate BSIZE 0)"
  have "tx_ok ?s" "tx_queue ?s = []"
    by (simp_all add: tx_ok_def tx_queue_def ring_ok_def ring_queue_def sample_io_sel UART_TX_BUF_SIZE_def)
  with uartputc_in_order [of ?s 65] show ?thesis by (auto simp: sample_io_sel UART_TX_BUF_SIZE_def)
qed

section \<open>Waiting for the device\<close>

text \<open>The number of coming reads of LSR that find the device idle.\<close>

definition idles :: "'a condev_scheme \<Rightarrow> nat" where
  "idles s = length (filter idle (lsrs s))"

lemma out_only_refl [simp]: "out_only s s"
  unfolding out_only_def by (rule exI [of _ "lsrs s"], rule exI [of _ "uwrites s"]) simp

lemma out_only_sel:
  assumes "out_only s s'"
  shows "panicked s' = panicked s" "conslock s' = conslock s" "cbuf s' = cbuf s" "c_r s' = c_r s" "c_w s' = c_w s" "c_e s' = c_e s"
    "woken s' = woken s"
  using assms by (auto simp: out_only_def)

lemma uartputc_sync_ok:
  assumes "\<not> panicked s" "0 < idles s"
  shows "\<exists>s'. uartputc_sync c s = Inr s' \<and> out_only s s' \<and> idles s = Suc (idles s') \<and> uwrites s' = uwrites s @ [(THR, of_int c)]"
proof -
  have d: "dropWhile (\<lambda>l. l AND LSR_TX_IDLE = 0) ls = dropWhile (\<lambda>l. \<not> idle l) ls" for ls by (simp add: idle_def)
  have f: "filter idle (dropWhile (\<lambda>l. \<not> idle l) ls) = filter idle ls" for ls by (induction ls) auto
  have "dropWhile (\<lambda>l. \<not> idle l) (lsrs s) \<noteq> []" using assms(2) by (auto simp: idles_def filter_empty_conv)
  then obtain l ls where l: "dropWhile (\<lambda>l. \<not> idle l) (lsrs s) = l # ls" by (cases "dropWhile (\<lambda>l. \<not> idle l) (lsrs s)") auto
  then have "idle l" by (auto simp: dropWhile_eq_Cons_conv)
  then have n: "idles s = Suc (length (filter idle ls))" unfolding idles_def f [of "lsrs s", symmetric] l by simp
  have e: "uartputc_sync c s = Inr (WriteReg THR (of_int c) (s\<lparr>lsrs := ls\<rparr>))"
    using assms(1) l by (simp add: uartputc_sync_def d)
  show ?thesis using uartputc_sync_frame [OF e] e n by (simp add: idles_def WriteReg_def)
qed

lemma consputc_ok:
  assumes p: "\<not> panicked s" and i: "3 \<le> idles s"
  shows "\<exists>s'. consputc c s = Inr s' \<and> out_only s s' \<and> idles s \<le> idles s' + 3"
proof (cases "c = BACKSPACE")
  case True
  obtain s1 where 1: "uartputc_sync 8 s = Inr s1" "out_only s s1" "idles s = Suc (idles s1)"
    using uartputc_sync_ok [OF p, of 8] i by auto
  obtain s2 where 2: "uartputc_sync 32 s1 = Inr s2" "out_only s1 s2" "idles s1 = Suc (idles s2)"
    using uartputc_sync_ok [of s1 32] p i 1 out_only_sel(1) [OF 1(2)] by auto
  obtain s3 where 3: "uartputc_sync 8 s2 = Inr s3" "out_only s2 s3" "idles s2 = Suc (idles s3)"
    using uartputc_sync_ok [of s2 8] p i 1 2 out_only_sel(1) [OF 1(2)] out_only_sel(1) [OF 2(2)] by auto
  have "out_only s s3" using 1(2) 2(2) 3(2) by (blast intro: out_only_trans)
  with 1 2 3 True show ?thesis by (auto simp: consputc_def)
next
  case False
  then show ?thesis using uartputc_sync_ok [OF p, of c] i by (auto simp: consputc_def)
qed

lemma puts_ok:
  assumes "\<not> panicked s" "3 * length cs \<le> idles s"
  shows "\<exists>s'. for_each consputc cs s = Inr s' \<and> out_only s s'"
  using assms
proof (induction cs arbitrary: s)
  case (Cons c cs)
  obtain t where t: "consputc c s = Inr t" "out_only s t" "idles s \<le> idles t + 3"
    using consputc_ok [of s c] Cons.prems by auto
  obtain s' where "for_each consputc cs t = Inr s'" "out_only t s'"
    using Cons.IH [of t] Cons.prems t out_only_sel(1) [OF t(2)] by auto
  with t show ?case by (auto intro: out_only_trans)
qed simp

section \<open>The line editor\<close>

text \<open>What has been typed: the lines that a reader may take, and the line that is being edited.\<close>

definition cons_typed :: "'a condev_scheme \<Rightarrow> u8 list" where
  "cons_typed s = ring_queue INPUT_BUF (cbuf s) (c_r s) (c_e s)"

definition cons_line :: "'a condev_scheme \<Rightarrow> u8 list" where
  "cons_line s = take (unat (c_w s - c_r s)) (cons_typed s)"

definition cons_edit :: "'a condev_scheme \<Rightarrow> u8 list" where
  "cons_edit s = drop (unat (c_w s - c_r s)) (cons_typed s)"

definition cons_ok :: "'a condev_scheme \<Rightarrow> bool" where
  "cons_ok s \<longleftrightarrow> ring_ok INPUT_BUF (cbuf s) (c_r s) (c_e s) \<and> unat (c_w s - c_r s) \<le> unat (c_e s - c_r s) \<and>
     10 \<notin> set (cons_edit s)"

lemma cons_lengths:
  assumes "cons_ok s"
  shows "length (cons_line s) = unat (c_w s - c_r s)" "length (cons_line s) + length (cons_edit s) = unat (c_e s - c_r s)"
    "unat (c_e s - c_r s) \<le> INPUT_BUF" "cons_typed s = cons_line s @ cons_edit s"
  using assms by (auto simp: cons_line_def cons_edit_def cons_typed_def cons_ok_def ring_ok_def)

lemma cons_edit_empty_iff:
  assumes "cons_ok s"
  shows "c_e s = c_w s \<longleftrightarrow> cons_edit s = []"
proof -
  have "c_e s = c_w s \<longleftrightarrow> unat (c_e s - c_r s) = unat (c_w s - c_r s)" by (simp add: word_unat_eq_iff [symmetric])
  also have "\<dots> \<longleftrightarrow> cons_edit s = []" using cons_lengths [OF assms] by auto
  finally show ?thesis .
qed

lemma cons_cong:
  assumes "cbuf s' = cbuf s" "c_r s' = c_r s" "c_w s' = c_w s" "c_e s' = c_e s"
  shows "cons_typed s' = cons_typed s" "cons_line s' = cons_line s" "cons_edit s' = cons_edit s" "cons_ok s' = cons_ok s"
  by (simp_all add: cons_typed_def cons_line_def cons_edit_def cons_ok_def assms)

lemma cons_out:
  assumes "out_only s s'"
  shows "cons_typed s' = cons_typed s" "cons_line s' = cons_line s" "cons_edit s' = cons_edit s" "cons_ok s' = cons_ok s"
  using cons_cong [of s' s] out_only_sel [OF assms] by simp_all

text \<open>One character back.\<close>

lemma cons_back:
  assumes ok: "cons_ok s" and ne: "cons_edit s \<noteq> []"
  shows "cons_ok (s\<lparr>c_e := c_e s - 1\<rparr>)" "cons_line (s\<lparr>c_e := c_e s - 1\<rparr>) = cons_line s"
    "cons_edit (s\<lparr>c_e := c_e s - 1\<rparr>) = butlast (cons_edit s)" "cbuf s ! (unat (c_e s - 1) mod INPUT_BUF) = last (cons_edit s)"
proof -
  let ?s = "s\<lparr>c_e := c_e s - 1\<rparr>"
  note l = cons_lengths [OF ok]
  have r: "ring_ok INPUT_BUF (cbuf s) (c_r s) (c_e s)" using ok by (simp add: cons_ok_def)
  have "c_r s \<noteq> c_e s" using l(2) ne by (metis add_is_0 length_0_conv unat_eq_zero right_minus_eq)
  note u = ring_unput [OF r this]
  have t: "cons_typed ?s = butlast (cons_typed s)" using u(1) by (simp add: cons_typed_def)
  have b: "butlast (cons_typed s) = cons_line s @ butlast (cons_edit s)" using l(4) ne by (simp add: butlast_append)
  show e: "cons_line ?s = cons_line s" "cons_edit ?s = butlast (cons_edit s)"
    unfolding cons_line_def [of ?s] cons_edit_def [of ?s] t b by (simp_all add: l(1))
  show "cons_ok ?s" using ok u(2,3) e(2) l ne unfolding cons_ok_def
    by (auto dest: in_set_butlastD simp flip: length_greater_0_conv)
  show "cbuf s ! (unat (c_e s - 1) mod INPUT_BUF) = last (cons_edit s)"
    using u(4) l(4) ne by (simp add: cons_typed_def)
qed

lemma kill_line_ok:
  assumes "cons_ok s" "\<not> panicked s" "3 * length (cons_edit s) \<le> idles s"
  shows "\<exists>s'. kill_line s = Inr s' \<and> cons_ok s' \<and> cons_line s' = cons_line s \<and> cons_edit s' = [] \<and>
    conslock s' = conslock s \<and> woken s' = woken s"
  using assms
proof (induction "length (cons_edit s)" arbitrary: s)
  case 0
  then have "c_e s = c_w s" using cons_edit_empty_iff [of s] by simp
  then show ?case using 0 by (subst kill_line.simps) simp
next
  case (Suc n)
  then have ne: "cons_edit s \<noteq> []" by auto
  note b = cons_back [OF Suc.prems(1) ne]
  let ?t = "s\<lparr>c_e := c_e s - 1\<rparr>"
  have "last (cons_edit s) \<noteq> 10" using Suc.prems(1) last_in_set [OF ne] unfolding cons_ok_def by metis
  then have e: "kill_line s = rbind (consputc BACKSPACE ?t) kill_line"
    using b(4) ne cons_edit_empty_iff [OF Suc.prems(1)] by (subst kill_line.simps) simp
  have i: "idles ?t = idles s" "panicked ?t = panicked s" by (simp_all add: idles_def)
  obtain u where u: "consputc BACKSPACE ?t = Inr u" "out_only ?t u" "idles ?t \<le> idles u + 3"
    using consputc_ok [of ?t BACKSPACE] Suc.prems(2,3) Suc.hyps(2) i by auto
  note o = out_only_sel [OF u(2)] and c = cons_out [OF u(2)]
  have len: "length (butlast (cons_edit s)) = n" using Suc.hyps(2) by simp
  have "3 * n \<le> idles u" using u(3) i Suc.prems(3) Suc.hyps(2) by simp
  then obtain s' where "kill_line u = Inr s'" "cons_ok s'" "cons_line s' = cons_line u" "cons_edit s' = []"
      "conslock s' = conslock u" "woken s' = woken u"
    using Suc.hyps(1) [of u] Suc.prems(2) len b i(2) c o(1) by auto
  with e u(1) c b o show ?case by auto
qed

text \<open>A character more.\<close>

definition cons_push :: "u8 \<Rightarrow> 'a condev_scheme \<Rightarrow> 'a condev_scheme" where
  "cons_push c s = (s\<lparr>cbuf := (cbuf s)[unat (c_e s) mod INPUT_BUF := c]\<rparr>)\<lparr>c_e := c_e s + 1\<rparr>"

lemma cons_push_ok:
  assumes ok: "cons_ok s" and room: "unat (c_e s - c_r s) < INPUT_BUF"
  shows "ring_ok INPUT_BUF (cbuf (cons_push c s)) (c_r s) (c_e s + 1)" "cons_line (cons_push c s) = cons_line s"
    "cons_edit (cons_push c s) = cons_edit s @ [c]" "unat (c_e s + 1 - c_r s) = Suc (unat (c_e s - c_r s))"
proof -
  note l = cons_lengths [OF ok]
  have "ring_ok INPUT_BUF (cbuf s) (c_r s) (c_e s)" using ok by (simp add: cons_ok_def)
  note p = ring_put [OF this room, of c]
  show "ring_ok INPUT_BUF (cbuf (cons_push c s)) (c_r s) (c_e s + 1)" using p(2) by (simp add: cons_push_def)
  have t: "cons_typed (cons_push c s) = cons_typed s @ [c]" "c_w (cons_push c s) = c_w s" "c_r (cons_push c s) = c_r s"
    using p(1) by (simp_all add: cons_typed_def cons_push_def)
  show "cons_line (cons_push c s) = cons_line s" "cons_edit (cons_push c s) = cons_edit s @ [c]"
    unfolding cons_line_def [of "cons_push c s"] cons_edit_def [of "cons_push c s"] t l(4) by (simp_all add: l(1))
  show "unat (c_e s + 1 - c_r s) = Suc (unat (c_e s - c_r s))"
    using arg_cong [where f = length, OF p(1)] by simp
qed

lemma cons_commit:
  assumes "ring_ok INPUT_BUF (cbuf s) (c_r s) (c_e s)"
  shows "cons_line (s\<lparr>c_w := c_e s\<rparr>) = cons_typed s" "cons_edit (s\<lparr>c_w := c_e s\<rparr>) = []" "cons_ok (s\<lparr>c_w := c_e s\<rparr>)"
  using assms by (simp_all add: cons_line_def cons_edit_def cons_ok_def cons_typed_def)

text \<open>
  The editor as a function of the character typed, the lines that are finished and the line
  being edited: control-U erases the line, backspace and delete erase a character, a
  carriage return counts as a newline, and a newline, control-D or a full buffer finishes
  the line. Control-P prints the process table; zero is ignored.
\<close>

definition edit_line :: "int \<Rightarrow> u8 list \<times> u8 list \<Rightarrow> u8 list \<times> u8 list" where
  "edit_line c le = (case le of (line, edit) \<Rightarrow>
     if c = 0x10 \<or> c = 0 then (line, edit)
     else if c = 0x15 then (line, [])
     else if c = 8 \<or> c = 0x7f then (line, butlast edit)
     else if length line + length edit < INPUT_BUF then
       let ch = (if c = 13 then 10 else of_int c); edit = edit @ [ch] in
       if ch = 10 \<or> ch = 4 \<or> length line + length edit = INPUT_BUF then (line @ edit, []) else (line, edit)
     else (line, edit))"

text \<open>What \<open>consoleintr\<close> does with the lock held.\<close>

definition edited :: "int \<Rightarrow> 'a condev_scheme \<Rightarrow> 'a condev_scheme \<Rightarrow> bool" where
  "edited c s s' \<longleftrightarrow> cons_ok s' \<and> (cons_line s', cons_edit s') = edit_line c (cons_line s, cons_edit s) \<and>
     conslock s' = conslock s \<and> woken s' = woken s @ (if cons_line s' = cons_line s then [] else [ConsChan])"

lemma byte_eq_iff:
  assumes "0 \<le> c" "c < 256" "0 \<le> d" "d < 256"
  shows "(of_int c :: u8) = of_int d \<longleftrightarrow> c = d"
  using assms by (simp add: word_of_int_eq_iff take_bit_int_eq_self)

lemma edited_char:
  assumes ok: "cons_ok u" and room: "unat (c_e u - c_r u) < INPUT_BUF" and c: "0 \<le> c" "c < 256" "c \<notin> {0, 0x10, 0x15, 8, 0x7f}"
    and v: "v = cons_push (of_int (if c = 13 then 10 else c)) u"
  shows "edited c u (if (if c = 13 then 10 else c) = 10 \<or> (if c = 13 then 10 else c) = 4 \<or> c_e v = c_r v + of_nat INPUT_BUF
    then v\<lparr>c_w := c_e v, woken := woken v @ [ConsChan]\<rparr> else v)"
proof -
  let ?c = "if c = 13 then 10 else c" let ?b = "of_int ?c :: u8"
  note p = cons_push_ok(1-3) [OF ok room, of ?b] cons_push_ok(4) [OF ok room] and l = cons_lengths [OF ok]
  have f: "c_r v = c_r u" "c_w v = c_w u" "c_e v = c_e u + 1" "woken v = woken u" "conslock v = conslock u" by (simp_all add: v cons_push_def)
  have r: "ring_ok INPUT_BUF (cbuf v) (c_r v) (c_e v)" using p(1) f v by simp
  have e: "cons_line v = cons_line u" "cons_edit v = cons_edit u @ [?b]" using p(2,3) v by simp_all
  have le: "unat (c_w v - c_r v) \<le> unat (c_e v - c_r v)" using p(4) f l by simp
  have full: "c_e v = c_r v + of_nat INPUT_BUF \<longleftrightarrow> length (cons_line u) + length (cons_edit v) = INPUT_BUF"
    using ring_full_iff [OF r] p(4) f e(2) l(2) by simp
  have b: "?b = 10 \<longleftrightarrow> ?c = 10" "?b = 4 \<longleftrightarrow> ?c = 4"
    using byte_eq_iff [of ?c 10] byte_eq_iff [of ?c 4] c by (simp_all split: if_splits)
  have t: "cons_typed v = cons_line u @ cons_edit v"
    unfolding e(1) [symmetric] using le by (simp add: cons_line_def cons_edit_def)
  have spec: "edit_line c (cons_line u, cons_edit u) =
      (if ?b = 10 \<or> ?b = 4 \<or> length (cons_line u) + length (cons_edit v) = INPUT_BUF then (cons_line u @ cons_edit v, []) else (cons_line u, cons_edit v))"
    using c(3) room l(2) by (simp add: edit_line_def Let_def e(2))
  show ?thesis
  proof (cases "?c = 10 \<or> ?c = 4 \<or> c_e v = c_r v + of_nat INPUT_BUF")
    case True
    let ?t = "v\<lparr>c_w := c_e v, woken := woken v @ [ConsChan]\<rparr>"
    have k: "cons_line ?t = cons_typed v" "cons_edit ?t = []" "cons_ok ?t"
      using cons_commit [OF r] cons_cong [of ?t "v\<lparr>c_w := c_e v\<rparr>"] by simp_all
    have "edit_line c (cons_line u, cons_edit u) = (cons_line u @ cons_edit v, [])" unfolding spec b full [symmetric] using True by simp
    with k t e(2) f show ?thesis unfolding if_P [OF True] edited_def by simp
  next
    case False
    have "cons_ok v" using r le ok e(2) b False by (auto simp: cons_ok_def)
    moreover have "edit_line c (cons_line u, cons_edit u) = (cons_line u, cons_edit v)" unfolding spec b full [symmetric] using False by simp
    ultimately show ?thesis unfolding if_not_P [OF False] edited_def using e(1) f by simp
  qed
qed

lemma edited_out:
  assumes "out_only s u" "edited c u s'"
  shows "edited c s s'"
  using assms(2) out_only_sel [OF assms(1)] cons_out [OF assms(1)] by (simp add: edited_def)

lemma cons_key_ok:
  assumes ok: "cons_ok s" and p: "\<not> panicked s" and c: "0 \<le> c" "c < 256" and i: "3 * (INPUT_BUF + length dump) \<le> idles s"
  shows "\<exists>s'. cons_key dump c s = Inr s' \<and> edited c s s'"
proof -
  note l = cons_lengths [OF ok]
  have i3: "3 \<le> idles s" "3 * length (cons_edit s) \<le> idles s" "3 * length dump \<le> idles s"
    using i l by (simp_all add: INPUT_BUF_def)
  have same: "edited c s s" if "edit_line c (cons_line s, cons_edit s) = (cons_line s, cons_edit s)"
    using that ok by (simp add: edited_def)
  consider (table) "c = 0x10" | (line) "c = 0x15" | (bs) "c = 8 \<or> c = 0x7f"
    | (char) "c \<notin> {0, 0x10, 0x15, 8, 0x7f}" "unat (c_e s - c_r s) < INPUT_BUF"
    | (none) "c = 0 \<or> c \<notin> {0, 0x10, 0x15, 8, 0x7f} \<and> \<not> unat (c_e s - c_r s) < INPUT_BUF" by auto
  then show ?thesis
  proof cases
    case table
    obtain t where t: "for_each consputc dump s = Inr t" "out_only s t" using puts_ok [OF p i3(3)] by blast
    have "edited c t t" using table cons_out [OF t(2)] ok by (simp add: edited_def edit_line_def)
    then show ?thesis using t table edited_out by (simp add: cons_key_def)
  next
    case line
    then show ?thesis using kill_line_ok [OF ok p i3(2)] by (auto simp: edited_def edit_line_def cons_key_def)
  next
    case bs
    show ?thesis
    proof (cases "cons_edit s = []")
      case True
      then show ?thesis using bs same cons_edit_empty_iff [OF ok] by (auto simp: edit_line_def cons_key_def)
    next
      case False
      let ?t = "s\<lparr>c_e := c_e s - 1\<rparr>"
      note b = cons_back [OF ok False]
      have "idles ?t = idles s" "panicked ?t = panicked s" by (simp_all add: idles_def)
      then obtain u where u: "consputc BACKSPACE ?t = Inr u" "out_only ?t u" using consputc_ok [of ?t BACKSPACE] p i3(1) by auto
      have "edited c s u" using bs out_only_sel [OF u(2)] cons_out [OF u(2)] b by (auto simp: edited_def edit_line_def)
      then show ?thesis using u(1) bs False cons_edit_empty_iff [OF ok] by (auto simp: cons_key_def)
    qed
  next
    case char
    let ?c = "if c = 13 then 10 else c"
    obtain u where u: "consputc ?c s = Inr u" "out_only s u" using consputc_ok [OF p i3(1)] by blast
    let ?v = "cons_push (of_int ?c) u"
    let ?w = "if ?c = 10 \<or> ?c = 4 \<or> c_e ?v = c_r ?v + of_nat INPUT_BUF then ?v\<lparr>c_w := c_e ?v, woken := woken ?v @ [ConsChan]\<rparr> else ?v"
    have "edited c u ?w"
      by (rule edited_char) (use char c ok cons_out [OF u(2)] out_only_sel [OF u(2)] in simp_all)
    moreover have "cons_key dump c s = Inr ?w" using char u(1) by (simp add: cons_key_def cons_push_def Let_def)
    ultimately show ?thesis using edited_out [OF u(2)] by blast
  next
    case none
    then show ?thesis using same l(2) by (auto simp: edit_line_def cons_key_def)
  qed
qed

text \<open>
  C28: The console is a line editor. When the device accepts the echo, \<open>consoleintr\<close> returns, and
  the finished lines and the line being edited change exactly as \<open>edit_line\<close> says; a reader is
  woken up exactly when a line is finished. The buffer never overflows, and no newline
  is left in the line being edited.
\<close>
theorem consoleintr_edits:
  assumes ok: "cons_ok s" and lk: "\<not> conslock s" and p: "\<not> panicked s" and c: "0 \<le> c" "c < 256"
    and i: "3 * (INPUT_BUF + length dump) \<le> idles s"
  shows "\<exists>s'. consoleintr dump c s = Inr s' \<and> edited c s s'"
proof -
  let ?s = "s\<lparr>conslock := True\<rparr>"
  have f: "cons_ok ?s" "cons_line ?s = cons_line s" "cons_edit ?s = cons_edit s" "idles ?s = idles s"
    using ok cons_cong [of ?s s] by (simp_all add: idles_def)
  have a: "acquire_cons s = Inr ?s" using lk by (simp add: acquire_cons_def spin_acquire_def)
  obtain t where t: "cons_key dump c ?s = Inr t" "edited c ?s t" using cons_key_ok [OF f(1) _ c] p i f(4) by auto
  have lt: "conslock t" using t(2) by (simp add: edited_def)
  let ?t = "t\<lparr>conslock := False\<rparr>"
  have "consoleintr dump c s = Inr ?t" using a t(1) lt by (simp add: consoleintr_def release_cons_def spin_release_def)
  moreover have "edited c s ?t" using t(2) f lk cons_cong [of ?t t] by (simp add: edited_def)
  ultimately show ?thesis by blast
qed

text \<open>Typing a carriage return after two characters finishes the line.\<close>

definition sample_typed :: filest where
  "sample_typed = (sample_io (\<lambda>_. replicate BSIZE 0))\<lparr>lsrs := replicate 400 0x20, cbuf := [104, 105] @ replicate 126 0, c_e := 2\<rparr>"

theorem consoleintr_edits_witness:
  "\<exists>s'. consoleintr [] 13 sample_typed = Inr s' \<and> cons_line s' = [104, 105, 10] \<and> cons_edit s' = [] \<and> woken s' = woken sample_typed @ [ConsChan]"
proof -
  let ?s = sample_typed
  have u: "[0..<2] = [0, Suc 0]" by (simp add: numeral_2_eq_2)
  have e: "cons_line ?s = []" "cons_edit ?s = [104, 105]"
    by (simp_all add: u cons_line_def cons_edit_def cons_typed_def ring_queue_def sample_typed_def sample_io_sel INPUT_BUF_def)
  have "cons_ok ?s" using e by (simp add: cons_ok_def ring_ok_def sample_typed_def sample_io_sel INPUT_BUF_def)
  moreover have "idles ?s = 400"
    by (simp add: idles_def sample_typed_def idle_def LSR_TX_IDLE_def)
  ultimately obtain s' where "consoleintr [] 13 ?s = Inr s'" "edited 13 ?s s'"
    using consoleintr_edits [of ?s 13 "[]"] by (auto simp: sample_typed_def sample_io_sel INPUT_BUF_def)
  then show ?thesis using e by (simp add: edited_def edit_line_def INPUT_BUF_def)
qed

section \<open>Printed numbers\<close>

text \<open>The number that a text denotes, as a reader computes it.\<close>

definition digit_value :: "int \<Rightarrow> int" where
  "digit_value c = (if c \<le> 57 then c - 48 else c - 87)"

definition num_value :: "nat \<Rightarrow> int list \<Rightarrow> int" where
  "num_value base cs = foldl (\<lambda>n c. n * int base + digit_value c) 0 cs"

definition text_value :: "nat \<Rightarrow> int list \<Rightarrow> int" where
  "text_value base cs = (if cs \<noteq> [] \<and> hd cs = 45 then - num_value base (tl cs) else num_value base cs)"

lemma digit_value: "digit_value (digit d) = int d"
  by (simp add: digit_value_def digit_def)

lemma int_digits_value:
  assumes "2 \<le> base"
  shows "num_value base (rev (int_digits base x)) = int x"
proof (induction x rule: less_induct)
  case (less x)
  have d: "int (x mod base) + int (x div base) * int base = int x"
    by (metis mod_div_mult_eq of_nat_add of_nat_mult)
  show ?case
  proof (cases "x div base = 0")
    case True
    with d assms show ?thesis by (subst int_digits.simps) (simp add: num_value_def digit_value)
  next
    case False
    then have "x div base < x" using assms by (intro div_less_dividend) (auto intro: gr0I)
    from less.IH [OF this] False assms d show ?thesis
      by (subst int_digits.simps) (simp add: num_value_def digit_value algebra_simps)
  qed
qed

lemma int_digits_length:
  assumes "2 \<le> base" "x < base ^ Suc n"
  shows "length (int_digits base x) \<le> Suc n"
  using assms(2)
proof (induction n arbitrary: x)
  case 0
  then show ?case using assms(1) by (subst int_digits.simps) simp
next
  case (Suc n)
  have "x div base < base ^ Suc n" using Suc.prems assms(1) by (simp add: div_less_iff_less_mult mult.commute)
  from Suc.IH [OF this] show ?case using assms(1) by (subst int_digits.simps) simp
qed

lemma int_digits_set:
  assumes "2 \<le> base" "c \<in> set (int_digits base x)"
  shows "c \<noteq> 45" "c < 87 + int base \<or> c < 58" "0 < c"
proof -
  have "\<exists>d < base. c = digit d" using assms(2)
  proof (induction base x rule: int_digits.induct)
    case (1 base x)
    then have "\<not> base < 2" "c = digit (x mod base) \<or> x div base \<noteq> 0 \<and> c \<in> set (int_digits base (x div base))"
      by (auto simp: int_digits.simps [of base x] split: if_splits)
    moreover from this(1) have "x mod base < base" by simp
    ultimately show ?case using "1.IH" by blast
  qed
  then show "c \<noteq> 45" "c < 87 + int base \<or> c < 58" "0 < c" by (auto simp: digit_def split: if_splits)
qed

lemma int_digits_ne: "2 \<le> base \<Longrightarrow> int_digits base x \<noteq> []"
  by (subst int_digits.simps) simp

lemma puts_text:
  assumes "\<not> panicked s" "length cs \<le> idles s" "BACKSPACE \<notin> set cs"
  shows "\<exists>s'. for_each consputc cs s = Inr s' \<and> uwrites s' = uwrites s @ map (\<lambda>c. (THR, of_int c)) cs"
  using assms
proof (induction cs arbitrary: s)
  case (Cons c cs)
  obtain t where t: "uartputc_sync c s = Inr t" "out_only s t" "idles s = Suc (idles t)" "uwrites t = uwrites s @ [(THR, of_int c)]"
    using uartputc_sync_ok [of s c] Cons.prems by auto
  obtain s' where "for_each consputc cs t = Inr s'" "uwrites s' = uwrites t @ map (\<lambda>c. (THR, of_int c)) cs"
    using Cons.IH [of t] Cons.prems t out_only_sel(1) [OF t(2)] by auto
  moreover have "consputc c s = Inr t" using t(1) Cons.prems(3) by (auto simp: consputc_def)
  ultimately show ?case using t(4) by simp
qed simp

lemma unat_neg:
  fixes x :: u32
  assumes "sint x < 0"
  shows "int (unat (- x)) = - sint x"
proof -
  have "uint x = sint x + 2 ^ 32" using assms by (simp add: sint_u32 split: if_splits)
  moreover have "- (2 ^ 31) \<le> sint x" using sint_ge [of x] by simp
  ultimately have "(- uint x) mod 2 ^ 32 = - sint x" using assms by (simp add: zmod_trivial_iff mod_pos_pos_trivial)
  then show ?thesis by (simp add: uint_word_ariths flip: uint_nat)
qed

text \<open>
  C30: A printed number reads back as the number. \<open>printint\<close> in base 10 or 16 sends a text of
  at most 16 characters, the size of its buffer, to the device, and that text denotes the
  signed or unsigned value of the argument. (The negation of the smallest integer is left
  undefined by the language.)
\<close>
theorem printint_reads_back:
  assumes base: "base = 10 \<or> base = 16" and x: "\<not> sign \<or> sint xx \<noteq> - (2 ^ 31)" and p: "\<not> panicked s" and i: "16 \<le> idles s"
  shows "\<exists>cs s'. printint xx base sign s = Inr s' \<and> uwrites s' = uwrites s @ map (\<lambda>c. (THR, of_int c)) cs \<and>
    length cs \<le> 16 \<and> text_value base cs = (if sign then sint xx else uint xx)"
proof -
  let ?neg = "sign \<and> sint xx < 0"
  let ?x = "unat (if ?neg then - xx else xx)"
  let ?cs = "rev (int_digits base ?x @ (if ?neg then [45] else []))"
  have b: "2 \<le> base" using base by auto
  have "?x < 2 ^ 32" using unsigned_less [of "if ?neg then - xx else xx", where 'a = nat] by simp
  then have "?x < base ^ Suc 9" using base by auto
  then have l: "length ?cs \<le> 16" using int_digits_length [OF b, of ?x 9] by (cases ?neg) auto
  note d = int_digits_set [OF b, of _ ?x] and n = int_digits_ne [OF b, of ?x]
  have "BACKSPACE \<notin> set ?cs" using d(2) [of BACKSPACE] base by (auto simp: BACKSPACE_def split: if_splits)
  then obtain s' where s': "for_each consputc ?cs s = Inr s'" "uwrites s' = uwrites s @ map (\<lambda>c. (THR, of_int c)) ?cs"
    using puts_text [OF p, of ?cs] l i by auto
  have "printint xx base sign s = Inr s'" using x s'(1) by (auto simp: printint_def Let_def)
  moreover have "text_value base ?cs = (if sign then sint xx else uint xx)"
  proof (cases ?neg)
    case True
    then show ?thesis using int_digits_value [OF b, of "unat (- xx)"] unat_neg [of xx] by (simp add: text_value_def)
  next
    case False
    have "hd (rev (int_digits base ?x)) \<noteq> 45" using d(1) n by (metis hd_in_set rev_is_Nil_conv set_rev)
    then have "text_value base ?cs = uint xx" using False int_digits_value [OF b, of "unat xx"] by (auto simp: text_value_def)
    moreover have "sint xx = uint xx" if "0 \<le> sint xx" using that uint_lt2p [of xx] by (simp add: sint_u32 split: if_splits)
    ultimately show ?thesis using False by auto
  qed
  ultimately show ?thesis using s'(2) l by blast
qed

theorem printint_reads_back_witness:
  "\<exists>cs s'. printint (- 42) 10 True sample_typed = Inr s' \<and> uwrites s' = map (\<lambda>c. (THR, of_int c)) cs \<and> text_value 10 cs = - 42"
proof -
  have "idles sample_typed = 400" by (simp add: idles_def sample_typed_def idle_def LSR_TX_IDLE_def)
  then show ?thesis
    using printint_reads_back [of 10 True "- 42" sample_typed] by (auto simp: sample_typed_def sample_io_sel)
qed

end
