(* ===== verification/Blocks.thy ===== *)
theory Blocks
  imports Fs
begin

text \<open>
  The block allocator inside a transaction. \<open>txn_ok\<close> (theory Crash) is the invariant of a
  transaction, \<open>content\<close> what a block holds as seen through the cache. Here are the frame of
  the cache and log operations on the state of the file system, the effect of reading a
  block, and the specification of \<open>balloc\<close> and \<open>bfree\<close>.
\<close>

section \<open>Frame\<close>

text \<open>The cache and the log leave the rest of the state alone.\<close>

lemma bread_more: "bread m d n s = Inr (b, s') \<Longrightarrow> logst.more s' = logst.more s"
  by (auto simp: bread_def bget_def acquire_bcache_def release_bcache_def lock_buf_def set_buf_def disk_rw_def
      Let_def split: option.splits if_splits)

lemma brelse_more: "brelse m b s = Inr s' \<Longrightarrow> logst.more s' = logst.more s"
  by (auto simp: brelse_def holds_buf_def acquire_bcache_def release_bcache_def set_buf_def move_to_front_def
      Let_def split: if_splits)

lemma log_write_more: "log_write b s = Inr s' \<Longrightarrow> logst.more s' = logst.more s"
  by (auto simp: log_write_def acquire_log_def release_log_def bpin_def acquire_bcache_def release_bcache_def
      set_buf_def Let_def split: if_splits)

lemma update_block_more: "update_block m d n f s = Inr s' \<Longrightarrow> logst.more s' = logst.more s"
  by (auto simp: update_block_def Let_def set_buf_def dest!: bread_more brelse_more log_write_more)

lemma fs_more_fields:
  assumes "logst.more s' = logst.more s"
  shows "sb s' = sb s" "itlock s' = itlock s" "inodes s' = inodes s" "umem s' = umem s" "cur s' = cur s"
  using assms by (cases s; cases s'; simp)+

section \<open>Reading and updating a block\<close>

text \<open>What a step inside a transaction keeps.\<close>

definition txstep :: "int \<Rightarrow> u32 \<Rightarrow> 'a logst_scheme \<Rightarrow> nat set \<Rightarrow> 'a logst_scheme \<Rightarrow> bool" where
  "txstep m d s P' s' \<longleftrightarrow>
     txn_ok m d {} P' s' \<and> outstanding s' = outstanding s \<and> lsize s' = lsize s \<and> lstart s' = lstart s \<and>
     logst.more s' = logst.more s"

lemma txstepD:
  assumes "txstep m d s P' s'"
  shows "txn_ok m d {} P' s'" "outstanding s' = outstanding s" "lsize s' = lsize s" "lstart s' = lstart s"
    "logst.more s' = logst.more s" "logarea s' = logarea s"
  using assms by (auto simp: txstep_def logarea_def)

lemma txstep_trans: "txstep m d s P s' \<Longrightarrow> txstep m d s' P' s'' \<Longrightarrow> txstep m d s P' s''"
  by (simp add: txstep_def)

lemma txn_lhn: "txn_ok m d H P s \<Longrightarrow> lhn s = int (length (logged s))"
  using log_geo_len [of s] by (simp add: txn_ok_def log_geo_def)

lemma fs_update:
  assumes t: "txn_ok m d {} P s" and o: "1 \<le> outstanding s" and room: "lhn s < lsize s - 1"
    and n: "n \<notin> logarea s" and f: "\<And>bs. length bs = BSIZE \<Longrightarrow> length (f bs) = BSIZE"
  obtains s' P' where "update_block m d n f s = Inr s'" "txstep m d s P' s'"
    "content d s' = (content d s)(n := f (content d s n))" "lhn s' \<le> lhn s + 1"
proof -
  obtain s' P' where u: "update_block m d n f s = Inr s'" "txn_ok m d {} P' s'"
      "content d s' = (content d s)(n := f (content d s n))"
      "logged s' = (if n \<in> set (logged s) then logged s else logged s @ [n])"
      "outstanding s' = outstanding s" "lsize s' = lsize s" "lstart s' = lstart s"
    using update_block_ok [where f = f, OF t n _ _ room o f] txn_card(2) [OF t] by auto
  have "lhn s' \<le> lhn s + 1" using txn_lhn [OF t] txn_lhn [OF u(2)] u(4) by simp
  with u update_block_more [OF u(1)] show thesis by (intro that) (simp_all add: txstep_def)
qed

text \<open>The same steps written out, as the code has them, after \<open>bread\<close>.\<close>

lemma update_seq:
  assumes "bread (me s) d n s = Inr (bp, s1)"
  shows "rbind (log_write bp (upd_data bp f s1)) (\<lambda>t. rbind (brelse (me t) bp t) g) =
    rbind (update_block (me s) d n f s) g"
proof -
  have m1: "cur s1 = cur s" using fs_more_fields(5) [OF bread_more [OF assms]] .
  have "cur t = cur s" if "log_write bp (upd_data bp f s1) = Inr t" for t
    using fs_more_fields(5) [OF log_write_more [OF that]] m1 by (simp add: upd_data_def set_buf_def)
  then have "rbind (log_write bp (upd_data bp f s1)) (\<lambda>t. rbind (brelse (me t) bp t) g) =
      rbind (log_write bp (upd_data bp f s1)) (\<lambda>t. rbind (brelse (me s) bp t) g)"
    by (intro rbind_cong refl) simp
  then show ?thesis by (simp add: update_block_def assms Let_def rbind_assoc upd_data_def)
qed

lemma bread_data:
  assumes t: "txn_ok m d {} P s" and n: "n \<notin> logarea s"
  obtains bp s1 s2 where "bread m d n s = Inr (bp, s1)" "data (bufs s1 bp) = content d s n"
    "logst.more s1 = logst.more s" "brelse m bp s1 = Inr s2" "txstep m d s P s2" "content d s2 = content d s" "lhn s2 = lhn s"
proof -
  obtain bp s1 where r: "bread m d n s = Inr (bp, s1)" "read_post m d {} P n s bp s1" "txn_ok m d {bp} P s1"
    using bread_txn [OF t n] txn_card(2) [OF t] by auto
  note p = read_postD [OF r(2)]
  have clean: "bp \<in> P \<or> data (bufs s1 bp) = disk s1 (blockno (bufs s1 bp))"
  proof (cases "bp \<in> P")
    case False
    then have "content d s n = disk s n" using p(11) by (intro content_disk [OF txn_okD(1) [OF t]]) auto
    then show ?thesis using p(3,4,7) by simp
  qed simp
  from brelse_txn [OF r(3) _ clean] obtain s2 where b: "brelse m bp s1 = Inr s2" "txn_ok m d ({bp} - {bp}) P s2"
      "content d s2 = content d s1" "io_only s1 s2" by auto
  note f1 = io_only_frame [OF io_only_upd(1) [OF p(10)]] and f2 = io_only_frame [OF b(4)]
  have "txstep m d s P s2" "content d s2 = content d s" "lhn s2 = lhn s"
    using b f1 f2 p(5) brelse_more [OF b(1)] bread_more [OF r(1)] by (simp_all add: txstep_def)
  from that [OF r(1) p(4) bread_more [OF r(1)] b(1) this] show thesis .
qed

lemma rbind_return: "rbind m Inr = m"
  by (cases m) simp_all

lemma bzero_eq: "bzero d n s = update_block (me s) d n (\<lambda>_. replicate BSIZE 0) s"
proof (cases "bread (me s) d n s")
  case (Inr r)
  then obtain bp s1 where r: "bread (me s) d n s = Inr (bp, s1)" by (cases r) auto
  from update_seq [OF this, of "\<lambda>_. replicate BSIZE 0" Inr] show ?thesis
    by (simp add: bzero_def r Let_def rbind_return)
qed (simp add: bzero_def update_block_def)

section \<open>The bitmap\<close>

lemma bit_used_iff: "bit_used bs bi \<longleftrightarrow> bit (bs ! (bi div 8)) (bi mod 8)"
  by (simp add: bit_used_def bit_iff_and_push_bit_not_eq_0)

lemma same_bit: "bi div 8 = bj div 8 \<Longrightarrow> bi mod 8 = bj mod 8 \<longleftrightarrow> bi = (bj :: nat)"
  by (metis mod_mult_div_eq)

lemma bit_mark_used:
  assumes "bi div 8 < length bs" "bj div 8 < length bs"
  shows "bit_used (mark_used bi bs) bj \<longleftrightarrow> bj = bi \<or> bit_used bs bj"
proof (cases "bi div 8 = bj div 8")
  case True
  then show ?thesis using assms same_bit [OF True] by (auto simp: bit_used_iff mark_used_def bit_simps)
qed (use assms in \<open>auto simp: bit_used_iff mark_used_def\<close>)

lemma bit_mark_free:
  assumes "bi div 8 < length bs" "bj div 8 < length bs"
  shows "bit_used (mark_free bi bs) bj \<longleftrightarrow> bj \<noteq> bi \<and> bit_used bs bj"
proof (cases "bi div 8 = bj div 8")
  case True
  have "bj mod 8 < 8" by simp
  then show ?thesis using assms same_bit [OF True] by (auto simp: bit_used_iff mark_free_def bit_simps True)
qed (use assms in \<open>auto simp: bit_used_iff mark_free_def\<close>)

lemma length_mark [simp]: "length (mark_used bi bs) = length bs" "length (mark_free bi bs) = length bs"
  by (simp_all add: mark_used_def mark_free_def)

text \<open>Block \<open>b\<close> is marked in use.\<close>

definition used :: "u32 \<Rightarrow> 'a fsst_scheme \<Rightarrow> nat \<Rightarrow> bool" where
  "used d s b \<longleftrightarrow> bit_used (content d s (BBLOCK b s)) (b mod BPB)"

abbreviation nblocks :: "'a fsst_scheme \<Rightarrow> nat" where
  "nblocks s \<equiv> unat (sb_size (sb s))"

text \<open>The bitmap is outside the log, and marks the blocks of the log and of the bitmap as in use.\<close>

definition bitmap_ok :: "u32 \<Rightarrow> 'a fsst_scheme \<Rightarrow> bool" where
  "bitmap_ok d s \<longleftrightarrow>
     nblocks s \<le> 2 ^ 31 \<and> (\<forall>b < nblocks s. BBLOCK b s \<notin> logarea s) \<and>
     (\<forall>b < nblocks s. of_nat b \<in> logarea s \<or> (\<exists>c < nblocks s. BBLOCK c s = of_nat b) \<longrightarrow> used d s b)"

lemma BBLOCK_inj:
  assumes "b < 2 ^ 31" "c < 2 ^ 31"
  shows "BBLOCK b s = BBLOCK c s \<longleftrightarrow> b div BPB = c div BPB"
proof -
  have "x div BPB < 2 ^ 32" if "x < 2 ^ 31" for x :: nat
    by (rule le_less_trans [OF div_le_dividend]) (use that in simp)
  then have "unat (of_nat (b div BPB) :: u32) = b div BPB" "unat (of_nat (c div BPB) :: u32) = c div BPB"
    using assms by (simp_all add: unat_of_nat)
  then have "(of_nat (b div BPB) :: u32) = of_nat (c div BPB) \<longleftrightarrow> b div BPB = c div BPB" by metis
  then show ?thesis by (simp add: BBLOCK_def)
qed

lemma bit_index: "b mod BPB div 8 < BSIZE"
  by (simp add: BPB_def BSIZE_def div_less_iff_less_mult)

lemma same_bitmap_bit: "b div BPB = c div BPB \<Longrightarrow> b mod BPB = c mod BPB \<longleftrightarrow> b = c"
  by (metis mod_mult_div_eq)

lemma bitmap_frame: "sb s' = sb s \<Longrightarrow> BBLOCK b s' = BBLOCK b s" "sb s' = sb s \<Longrightarrow> nblocks s' = nblocks s"
  by (simp_all add: BBLOCK_def)

text \<open>A change of the bit of block \<open>r\<close> is a change of \<open>used\<close> at \<open>r\<close>.\<close>

lemma used_mark:
  assumes c: "content d s' (BBLOCK b s) = ((content d s)(BBLOCK r s := F (content d s (BBLOCK r s)))) (BBLOCK b s)" and sb: "sb s' = sb s"
    and r: "r < 2 ^ 31" "b < 2 ^ 31" and l: "length (content d s (BBLOCK r s)) = BSIZE"
    and F: "F = mark_used (r mod BPB) \<and> v = True \<or> F = mark_free (r mod BPB) \<and> v = False"
  shows "used d s' b \<longleftrightarrow> (if b = r then v else used d s b)"
proof (cases "b div BPB = r div BPB")
  case True
  then have e: "BBLOCK b s = BBLOCK r s" using BBLOCK_inj [OF r(2,1)] by simp
  have i: "r mod BPB div 8 < length (content d s (BBLOCK r s))" "b mod BPB div 8 < length (content d s (BBLOCK r s))"
    using l bit_index by simp_all
  show ?thesis
    using F bit_mark_used [OF i] bit_mark_free [OF i] same_bitmap_bit [OF True]
    by (auto simp: used_def bitmap_frame(1) [OF sb] e c [unfolded e])
next
  case False
  then have "BBLOCK b s \<noteq> BBLOCK r s" "b \<noteq> r" using BBLOCK_inj [OF r(2,1)] by auto
  then show ?thesis by (simp add: used_def bitmap_frame(1) [OF sb] c)
qed

section \<open>balloc\<close>

lemma free_bit_Some:
  assumes "free_bit n b bs = Some bi"
  shows "bi < BPB" "b + bi < n" "\<not> bit_used bs bi" "\<And>j. j < bi \<Longrightarrow> bit_used bs j"
  using find_idx_Some [OF assms [unfolded free_bit_def]] by auto

lemma free_bit_None: "free_bit n b bs = None \<longleftrightarrow> (\<forall>bi < min BPB (n - b). bit_used bs bi)"
  by (auto simp: free_bit_def find_idx_None)

definition allocated_block :: "u32 \<Rightarrow> 'a fsst_scheme \<Rightarrow> u32 \<Rightarrow> nat set \<Rightarrow> 'a fsst_scheme \<Rightarrow> bool" where
  "allocated_block d s r P' s' \<longleftrightarrow>
     txstep (me s) d s P' s' \<and> lhn s' \<le> lhn s + 2 \<and> unat r < nblocks s \<and> \<not> used d s (unat r) \<and>
     content d s' = (content d s)(BBLOCK (unat r) s := mark_used (unat r mod BPB) (content d s (BBLOCK (unat r) s)),
                      r := replicate BSIZE 0)"

lemma balloc_take:
  assumes t: "txn_ok (me s) d {} P s" and o: "1 \<le> outstanding s" and room: "lhn s + 1 < lsize s - 1"
    and bm: "bitmap_ok d s" and b: "b < nblocks s" "\<not> used d s b"
  shows "\<exists>s' P'. rbind (update_block (me s) d (BBLOCK b s) (mark_used (b mod BPB)) s) (\<lambda>s.
      rbind (bzero d (of_nat b) s) (\<lambda>s. Inr (of_nat b :: u32, s))) = Inr (of_nat b, s') \<and>
    allocated_block d s (of_nat b) P' s'"
proof -
  have n: "BBLOCK b s \<notin> logarea s" and rl: "(of_nat b :: u32) \<notin> logarea s" using bm b by (auto simp: bitmap_ok_def)
  have room1: "lhn s < lsize s - 1" using room by simp
  obtain s1 P1 where 1: "update_block (me s) d (BBLOCK b s) (mark_used (b mod BPB)) s = Inr s1" "txstep (me s) d s P1 s1"
      "content d s1 = (content d s)(BBLOCK b s := mark_used (b mod BPB) (content d s (BBLOCK b s)))" "lhn s1 \<le> lhn s + 1"
    using fs_update [OF t o room1 n, of "mark_used (b mod BPB)"] by auto
  note s1 = txstepD [OF 1(2)]
  note m1 = fs_more_fields [OF s1(5)]
  have room2: "lhn s1 < lsize s1 - 1" "1 \<le> outstanding s1" "of_nat b \<notin> logarea s1" using room o rl s1 1(4) by auto
  obtain s2 P2 where 2: "update_block (me s) d (of_nat b) (\<lambda>_. replicate BSIZE 0) s1 = Inr s2" "txstep (me s) d s1 P2 s2"
      "content d s2 = (content d s1)(of_nat b := replicate BSIZE 0)" "lhn s2 \<le> lhn s1 + 1"
    using fs_update [OF s1(1) room2(2,1,3), of "\<lambda>_. replicate BSIZE 0"] by auto
  have "unat (of_nat b :: u32) = b" using b(1) bm by (simp add: bitmap_ok_def unat_of_nat)
  then show ?thesis
    using 1 2 txstep_trans [OF 1(2) 2(2)] b m1(5)
    by (intro exI [of _ s2] exI [of _ P2]) (auto simp: allocated_block_def bzero_eq)
qed

lemma used_cong:
  assumes "content d s' = content d s" "sb s' = sb s"
  shows "used d s' = used d s"
  by (rule ext) (simp only: used_def bitmap_frame(1) [OF assms(2)] assms(1))

lemma bitmap_ok_cong:
  assumes "content d s' = content d s" "sb s' = sb s" "logarea s' = logarea s"
  shows "bitmap_ok d s' = bitmap_ok d s"
  by (simp only: bitmap_ok_def bitmap_frame(1) [OF assms(2)] used_cong [OF assms(1,2)] assms(2,3))

lemma allocated_block_cong:
  assumes "txstep (me s) d s P s2" "content d s2 = content d s" "lhn s2 = lhn s" "allocated_block d s2 r P' s'"
  shows "allocated_block d s r P' s'"
proof -
  note m = fs_more_fields [OF txstepD(5) [OF assms(1)]]
  note f = assms(4) [unfolded allocated_block_def bitmap_frame(1) [OF m(1)] used_cong [OF assms(2) m(1)] assms(2,3) m(1,5)]
  have "txstep (me s) d s P' s'" by (rule txstep_trans [OF assms(1) conjunct1 [OF f]])
  then show ?thesis unfolding allocated_block_def using conjunct2 [OF f] by (rule conjI)
qed

lemma loop_block: "bi < BPB \<Longrightarrow> BBLOCK (k * BPB + bi) s = BBLOCK (k * BPB) s" "bi < BPB \<Longrightarrow> (k * BPB + bi) mod BPB = bi"
  by (auto simp: BBLOCK_def)

lemma unat_small: "x < 2 ^ 32 \<Longrightarrow> unat (of_nat x :: u32) = x"
  by (simp add: unat_of_nat)

lemma balloc_loop_ok:
  assumes "txn_ok (me s) d {} P s" "1 \<le> outstanding s" "lhn s + 1 < lsize s - 1" "bitmap_ok d s"
    and "\<forall>k < m. k * BPB < nblocks s" "b < nblocks s" "b < m * BPB" "k0 * BPB \<le> b" "\<not> used d s b"
  shows "\<exists>r s' P'. balloc_loop d (map (\<lambda>k. k * BPB) [k0..<m]) s = Inr (r, s') \<and> allocated_block d s r P' s' \<and>
    (\<forall>c. k0 * BPB \<le> c \<longrightarrow> c < unat r \<longrightarrow> used d s c)"
  using assms
proof (induction "m - k0" arbitrary: k0 s P)
  case 0
  have "m \<le> k0" using 0(1) by simp
  then have "m * BPB \<le> k0 * BPB" by (rule mult_le_mono1)
  then have False using 0(8,9) by linarith
  then show ?case by (rule FalseE)
next
  case (Suc n)
  let ?b = "k0 * BPB"
  note IH = Suc.hyps(1) and p = Suc.prems
  have k0: "k0 < m" using Suc.hyps(2) by simp
  then have l: "[k0..<m] = k0 # [Suc k0..<m]" by (simp add: upt_conv_Cons)
  have bn: "?b < nblocks s" "nblocks s \<le> 2 ^ 31" using p(4,5) k0 by (auto simp: bitmap_ok_def)
  then have nl: "BBLOCK ?b s \<notin> logarea s" and small: "\<not> 2 ^ 31 \<le> ?b" using p(4) by (auto simp: bitmap_ok_def)
  obtain bp s1 s2 where r: "bread (me s) d (BBLOCK ?b s) s = Inr (bp, s1)" "data (bufs s1 bp) = content d s (BBLOCK ?b s)"
      "logst.more s1 = logst.more s" and s2: "brelse (me s) bp s1 = Inr s2" "txstep (me s) d s P s2" "content d s2 = content d s" "lhn s2 = lhn s"
    by (rule bread_data [OF p(1) nl])
  note m1 = fs_more_fields [OF r(3)]
  have us: "bit_used (data (bufs s1 bp)) bi \<longleftrightarrow> used d s (?b + bi)" if "bi < BPB" for bi
    using r(2) that by (simp add: used_def loop_block)
  show ?case
  proof (cases "free_bit (nblocks s) ?b (data (bufs s1 bp))")
    case (Some bi)
    note f = free_bit_Some [OF this]
    have u: "\<not> used d s (?b + bi)" "\<forall>c. ?b \<le> c \<longrightarrow> c < ?b + bi \<longrightarrow> used d s c"
    proof -
      show "\<not> used d s (?b + bi)" using us [OF f(1)] f(3) by simp
      have "used d s (?b + j)" if "j < bi" for j using us [of j] f(1,4) that by simp
      then show "\<forall>c. ?b \<le> c \<longrightarrow> c < ?b + bi \<longrightarrow> used d s c" by (metis add_less_cancel_left le_Suc_ex)
    qed
    have fl: "unat (of_nat (?b + bi) :: u32) = ?b + bi" by (rule unat_small) (use f(2) bn(2) in simp)
    have eq: "balloc_loop d (map (\<lambda>k. k * BPB) [k0..<m]) s =
        rbind (update_block (me s) d (BBLOCK (?b + bi) s) (mark_used ((?b + bi) mod BPB)) s) (\<lambda>s.
        rbind (bzero d (of_nat (?b + bi)) s) (\<lambda>s. Inr (of_nat (?b + bi), s)))"
      unfolding l loop_block(1) [OF f(1)] loop_block(2) [OF f(1)] list.map balloc_loop.simps
      by (simp only: small if_False r(1) rbind_simps prod.case m1(1) Some option.case Let_def update_seq [OF r(1)])
    obtain s' P' where "rbind (update_block (me s) d (BBLOCK (?b + bi) s) (mark_used ((?b + bi) mod BPB)) s) (\<lambda>s.
        rbind (bzero d (of_nat (?b + bi)) s) (\<lambda>s. Inr (of_nat (?b + bi) :: u32, s))) = Inr (of_nat (?b + bi), s')"
        "allocated_block d s (of_nat (?b + bi)) P' s'"
      using balloc_take [OF p(1-4) f(2) u(1)] by (elim exE conjE) (rule that)
    then show ?thesis unfolding eq using u(2) fl by (intro exI conjI) (assumption, assumption, simp only: fl)
  next
    case None
    have full: "used d s c" if "?b \<le> c" "c < nblocks s" "c < Suc k0 * BPB" for c
    proof -
      from that(1) obtain j where j: "c = ?b + j" by (rule le_Suc_ex [THEN exE])
      with that have "j < BPB" "j < min BPB (nblocks s - ?b)" by simp_all
      with None us [of j] j show ?thesis by (simp add: free_bit_None)
    qed
    note t2 = txstepD [OF s2(2)]
    note m2 = fs_more_fields [OF t2(5)]
    have le: "Suc k0 * BPB \<le> b" using full [OF p(8,6)] p(9) by (meson not_le)
    note c2 = bitmap_ok_cong [OF s2(3) m2(1) t2(6)] used_cong [OF s2(3) m2(1)]
    have t3: "txn_ok (me s2) d {} P s2" "1 \<le> outstanding s2" "lhn s2 + 1 < lsize s2 - 1" "bitmap_ok d s2"
        "\<forall>k < m. k * BPB < nblocks s2" "b < nblocks s2" "\<not> used d s2 b"
      unfolding c2 m2(1,5) t2(2,3) s2(4) by (fact t2(1) p(2,3,4,5,6,9))+
    have n: "n = m - Suc k0" using Suc.hyps(2) by simp
    have "\<exists>r s' P'. balloc_loop d (map (\<lambda>k. k * BPB) [Suc k0..<m]) s2 = Inr (r, s') \<and> allocated_block d s2 r P' s' \<and>
        (\<forall>c. Suc k0 * BPB \<le> c \<longrightarrow> c < unat r \<longrightarrow> used d s2 c)"
      by (rule IH [OF n t3(1-6) p(7) le t3(7)])
    then obtain r s' P' where q: "balloc_loop d (map (\<lambda>k. k * BPB) [Suc k0..<m]) s2 = Inr (r, s')" "allocated_block d s2 r P' s'"
        "\<forall>c. Suc k0 * BPB \<le> c \<longrightarrow> c < unat r \<longrightarrow> used d s2 c" by blast
    have a: "allocated_block d s r P' s'" by (rule allocated_block_cong [OF s2(2-4) q(2)])
    moreover have "used d s c" if "?b \<le> c" "c < unat r" for c
    proof (cases "c < Suc k0 * BPB")
      case True
      have "c < nblocks s" using a that(2) by (simp add: allocated_block_def)
      from full [OF that(1) this True] show ?thesis .
    next
      case False
      then show ?thesis using q(3) that(2) c2(2) by simp
    qed
    moreover have "balloc_loop d (map (\<lambda>k. k * BPB) [k0..<m]) s = Inr (r, s')"
      unfolding l using small q(1) s2(1) by (simp add: r(1) None m1(1,5))
    ultimately show ?thesis by blast
  qed
qed

lemma ceil_bounds:
  assumes "0 < (B :: nat)"
  shows "n \<le> (n + B - 1) div B * B" "k < (n + B - 1) div B \<Longrightarrow> k * B < n"
proof -
  let ?q = "(n + B - 1) div B"
  have q: "?q * B \<le> n + B - 1" "n + B - 1 < ?q * B + B"
    using assms dividend_less_div_times [of B "n + B - 1"] by (simp_all add: div_times_less_eq_dividend)
  show "n \<le> ?q * B" using q(2) by linarith
  assume "k < ?q"
  then have "Suc k * B \<le> ?q * B" by (intro mult_le_mono1) simp
  then have "Suc k * B \<le> n + B - 1" using q(1) by (rule le_trans)
  then have "B + k * B \<le> n + B - 1" unfolding mult_Suc .
  then show "k * B < n" using assms by linarith
qed

lemma balloc_ok:
  assumes "txn_ok (me s) d {} P s" "1 \<le> outstanding s" "lhn s + 1 < lsize s - 1" "bitmap_ok d s"
    and b: "b < nblocks s" "\<not> used d s b"
  shows "\<exists>r s' P'. balloc d s = Inr (r, s') \<and> allocated_block d s r P' s' \<and> (\<forall>c < unat r. used d s c)"
proof -
  let ?m = "(nblocks s + BPB - 1) div BPB"
  have BPB: "0 < BPB" by (simp add: BPB_def BSIZE_def)
  note c = ceil_bounds [OF BPB, where n = "nblocks s"]
  have m: "\<forall>k < ?m. k * BPB < nblocks s" using c(2) by blast
  have bm: "b < ?m * BPB" using b(1) c(1) by (rule less_le_trans)
  have "0 * BPB \<le> b" by simp
  from balloc_loop_ok [OF assms(1-4) m b(1) bm this b(2)] show ?thesis
    unfolding balloc_def by simp
qed

section \<open>bfree\<close>

lemma bfree_ok:
  assumes t: "txn_ok (me s) d {} P s" and o: "1 \<le> outstanding s" and room: "lhn s < lsize s - 1" and n: "BBLOCK (unat b) s \<notin> logarea s"
  shows "if used d s (unat b) then \<exists>s' P'. bfree d b s = Inr s' \<and> txstep (me s) d s P' s' \<and> lhn s' \<le> lhn s + 1 \<and>
      content d s' = (content d s)(BBLOCK (unat b) s := mark_free (unat b mod BPB) (content d s (BBLOCK (unat b) s)))
    else bfree d b s = Inl (Panic ''freeing free block'')"
proof -
  let ?n = "BBLOCK (unat b) s" let ?bi = "unat b mod BPB"
  obtain bp s1 where r: "bread (me s) d ?n s = Inr (bp, s1)" "data (bufs s1 bp) = content d s ?n"
    using bread_data [OF t n] by metis
  obtain s' P' where u: "update_block (me s) d ?n (mark_free ?bi) s = Inr s'" "txstep (me s) d s P' s'"
      "content d s' = (content d s)(?n := mark_free ?bi (content d s ?n))" "lhn s' \<le> lhn s + 1"
    using fs_update [OF t o room n, of "mark_free ?bi"] by auto
  show ?thesis
  proof (cases "used d s (unat b)")
    case True
    then have "bfree d b s = rbind (update_block (me s) d ?n (mark_free ?bi) s) Inr"
      using update_seq [OF r(1), of "mark_free ?bi" Inr] r by (simp add: bfree_def used_def Let_def rbind_return)
    then show ?thesis unfolding if_P [OF True] using u by auto
  next
    case False
    then show ?thesis using r by (simp add: bfree_def used_def)
  qed
qed

lemma content_length: "txn_ok m d H P s \<Longrightarrow> length (content d s n) = BSIZE"
  by (rule length_content [OF txn_okD(1)])

end
