(* ===== verification/Inodes.thy ===== *)
theory Inodes
  imports Blocks Samples
begin

text \<open>
  Correctness of \<open>balloc\<close> and \<open>bfree\<close> of kernel/fs.c: the bitmap of blocks in use.
\<close>

section \<open>Blocks in use\<close>

lemma not_bitmap_block:
  assumes "bitmap_ok d s" "r < nblocks s" "\<not> used d s r" "b < nblocks s"
  shows "BBLOCK b s \<noteq> of_nat r"
  using assms by (auto simp: bitmap_ok_def)

lemma allocated_used:
  assumes a: "allocated_block d s r P' s'" and bm: "bitmap_ok d s" and t: "txn_ok (me s) d {} P s" and b: "b < nblocks s"
  shows "used d s' b \<longleftrightarrow> b = unat r \<or> used d s b"
proof -
  note f = a [unfolded allocated_block_def]
  have sb: "sb s' = sb s" using fs_more_fields(1) [OF txstepD(5)] f by blast
  have n: "nblocks s \<le> 2 ^ 31" "unat r < nblocks s" "\<not> used d s (unat r)" using bm f by (auto simp: bitmap_ok_def)
  have "BBLOCK b s \<noteq> r" using not_bitmap_block [OF bm n(2,3) b] by simp
  then have c: "content d s' (BBLOCK b s) =
      ((content d s)(BBLOCK (unat r) s := mark_used (unat r mod BPB) (content d s (BBLOCK (unat r) s)))) (BBLOCK b s)"
    using f by simp
  show ?thesis using used_mark [where F = "mark_used (unat r mod BPB)" and v = True, OF c sb] n b content_length [OF t] by simp
qed

text \<open>
  C20: Allocating a block. In a transaction with room for two more blocks, on a disk with a
  free block, \<open>balloc\<close> returns the first block that is not in use. Afterwards that block is in use
  and all zero, every other block is in use as before, and no block other than it and
  its block of the bitmap has changed. The transaction goes on.
\<close>
theorem balloc_allocates:
  assumes t: "txn_ok (me s) d {} P s" and o: "1 \<le> outstanding s" and room: "lhn s + 1 < lsize s - 1" and bm: "bitmap_ok d s"
    and b: "b < nblocks s" "\<not> used d s b"
  shows "\<exists>r s' P'. balloc d s = Inr (r, s') \<and> txn_ok (me s') d {} P' s' \<and> \<not> used d s (unat r) \<and> (\<forall>c < unat r. used d s c) \<and>
    (\<forall>c < nblocks s. used d s' c \<longleftrightarrow> c = unat r \<or> used d s c) \<and> content d s' r = replicate BSIZE 0 \<and>
    (\<forall>n. n \<noteq> r \<longrightarrow> n \<noteq> BBLOCK (unat r) s \<longrightarrow> content d s' n = content d s n)"
proof -
  obtain r s' P' where r: "balloc d s = Inr (r, s')" "allocated_block d s r P' s'" "\<forall>c < unat r. used d s c"
    using balloc_ok [OF t o room bm b] by blast
  have f: "txstep (me s) d s P' s'" "\<not> used d s (unat r)"
      "content d s' = (content d s)(BBLOCK (unat r) s := mark_used (unat r mod BPB) (content d s (BBLOCK (unat r) s)), r := replicate BSIZE 0)"
    using r(2) by (simp_all add: allocated_block_def)
  have "txn_ok (me s') d {} P' s'" using txstepD(1,5) [OF f(1)] fs_more_fields(5) by metis
  then show ?thesis
    using r(1,3) f(2) allocated_used [OF r(2) bm t] by (intro exI conjI) (assumption | simp add: f(3))+
qed

text \<open>A disk whose bitmap, in block 45, marks the first 46 blocks.\<close>

definition sample_disk :: "u32 \<Rightarrow> u8 list" where
  "sample_disk = (\<lambda>_. replicate BSIZE 0)(45 := replicate 5 0xff @ [0x3f] @ replicate 1018 0)"

lemma sample_disk_ok:
  "txn_ok 1 1 {} {} (sample_io sample_disk)" "content 1 (sample_io sample_disk) = sample_disk"
  "outstanding (sample_io sample_disk) = 1" "lhn (sample_io sample_disk) = 0" "lsize (sample_io sample_disk) = 30"
proof -
  have l: "length (sample_disk n) = BSIZE" for n by (simp add: sample_disk_def BSIZE_def)
  have "get32 (sample_disk 2) 0 = 0" by (simp add: sample_disk_def get32_def de32_def slice_def BSIZE_def)
  from sample_io_ok [of sample_disk, OF l this] show "txn_ok 1 1 {} {} (sample_io sample_disk)" "content 1 (sample_io sample_disk) = sample_disk"
    "outstanding (sample_io sample_disk) = 1" "lhn (sample_io sample_disk) = 0" "lsize (sample_io sample_disk) = 30" by simp_all
qed

lemma sample_BBLOCK: "b < 1000 \<Longrightarrow> BBLOCK b (sample_io D) = 45"
  by (simp add: BBLOCK_def BPB_def BSIZE_def sample_io_sel sample_sb_def)

lemma sample_used:
  assumes "b < 1000"
  shows "used 1 (sample_io sample_disk) b \<longleftrightarrow> b < 46"
proof -
  have m: "b mod BPB = b" using assms by (simp add: BPB_def BSIZE_def)
  have bits: "bit (0xff :: u8) i \<longleftrightarrow> i < 8" "bit (0x3f :: u8) i \<longleftrightarrow> i < 6" if "i < 8" for i :: nat
    using that by (simp_all add: less_Suc_eq numeral_eq_Suc bit_word_iff_drop_bit_and) (auto simp: bit_simps)
  have "used 1 (sample_io sample_disk) b \<longleftrightarrow> bit (sample_disk 45 ! (b div 8)) (b mod 8)"
    using assms by (simp add: used_def sample_disk_ok sample_BBLOCK m bit_used_iff)
  also have "\<dots> \<longleftrightarrow> b < 46"
  proof (cases "b div 8 < 5")
    case True
    then have "sample_disk 45 ! (b div 8) = 0xff" by (simp add: sample_disk_def nth_append)
    with True bits(1) [of "b mod 8"] show ?thesis by simp
  next
    case False
    show ?thesis
    proof (cases "b div 8 = 5")
      case True
      then have "sample_disk 45 ! (b div 8) = 0x3f" by (simp add: sample_disk_def nth_append)
      with True bits(2) [of "b mod 8"] show ?thesis by simp presburger
    next
      case f: False
      with False have "5 < b div 8" by simp
      then have "sample_disk 45 ! (b div 8) = 0" using assms by (auto simp: sample_disk_def nth_append nth_Cons' nth_replicate)
      with \<open>5 < b div 8\<close> show ?thesis by simp
    qed
  qed
  finally show ?thesis .
qed

lemma sample_logarea: "x \<in> logarea (sample_io sample_disk) \<Longrightarrow> 2 \<le> unat x \<and> unat x < 32"
proof -
  have "logarea (sample_io sample_disk) = (\<lambda>k. of_int (2 + int k)) ` {..<30}"
    using sample_disk_ok(5) by (simp add: logarea_def sample_io_def extend_sel sample_logst_def)
  moreover have "unat (of_int (2 + int k) :: u32) = 2 + k" if "k < 30" for k
  proof -
    have "(of_int (2 + int k) :: u32) = of_nat (2 + k)" by simp
    then show ?thesis using that by (simp only: unat_of_nat) simp
  qed
  ultimately show "x \<in> logarea (sample_io sample_disk) \<Longrightarrow> 2 \<le> unat x \<and> unat x < 32" by auto
qed

lemma sample_bitmap_ok: "bitmap_ok 1 (sample_io sample_disk)"
proof -
  let ?s = "sample_io sample_disk"
  have n: "nblocks ?s = 1000" by (simp add: sample_io_sel sample_sb_def)
  have "used 1 ?s b" if b: "b < 1000" and c: "of_nat b \<in> logarea ?s \<or> (\<exists>c < 1000. BBLOCK c ?s = of_nat b)" for b
  proof -
    have u: "unat (of_nat b :: u32) = b" using b by (simp add: unat_of_nat)
    have "b < 46"
    proof (cases "of_nat b \<in> logarea ?s")
      case True
      then show ?thesis using sample_logarea [OF True] u by simp
    next
      case False
      then have "(of_nat b :: u32) = 45" using c sample_BBLOCK by auto
      then have "unat (of_nat b :: u32) = unat (45 :: u32)" by (rule arg_cong)
      then show ?thesis using u by simp
    qed
    then show ?thesis using sample_used [OF b] by simp
  qed
  moreover have "BBLOCK b ?s \<notin> logarea ?s" if "b < 1000" for b
    using sample_logarea [of 45] sample_BBLOCK [OF that] by auto
  ultimately show ?thesis unfolding bitmap_ok_def n by auto
qed

theorem balloc_allocates_witness:
  "\<exists>r s'. balloc 1 (sample_io sample_disk) = Inr (r, s') \<and> unat r = 46 \<and> used 1 s' 46 \<and> content 1 s' 46 = replicate BSIZE 0"
proof -
  let ?s = "sample_io sample_disk"
  have n: "nblocks ?s = 1000" and m: "me ?s = 1" by (simp_all add: sample_io_sel sample_sb_def)
  have "\<not> used 1 ?s 46" using sample_used [of 46] by simp
  then obtain r s' where r: "balloc 1 ?s = Inr (r, s')" "\<not> used 1 ?s (unat r)" "\<forall>c < unat r. used 1 ?s c"
      "\<forall>c < 1000. used 1 s' c \<longleftrightarrow> c = unat r \<or> used 1 ?s c" "content 1 s' r = replicate BSIZE 0"
    using balloc_allocates [of ?s 1 "{}" 46] sample_disk_ok sample_bitmap_ok n m by auto
  have "\<not> 46 < unat r" using r(3) \<open>\<not> used 1 ?s 46\<close> by blast
  moreover have "\<not> unat r < 46" using r(2) sample_used [of "unat r"] by auto
  ultimately have u: "unat r = 46" by simp
  then have "unat r = unat (46 :: u32)" by simp
  then have "r = 46" by (simp only: word_unat_eq_iff)
  with r u show ?thesis by auto
qed



end
