(* ===== verification/Filedata.thy ===== *)
theory Filedata
  imports Inodes
begin

text \<open>
  The data of kernel/fs.c: inodes as they lie on the disk, the inode table, the bytes of a
  file, and path names.
\<close>

section \<open>Inodes on disk\<close>

lemma slice_splice_in:
  assumes "off \<le> i" "i + n \<le> off + length xs" "off + length xs \<le> length bs"
  shows "slice i n (splice off xs bs) = slice (i - off) n xs"
proof -
  have l: "length (splice off xs bs) = length bs" using assms(3) by simp
  show ?thesis by (rule nth_equalityI) (use assms l in \<open>auto simp: nth_splice slice_def\<close>)
qed

lemma length_concat_le32: "length (concat (map le32 xs)) = 4 * length xs"
  by (induction xs) simp_all

lemma slice_concat_le32: "i < length xs \<Longrightarrow> slice (4 * i) 4 (concat (map le32 xs)) = le32 (xs ! i)"
proof (induction xs arbitrary: i)
  case (Cons x xs)
  then show ?case by (cases i) (simp_all add: slice_def)
qed simp

lemma length_dinode_bytes: "length (dinode_bytes d) = 12 + 4 * length (d_addrs d)"
  by (simp add: dinode_bytes_def length_concat_le32)

lemma dinode_fields:
  assumes "length (d_addrs d) = 13"
  shows "slice 0 2 (dinode_bytes d) = le16 (d_type d)" "slice 2 2 (dinode_bytes d) = le16 (d_major d)"
    "slice 4 2 (dinode_bytes d) = le16 (d_minor d)" "slice 6 2 (dinode_bytes d) = le16 (d_nlink d)"
    "slice 8 4 (dinode_bytes d) = le32 (d_size d)" "i < 13 \<Longrightarrow> slice (12 + 4 * i) 4 (dinode_bytes d) = le32 (d_addrs d ! i)"
  using assms slice_concat_le32 [of i "d_addrs d"] by (simp_all add: dinode_bytes_def slice_def)



section \<open>The inode table\<close>

text \<open>At most one entry in use for an inode; references are counted.\<close>

definition itable_ok :: "'a fsst_scheme \<Rightarrow> bool" where
  "itable_ok s \<longleftrightarrow> (\<forall>i < NINODE. 0 \<le> iref (inodes s i) \<and> iref (inodes s i) < 2 ^ 31) \<and>
     (\<forall>i < NINODE. \<forall>j < NINODE. 0 < iref (inodes s i) \<longrightarrow> 0 < iref (inodes s j) \<longrightarrow>
        idev (inodes s i) = idev (inodes s j) \<longrightarrow> inum (inodes s i) = inum (inodes s j) \<longrightarrow> i = j)"

lemma set_inode_sel [simp]:
  "inodes (set_inode i f s) = (inodes s)(i := f (inodes s i))" "itlock (set_inode i f s) = itlock s"
  by (simp_all add: set_inode_def)

text \<open>
  C23: \<open>iget\<close> keeps one entry per inode. On a table with at most one entry in use for every inode it
  returns the entry that holds the inode, with one more reference, or if there is none an
  unused entry, now for this inode with one reference and its contents not valid. No other
  entry changes, and the table keeps the invariant. It panics only if the inode is not in the
  table and no entry is unused; the one other way to stop is that the \<open>int\<close> that counts the
  references overflows.
\<close>
theorem iget_unique:
  assumes ok: "itable_ok s" and lk: "\<not> itlock s"
  shows "case iget d n s of
      Inr (ip, s') \<Rightarrow> ip < NINODE \<and> itable_ok s' \<and> \<not> itlock s' \<and> idev (inodes s' ip) = d \<and> inum (inodes s' ip) = n \<and>
        (\<forall>i. i \<noteq> ip \<longrightarrow> inodes s' i = inodes s i) \<and>
        (if iget_match d n (inodes s ip) then inodes s' ip = (inodes s ip)\<lparr>iref := iref (inodes s ip) + 1\<rparr>
         else iref (inodes s ip) = 0 \<and> iref (inodes s' ip) = 1 \<and> \<not> ivalid (inodes s' ip) \<and> (\<forall>i < NINODE. \<not> iget_match d n (inodes s i)))
    | Inl e \<Rightarrow> e = Panic ''iget: no inodes'' \<and> (\<forall>i < NINODE. 0 < iref (inodes s i) \<and> \<not> iget_match d n (inodes s i)) \<or>
        e = Undef ''signed overflow'' \<and> (\<exists>i < NINODE. iget_match d n (inodes s i) \<and> iref (inodes s i) = 2 ^ 31 - 1)"
proof -
  have a: "acquire_it s = Inr (s\<lparr>itlock := True\<rparr>)" using lk by (simp add: acquire_it_def spin_acquire_def)
  have rel: "release_it (set_inode i f (s\<lparr>itlock := True\<rparr>)) = Inr ((set_inode i f (s\<lparr>itlock := True\<rparr>))\<lparr>itlock := False\<rparr>)" for i f
    by (simp add: release_it_def spin_release_def)
  show ?thesis
  proof (cases "find_idx (iget_match d n) (map (inodes s) [0..<NINODE])")
    case (Some ip)
    note f = find_idx_Some [OF Some]
    have m: "ip < NINODE" "iget_match d n (inodes s ip)" using f by auto
    show ?thesis
    proof (cases "iref (inodes s ip) \<ge> 2 ^ 31 - 1")
      case True
      moreover have "iref (inodes s ip) < 2 ^ 31" using ok m(1) by (simp add: itable_ok_def)
      ultimately have "iref (inodes s ip) = 2 ^ 31 - 1" by simp
      with True m Some a show ?thesis by (auto simp: iget_def)
    next
      case False
      with m show ?thesis using ok a rel Some by (auto simp: iget_def itable_ok_def iget_match_def)
    qed
  next
    case None
    then have nm: "\<forall>i < NINODE. \<not> iget_match d n (inodes s i)" by (auto simp: find_idx_None)
    show ?thesis
    proof (cases "find_idx (\<lambda>x. iref x = 0) (map (inodes s) [0..<NINODE])")
      case u: None
      then have "\<forall>i < NINODE. iref (inodes s i) \<noteq> 0" by (auto simp: find_idx_None)
      then have "\<forall>i < NINODE. 0 < iref (inodes s i)" using ok unfolding itable_ok_def by (metis order_le_less)
      then show ?thesis using a None u nm by (simp add: iget_def)
    next
      case (Some ip)
      note f = find_idx_Some [OF Some]
      have m: "ip < NINODE" "iref (inodes s ip) = 0" using f by auto
      then show ?thesis using ok a rel None Some nm by (auto simp: iget_def itable_ok_def iget_match_def)
    qed
  qed
qed

theorem iget_unique_witness:
  "\<exists>ip s'. iget 1 1 (sample_io sample_disk) = Inr (ip, s') \<and> ip < NINODE \<and> itable_ok s' \<and> iref (inodes s' ip) = 1 \<and> inum (inodes s' ip) = 1"
proof -
  let ?s = "sample_io sample_disk"
  have z: "iref (inodes ?s i) = 0" for i by (simp add: sample_io_sel bss_inode_def)
  then have "itable_ok ?s" by (simp add: itable_ok_def)
  moreover have "\<not> iget_match 1 1 (inodes ?s i)" for i by (simp add: iget_match_def z)
  moreover have "0 < NINODE" by (simp add: NINODE_def)
  ultimately show ?thesis
    using iget_unique [of ?s 1 1] z by (auto simp: sample_io_sel(2) split: sum.splits prod.splits)
qed

section \<open>The bytes of a file\<close>

text \<open>The block that holds block \<open>k\<close> of a file, and byte \<open>i\<close> of a file.\<close>

definition faddr :: "u32 \<Rightarrow> 'a fsst_scheme \<Rightarrow> nat \<Rightarrow> nat \<Rightarrow> u32" where
  "faddr d s ip k =
     (if k < NDIRECT then addrs (inodes s ip) ! k
      else get32 (content d s (addrs (inodes s ip) ! NDIRECT)) (k - NDIRECT))"

definition file_byte :: "u32 \<Rightarrow> 'a fsst_scheme \<Rightarrow> nat \<Rightarrow> nat \<Rightarrow> u8" where
  "file_byte d s ip i = content d s (faddr d s ip (i div BSIZE)) ! (i mod BSIZE)"

text \<open>Every block of the file is allocated, outside the log.\<close>

definition file_ok :: "u32 \<Rightarrow> 'a fsst_scheme \<Rightarrow> nat \<Rightarrow> bool" where
  "file_ok d s ip \<longleftrightarrow>
     idev (inodes s ip) = d \<and> unat (isize (inodes s ip)) \<le> MAXFILE * BSIZE \<and>
     (\<forall>k. k * BSIZE < unat (isize (inodes s ip)) \<longrightarrow> faddr d s ip k \<noteq> 0 \<and> faddr d s ip k \<notin> logarea s \<and>
        (NDIRECT \<le> k \<longrightarrow> addrs (inodes s ip) ! NDIRECT \<noteq> 0 \<and> addrs (inodes s ip) ! NDIRECT \<notin> logarea s))"

lemma file_cong:
  assumes "txstep m d s P s'" "content d s' = content d s"
  shows "faddr d s' ip = faddr d s ip" "file_byte d s' ip = file_byte d s ip" "file_ok d s' ip = file_ok d s ip"
    "inodes s' = inodes s" "me s' = me s"
proof -
  note m = fs_more_fields [OF txstepD(5) [OF assms(1)]]
  show i: "inodes s' = inodes s" "me s' = me s" using m by simp_all
  show f: "faddr d s' ip = faddr d s ip" for ip by (rule ext) (simp only: faddr_def i assms(2))
  show "file_byte d s' ip = file_byte d s ip" by (rule ext) (simp only: file_byte_def f assms(2))
  show "file_ok d s' ip = file_ok d s ip" by (simp only: file_ok_def f i txstepD(6) [OF assms(1)])
qed

lemma bmap_allocated:
  assumes t: "txn_ok (me s) d {} P s" and f: "file_ok d s ip" and k: "unat bn * BSIZE < unat (isize (inodes s ip))"
  shows "\<exists>s'. bmap ip bn s = Inr (faddr d s ip (unat bn), s') \<and> txstep (me s) d s P s' \<and> content d s' = content d s"
proof -
  have d: "idev (inodes s ip) = d" and a: "faddr d s ip (unat bn) \<noteq> 0"
    and i: "NDIRECT \<le> unat bn \<Longrightarrow> addrs (inodes s ip) ! NDIRECT \<noteq> 0 \<and> addrs (inodes s ip) ! NDIRECT \<notin> logarea s"
    using f k by (auto simp: file_ok_def)
  show ?thesis
  proof (cases "unat bn < NDIRECT")
    case True
    have "txstep (me s) d s P s" using t by (simp add: txstep_def)
    with True a show ?thesis by (auto simp: bmap_def faddr_def Let_def)
  next
    case False
    let ?a = "addrs (inodes s ip) ! NDIRECT"
    have n: "unat bn - NDIRECT < NINDIRECT"
    proof -
      have "unat (isize (inodes s ip)) \<le> MAXFILE * BSIZE" using f by (simp add: file_ok_def)
      with k have "unat bn * BSIZE < MAXFILE * BSIZE" by (rule less_le_trans)
      then have "unat bn < MAXFILE" by simp
      with False show ?thesis by (simp add: MAXFILE_def)
    qed
    have ia: "?a \<noteq> 0" "?a \<notin> logarea s" using i False by simp_all
    obtain bp s1 s2 where r: "bread (me s) d ?a s = Inr (bp, s1)" "data (bufs s1 bp) = content d s ?a" "logst.more s1 = logst.more s"
        "brelse (me s) bp s1 = Inr s2" "txstep (me s) d s P s2" "content d s2 = content d s"
      using bread_data [OF t ia(2)] by metis
    have "get32 (data (bufs s1 bp)) (unat bn - NDIRECT) \<noteq> 0" using a False r(2) by (simp add: faddr_def)
    then show ?thesis
      using r n ia False d fs_more_fields(5) [OF r(3)] by (simp add: bmap_def Let_def faddr_def)
  qed
qed

lemma file_slice:
  assumes t: "txn_ok (me s) d {} P s" and m: "pos mod BSIZE + m \<le> BSIZE"
  shows "slice (pos mod BSIZE) m (content d s (faddr d s ip (pos div BSIZE))) = map (file_byte d s ip) [pos..<pos + m]"
proof (rule nth_equalityI)
  have l: "length (content d s n) = BSIZE" for n by (rule content_length [OF t])
  show "length (slice (pos mod BSIZE) m (content d s (faddr d s ip (pos div BSIZE)))) = length (map (file_byte d s ip) [pos..<pos + m])"
    using m l by simp
  fix i assume "i < length (slice (pos mod BSIZE) m (content d s (faddr d s ip (pos div BSIZE))))"
  then have i: "i < m" using m l by simp
  have B: "0 < BSIZE" by (simp add: BSIZE_def)
  have "pos + i = pos div BSIZE * BSIZE + (pos mod BSIZE + i)" by (simp add: add.assoc [symmetric])
  moreover have "pos mod BSIZE + i < BSIZE" using i m by simp
  ultimately have "(pos + i) div BSIZE = pos div BSIZE" "(pos + i) mod BSIZE = pos mod BSIZE + i"
    using B by (metis add.commute add.right_neutral div_less div_mult_self3 less_numeral_extra(3), metis mod_less mod_mult_self3)
  then show "slice (pos mod BSIZE) m (content d s (faddr d s ip (pos div BSIZE))) ! i = map (file_byte d s ip) [pos..<pos + m] ! i"
    using i m l by (simp add: file_byte_def)
qed

lemma io_chunk_unat:
  assumes "tot < n"
  shows "unat (io_chunk (n - tot) off) = min (unat (n - tot)) (BSIZE - unat off mod BSIZE)"
    "0 < unat (io_chunk (n - tot) off)" "unat off mod BSIZE + unat (io_chunk (n - tot) off) \<le> BSIZE"
    "unat (n - (tot + io_chunk (n - tot) off)) = unat (n - tot) - unat (io_chunk (n - tot) off)" "tot + io_chunk (n - tot) off \<le> n"
proof -
  let ?m = "io_chunk (n - tot) off"
  have le: "off mod 1024 \<le> 1024" by (simp add: word_le_nat_alt unat_mod)
  have u: "unat (1024 - off mod 1024) = 1024 - unat off mod 1024" using unat_sub [OF le] by (simp add: unat_mod)
  show m: "unat ?m = min (unat (n - tot)) (BSIZE - unat off mod BSIZE)"
    unfolding io_chunk_def min_def word_le_nat_alt u by (simp add: BSIZE_def u)
  have r: "0 < n - tot" using assms by (metis right_minus_eq word_gt_0 less_irrefl)
  then show "0 < unat ?m" using io_chunk_bounds(1) [of "n - tot" off] by (simp add: word_less_nat_alt)
  show "unat off mod BSIZE + unat ?m \<le> BSIZE" unfolding m by (simp add: BSIZE_def)
  have b: "?m \<le> n - tot" by (rule io_chunk_bounds(2))
  have "n - (tot + ?m) = n - tot - ?m" by simp
  then show "unat (n - (tot + ?m)) = unat (n - tot) - unat ?m" using unat_sub [OF b] by (simp only:)
  have tn: "unat (n - tot) = unat n - unat tot" using unat_sub [of tot n] assms by simp
  have mb: "unat ?m \<le> unat n - unat tot" using b tn by (simp add: word_le_nat_alt)
  then have "unat tot + unat ?m \<le> unat n" using assms by (simp add: word_less_nat_alt)
  moreover from this have "unat (tot + ?m) = unat tot + unat ?m"
    using unsigned_less [of n, where 'a = nat] by (subst unat_plus_simple [THEN iffD1, symmetric]) (simp_all add: no_olen_add_nat)
  ultimately show "tot + ?m \<le> n" by (simp add: word_le_nat_alt)
qed

lemma upt_split: "i \<le> j \<Longrightarrow> j \<le> k \<Longrightarrow> [i..<k] = [i..<j] @ [j..<k]"
  by (metis le_Suc_ex upt_add_eq_append)

lemma readi_loop_reads:
  assumes "txn_ok (me s) d {} P s" "file_ok d s ip" "tot \<le> n" "unat off + unat (n - tot) \<le> unat (isize (inodes s ip))"
  shows "\<exists>s'. readi_loop ip ToLocal off n tot acc s =
      Inr (sint n, acc @ map (file_byte d s ip) [unat off..<unat off + unat (n - tot)], s') \<and>
    txstep (me s) d s P s' \<and> content d s' = content d s"
  using assms
proof (induction "unat (n - tot)" arbitrary: off tot acc s rule: less_induct)
  case less
  note t = less.prems(1) and f = less.prems(2) and b = less.prems(4)
  show ?case
  proof (cases "tot < n")
    case False
    then have "tot = n" using less.prems(3) by simp
    moreover have "txstep (me s) d s P s" using t by (simp add: txstep_def)
    ultimately show ?thesis by (subst readi_loop.simps) simp
  next
    case True
    let ?m = "io_chunk (n - tot) off" let ?bs = "map (file_byte d s ip) [unat off..<unat off + unat ?m]"
    note c = io_chunk_unat [OF True, of off]
    have ml: "unat ?m \<le> unat (n - tot)" using c(1) by simp
    have u: "unat (off div 1024) = unat off div BSIZE" by (simp add: unat_div BSIZE_def)
    have "unat off div BSIZE * BSIZE \<le> unat off" by simp
    also have "unat off < unat (isize (inodes s ip))" using b c(2) ml by linarith
    finally have k: "unat (off div 1024) * BSIZE < unat (isize (inodes s ip))" unfolding u .
    let ?a = "faddr d s ip (unat off div BSIZE)"
    obtain s1 where 1: "bmap ip (off div 1024) s = Inr (?a, s1)" "txstep (me s) d s P s1" "content d s1 = content d s"
      using bmap_allocated [OF t f k] u by auto
    note g1 = file_cong [OF 1(2,3)]
    have t1: "txn_ok (me s1) d {} P s1" using txstepD(1) [OF 1(2)] g1(5) by simp
    have la: "?a \<notin> logarea s1" "idev (inodes s1 ip) = d" using f k u g1 txstepD(6) [OF 1(2)] by (auto simp: file_ok_def)
    obtain bp s2 s3 where 2: "bread (me s1) d ?a s1 = Inr (bp, s2)" "data (bufs s2 bp) = content d s1 ?a" "logst.more s2 = logst.more s1"
        "brelse (me s1) bp s2 = Inr s3" "txstep (me s1) d s1 P s3" "content d s3 = content d s1"
      using bread_data [OF t1 la(1)] by metis
    have ts: "txstep (me s) d s P s3" "content d s3 = content d s" using txstep_trans [OF 1(2)] 2(5,6) 1(3) g1(5) by simp_all
    note g3 = file_cong [OF ts]
    have sl: "slice (unat off mod BSIZE) (unat ?m) (data (bufs s2 bp)) = ?bs"
      unfolding 2(2) 1(3) by (rule file_slice [OF t c(3)])
    have m2: "me s2 = me s1" using fs_more_fields(5) [OF 2(3)] by simp
    have e: "readi_loop ip ToLocal off n tot acc s = readi_loop ip ToLocal (off + ?m) n (tot + ?m) (acc @ ?bs) s3"
      by (subst readi_loop.simps) (simp add: True 1(1) la(2) 2(1,4) m2 copy_dst_def dst_plus_def Let_def sl)
    have o: "unat (off + ?m) = unat off + unat ?m"
    proof -
      have "unat off + unat ?m < 2 ^ 32" using b ml unsigned_less [of "isize (inodes s ip)", where 'a = nat] by simp
      then show ?thesis by (simp add: unat_word_ariths)
    qed
    have r: "unat (n - (tot + ?m)) < unat (n - tot)" using c(2,4) ml by simp
    have t3: "txn_ok (me s3) d {} P s3" "file_ok d s3 ip" using txstepD(1) [OF ts(1)] g3(3,5) f by simp_all
    have b3: "unat (off + ?m) + unat (n - (tot + ?m)) \<le> unat (isize (inodes s3 ip))" using b o c(4) ml g3(4) by simp
    from less.hyps [OF r t3 c(5) b3, of "acc @ ?bs"] obtain s' where
      s': "readi_loop ip ToLocal (off + ?m) n (tot + ?m) (acc @ ?bs) s3 = Inr (sint n, (acc @ ?bs) @
          map (file_byte d s3 ip) [unat (off + ?m)..<unat (off + ?m) + unat (n - (tot + ?m))], s')"
        "txstep (me s3) d s3 P s'" "content d s' = content d s3" by blast
    have up: "[unat off..<unat off + unat (n - tot)] =
        [unat off..<unat off + unat ?m] @ [unat (off + ?m)..<unat (off + ?m) + unat (n - (tot + ?m))]"
      unfolding o c(4) using ml upt_split [of "unat off" "unat off + unat ?m" "unat off + unat (n - tot)"] by simp
    have "readi_loop ip ToLocal off n tot acc s =
        Inr (sint n, acc @ map (file_byte d s ip) [unat off..<unat off + unat (n - tot)], s')"
      unfolding e s'(1) up g3(2) by (simp only: map_append append_assoc)
    moreover have "txstep (me s) d s3 P s'" using s'(2) g3(5) by simp
    then have "txstep (me s) d s P s'" by (rule txstep_trans [OF ts(1)])
    moreover have "content d s' = content d s" using s'(3) ts(2) by simp
    ultimately show ?thesis by blast
  qed
qed

text \<open>
  C22: Reading a file. On a file whose blocks are allocated, \<open>readi\<close> into the kernel returns the bytes
  of the file from \<open>off\<close> on, at most \<open>n\<close> of them and none past the end of the file, and their
  number; the file system is left as it is. An offset past the end, or a range that wraps
  around, reads nothing.
\<close>
theorem readi_reads:
  assumes t: "txn_ok (me s) d {} P s" and f: "file_ok d s ip"
  shows "\<exists>s'. readi ip ToLocal off n s =
      Inr (let bs = (if off + n < off then [] else map (file_byte d s ip) [unat off..<min (unat (off + n)) (unat (isize (inodes s ip)))])
           in (int (length bs), bs, s')) \<and>
    txn_ok (me s') d {} P s' \<and> content d s' = content d s \<and> inodes s' = inodes s"
proof -
  let ?z = "isize (inodes s ip)"
  have z: "unat ?z \<le> 274432" using f by (simp add: file_ok_def MAXFILE_def NDIRECT_def NINDIRECT_def BSIZE_def)
  show ?thesis
  proof (cases "?z < off \<or> off + n < off")
    case True
    then have "min (unat (off + n)) (unat ?z) \<le> unat off \<or> off + n < off" by (auto simp: word_less_nat_alt)
    with True t show ?thesis by (auto simp: readi_def)
  next
    case False
    then have le: "off \<le> ?z" "off \<le> off + n" by auto
    define k where "k = (if ?z < off + n then ?z - off else n)"
    have on: "unat (off + n) = unat off + unat n" using le(2) by (simp add: unat_plus_simple)
    have ku: "unat off + unat k = min (unat (off + n)) (unat ?z)"
      using unat_sub [OF le(1)] le(1) on by (auto simp: k_def word_less_nat_alt word_le_nat_alt not_less)
    then have kz: "unat off + unat (k - 0) \<le> unat ?z" by simp
    have "0 \<le> k" by simp
    from readi_loop_reads [OF t f this kz, of "[]"] ku obtain s' where
      r: "readi_loop ip ToLocal off k 0 [] s = Inr (sint k, map (file_byte d s ip) [unat off..<min (unat (off + n)) (unat ?z)], s')"
        "txstep (me s) d s P s'" "content d s' = content d s" by auto
    note g = file_cong [OF r(2,3)]
    have "unat k < 2 ^ 31" using kz z by simp
    then have "sint k = int (unat k)" by (rule sint_small)
    moreover have "length (map (file_byte d s ip) [unat off..<min (unat (off + n)) (unat ?z)]) = unat k" unfolding ku [symmetric] by simp
    moreover have "readi ip ToLocal off n s = readi_loop ip ToLocal off k 0 [] s" using False by (simp add: readi_def k_def)
    ultimately show ?thesis using r g txstepD(1) [OF r(2)] False by simp
  qed
qed

text \<open>A file of five bytes in block 100.\<close>

definition hello_disk :: "u32 \<Rightarrow> u8 list" where
  "hello_disk = (\<lambda>_. replicate BSIZE 0)(100 := [104, 101, 108, 108, 111] @ replicate 1019 0)"

definition hello_fs :: filest where
  "hello_fs = (sample_io hello_disk)\<lparr>inodes := (\<lambda>_. bss_inode)(0 := bss_inode\<lparr>idev := 1, isize := 5, addrs := 100 # replicate 12 0\<rparr>)\<rparr>"

lemma set_inodes_txn:
  "txn_ok p d H P (s\<lparr>inodes := x\<rparr>) = txn_ok p d H P s" "content d (s\<lparr>inodes := x\<rparr>) = content d s" "logarea (s\<lparr>inodes := x\<rparr>) = logarea s"
  by (simp_all add: txn_ok_def bio_ok_def log_geo_def logged_def logarea_def loghead_def content_def fun_eq_iff split: option.split)

lemma hello_ok: "txn_ok 1 1 {} {} hello_fs" "content 1 hello_fs = hello_disk" "file_ok 1 hello_fs 0"
proof -
  have l: "length (hello_disk n) = BSIZE" for n by (simp add: hello_disk_def BSIZE_def)
  have "get32 (hello_disk 2) 0 = 0" by (simp add: hello_disk_def get32_def de32_def slice_def BSIZE_def)
  note s = sample_io_ok [of hello_disk, OF l this]
  show t: "txn_ok 1 1 {} {} hello_fs" "content 1 hello_fs = hello_disk" using s by (simp_all add: hello_fs_def set_inodes_txn)
  have i: "inodes hello_fs 0 = bss_inode\<lparr>idev := 1, isize := 5, addrs := 100 # replicate 12 0\<rparr>" by (simp add: hello_fs_def)
  have "100 \<notin> logarea hello_fs"
  proof
    assume "100 \<in> logarea hello_fs"
    then obtain k where "k < 30" "(100 :: u32) = of_int (2 + int k)"
      using s(4,5) by (auto simp: hello_fs_def set_inodes_txn logarea_def)
    then have "(100 :: u32) = of_nat (2 + k)" by simp
    then have "unat (100 :: u32) = unat (of_nat (2 + k) :: u32)" by (rule arg_cong)
    moreover have "unat (of_nat (2 + k) :: u32) = 2 + k" using \<open>k < 30\<close> by (intro unat_small) simp
    ultimately show False using \<open>k < 30\<close> by simp
  qed
  moreover have z: "k = 0" if "k * 1024 < 5" for k :: nat using that by simp
  ultimately show "file_ok 1 hello_fs 0"
    unfolding file_ok_def i by (auto simp: faddr_def i NDIRECT_def MAXFILE_def NINDIRECT_def BSIZE_def dest!: z)
qed

theorem readi_reads_witness:
  "\<exists>s'. readi 0 ToLocal 1 100 hello_fs = Inr (4, [101, 108, 108, 111], s')"
proof -
  have i: "inodes hello_fs 0 = bss_inode\<lparr>idev := 1, isize := 5, addrs := 100 # replicate 12 0\<rparr>" "me hello_fs = 1"
    by (simp_all add: hello_fs_def sample_io_sel)
  have "[1..<5] = [1, 2, 3, 4 :: nat]" by (simp add: upt_conv_Cons)
  then have "map (file_byte 1 hello_fs 0) [1..<5] = [101, 108, 108, 111]"
    by (simp add: file_byte_def faddr_def hello_ok(2) hello_disk_def i NDIRECT_def BSIZE_def)
  then show ?thesis using readi_reads [of hello_fs 1 "{}" 0 1 100] hello_ok(1,3) i by (auto simp: Let_def)
qed

section \<open>Path names\<close>

text \<open>The elements that \<open>namex\<close> visits, by repeated \<open>skipelem\<close>; and a path split at its slashes.\<close>

function path_elems :: "u8 list \<Rightarrow> u8 list list" where
  "path_elems path = (case skipelem path of None \<Rightarrow> [] | Some (rest, name) \<Rightarrow> name # path_elems rest)"
  by pat_completeness auto
termination
  by (relation "measure length") (auto dest: skipelem_shorter)

declare path_elems.simps [simp del]

fun split_slash :: "u8 list \<Rightarrow> u8 list list" where
  "split_slash [] = [[]]"
| "split_slash (c # cs) =
     (if c = SLASH then [] # split_slash cs
      else case split_slash cs of [] \<Rightarrow> [[c]] | w # ws \<Rightarrow> (c # w) # ws)"

definition path_words :: "u8 list \<Rightarrow> u8 list list" where
  "path_words path = filter (\<lambda>w. w \<noteq> []) (split_slash path)"

lemma split_slash_ne: "split_slash cs \<noteq> []"
  by (induction cs) (auto split: list.splits)

lemma path_words_slash: "path_words (dropWhile (\<lambda>c. c = SLASH) cs) = path_words cs"
  by (induction cs) (auto simp: path_words_def)

lemma split_slash_word:
  assumes "SLASH \<notin> set w"
  shows "split_slash (w @ SLASH # cs) = w # split_slash cs" "split_slash w = [w]"
  using assms by (induction w) (auto split: list.splits)

lemma path_words_word:
  assumes "w \<noteq> []" "SLASH \<notin> set w" "cs = [] \<or> hd cs = SLASH"
  shows "path_words (w @ cs) = w # path_words cs"
proof (cases cs)
  case Nil
  with assms split_slash_word(2) [OF assms(2)] show ?thesis by (simp add: path_words_def)
next
  case (Cons c ds)
  with assms split_slash_word(1) [OF assms(2), of ds] show ?thesis by (simp add: path_words_def)
qed

text \<open>
  C25: \<open>skipelem\<close> walks through a path word by word: the elements it yields, one after the other,
  are the non-empty words between slashes, each cut to \<open>DIRSIZ\<close> characters. Leading, trailing
  and repeated slashes do not matter.
\<close>
theorem skipelem_words: "path_elems path = map (take DIRSIZ) (path_words path)"
proof (induction path rule: path_elems.induct)
  case (1 path)
  let ?p = "dropWhile (\<lambda>c. c = SLASH) path"
  show ?case
  proof (cases "?p = []")
    case True
    then have "path_words path = path_words []" using path_words_slash [of path] by metis
    then have "path_words path = []" by (simp add: path_words_def)
    with True show ?thesis by (subst path_elems.simps) (simp add: skipelem_def)
  next
    case False
    let ?w = "takeWhile (\<lambda>c. c \<noteq> SLASH) ?p" let ?r = "dropWhile (\<lambda>c. c \<noteq> SLASH) ?p"
    let ?q = "dropWhile (\<lambda>c. c = SLASH) ?r"
    have s: "skipelem path = Some (?q, take DIRSIZ ?w)" using False by (simp add: skipelem_def Let_def)
    have "hd ?p \<noteq> SLASH" using False by (rule hd_dropWhile)
    then have w: "?w \<noteq> []" using False by (cases ?p) auto
    have sw: "SLASH \<notin> set ?w" by (auto dest: set_takeWhileD)
    have h: "?r = [] \<or> hd ?r = SLASH" using hd_dropWhile [of "\<lambda>c. c \<noteq> SLASH" ?p] by auto
    have "path_words path = path_words (?w @ ?r)" using path_words_slash [of path] by simp
    also have "\<dots> = ?w # path_words ?r" by (rule path_words_word [OF w sw h])
    also have "path_words ?r = path_words ?q" by (rule path_words_slash [symmetric])
    finally show ?thesis using "1.IH" [OF s] s by (subst path_elems.simps) simp
  qed
qed

end
