(* ===== verification/File.thy ===== *)
theory File
  imports Pipe
begin

text \<open>
  The rest of kernel/file.c, and \<open>pipealloc\<close>: closing, reading and writing an open file,
  whatever is behind it. \<open>run_res\<close> makes a process that goes to sleep in a pipe the outcome
  \<open>Block\<close>.
\<close>

definition run_res :: "run \<times> 's \<Rightarrow> (int \<times> 's) res" where
  "run_res r = (case r of (Done n, s) \<Rightarrow> Inr (n, s) | (Asleep ch i, s) \<Rightarrow> Inl (Block ch))"

definition fileclose :: "nat \<Rightarrow> 'a filest_scheme \<Rightarrow> 'a filest_scheme res" where
  "fileclose f s =
     rbind (acquire_ft s) (\<lambda>s.
     if f_ref (files s f) < 1 then Inl (Panic ''fileclose'')
     else
       let s = set_file f (\<lambda>x. x\<lparr>f_ref := f_ref x - 1\<rparr>) s in
       if f_ref (files s f) > 0 then release_ft s
       else
         let ff = files s f;
             s = set_file f (\<lambda>x. x\<lparr>f_ref := 0, f_type := FD_NONE\<rparr>) s in
         rbind (release_ft s) (\<lambda>s.
         if f_type ff = FD_PIPE then pipeclose (f_pipe ff) (f_writable ff) s
         else if f_type ff = FD_INODE \<or> f_type ff = FD_DEVICE then
           rbind (begin_op s) (\<lambda>s.
           rbind (iput (f_ip ff) s) (\<lambda>s.
           end_op (me s) s))
         else Inr s))"

text \<open>
  A fresh page is filled with the byte 5 by \<open>kalloc\<close>, the array \<open>data\<close> too. \<open>pipealloc\<close>
  returns the two files; a failure after an allocation closes what there is.
\<close>

definition new_pipe :: pipe where
  "new_pipe =
     \<lparr>pi_lock = False, pi_data = replicate PIPESIZE 5, nread = 0, nwrite = 0, readopen = True, writeopen = True\<rparr>"

definition pipealloc_bad :: "nat \<Rightarrow> nat \<Rightarrow> 'a filest_scheme \<Rightarrow> (int \<times> nat \<times> nat \<times> 'a filest_scheme) res" where
  "pipealloc_bad f0 f1 s =
     rbind (if f0 \<noteq> NFILE then fileclose f0 s else Inr s) (\<lambda>s.
     rbind (if f1 \<noteq> NFILE then fileclose f1 s else Inr s) (\<lambda>s.
     Inr (-1, f0, f1, s)))"

definition pipealloc :: "'a filest_scheme \<Rightarrow> (int \<times> nat \<times> nat \<times> 'a filest_scheme) res" where
  "pipealloc s =
     rbind (filealloc s) (\<lambda>(f0, s).
     if f0 = NFILE then pipealloc_bad NFILE NFILE s
     else
       rbind (filealloc s) (\<lambda>(f1, s).
       if f1 = NFILE then pipealloc_bad f0 NFILE s
       else
         rbind (kalloc (umem s)) (\<lambda>(a, k).
         let s = s\<lparr>umem := k\<rparr> in
         if a = 0 then pipealloc_bad f0 f1 s
         else
           let s = set_pipe a (\<lambda>_. new_pipe) s;
               s = set_file f0 (\<lambda>x. x\<lparr>f_type := FD_PIPE, f_readable := True, f_writable := False, f_pipe := a\<rparr>) s;
               s = set_file f1 (\<lambda>x. x\<lparr>f_type := FD_PIPE, f_readable := False, f_writable := True, f_pipe := a\<rparr>) s
           in Inr (0, f0, f1, s))))"

text \<open>\<open>struct stat\<close> in memory; \<open>pad\<close> are its four bytes of padding, which no assignment sets.\<close>

definition le64 :: "u64 \<Rightarrow> u8 list" where
  "le64 w = le32 (ucast w) @ le32 (ucast (drop_bit 32 w))"

definition de64 :: "u8 list \<Rightarrow> u64" where
  "de64 bs = ucast (de32 (take 4 bs)) OR push_bit 32 (ucast (de32 (drop 4 bs)))"

definition stat_bytes :: "u8 list \<Rightarrow> stat \<Rightarrow> u8 list" where
  "stat_bytes pad st =
     le32 (st_dev st) @ le32 (st_ino st) @ le16 (st_type st) @ le16 (st_nlink st) @ pad @ le64 (st_size st)"

definition filestat :: "u8 list \<Rightarrow> nat \<Rightarrow> u64 \<Rightarrow> 'a filest_scheme \<Rightarrow> (int \<times> 'a filest_scheme) res" where
  "filestat pad f addr s =
     (if f_type (files s f) = FD_INODE \<or> f_type (files s f) = FD_DEVICE then
        rbind (ilock (f_ip (files s f)) s) (\<lambda>s.
        let st = stati (f_ip (files s f)) s in
        rbind (iunlock (f_ip (files s f)) s) (\<lambda>s.
        rbind (copyout (pagetable (cur s)) addr (stat_bytes pad st) (umem s)) (\<lambda>(r, k).
        let s = s\<lparr>umem := k\<rparr> in
        Inr (if r < 0 then -1 else 0, s))))
      else Inr (-1, s))"

text \<open>\<open>devsw[major].read\<close> and \<open>devsw[major].write\<close>, if the major number is valid and the function set.\<close>

definition dev_at :: "u16 \<Rightarrow> (nat \<Rightarrow> devfn option) \<Rightarrow> devfn option" where
  "dev_at m tab = (if sint m < 0 \<or> sint m \<ge> int NDEV then None else tab (unat m))"

definition call_dev :: "devfn \<Rightarrow> u64 \<Rightarrow> int \<Rightarrow> 'a filest_scheme \<Rightarrow> (int \<times> 'a filest_scheme) res" where
  "call_dev fn addr n s =
     (case fn of Consoleread \<Rightarrow> consoleread (User addr) n s | Consolewrite \<Rightarrow> consolewrite (User addr) n s)"

definition fileread :: "nat \<Rightarrow> u64 \<Rightarrow> int \<Rightarrow> 'a filest_scheme \<Rightarrow> (int \<times> 'a filest_scheme) res" where
  "fileread f addr n s =
     (if \<not> f_readable (files s f) then Inr (-1, s)
      else
        case f_type (files s f) of
          FD_PIPE \<Rightarrow> rbind (piperead (f_pipe (files s f)) addr n s) run_res
        | FD_DEVICE \<Rightarrow>
            (case dev_at (f_major (files s f)) (devread s) of
               None \<Rightarrow> Inr (-1, s)
             | Some fn \<Rightarrow> call_dev fn addr n s)
        | FD_INODE \<Rightarrow>
            rbind (ilock (f_ip (files s f)) s) (\<lambda>s.
            rbind (readi (f_ip (files s f)) (ToMem (User addr)) (f_off (files s f)) (of_int n) s) (\<lambda>(r, _, s).
            let s = (if r > 0 then set_file f (\<lambda>x. x\<lparr>f_off := f_off x + of_int r\<rparr>) s else s) in
            rbind (iunlock (f_ip (files s f)) s) (\<lambda>s.
            Inr (r, s))))
        | FD_NONE \<Rightarrow> Inl (Panic ''fileread''))"

text \<open>\<open>int max = ((MAXOPBLOCKS-1-1-2) / 2) * BSIZE\<close>\<close>

definition max_write :: int where
  "max_write = ((int MAXOPBLOCKS - 1 - 1 - 2) div 2) * int BSIZE"

function filewrite_loop :: "nat \<Rightarrow> u64 \<Rightarrow> int \<Rightarrow> int \<Rightarrow> 'a filest_scheme \<Rightarrow> (int \<times> 'a filest_scheme) res" where
  "filewrite_loop f addr n i s =
     (if i < n then
        let n1 = min (n - i) max_write in
        rbind (begin_op s) (\<lambda>s.
        rbind (ilock (f_ip (files s f)) s) (\<lambda>s.
        rbind (writei (f_ip (files s f)) (FromMem (User (addr + of_int i))) (f_off (files s f)) (of_int n1) s)
          (\<lambda>(r, s).
        let s = (if r > 0 then set_file f (\<lambda>x. x\<lparr>f_off := f_off x + of_int r\<rparr>) s else s) in
        rbind (iunlock (f_ip (files s f)) s) (\<lambda>s.
        rbind (end_op (me s) s) (\<lambda>s.
        if r \<noteq> n1 then Inr (i, s) else filewrite_loop f addr n (i + r) s)))))
      else Inr (i, s))"
  by pat_completeness auto
termination
  by (relation "measure (\<lambda>(f, addr, n, i, s). nat (n - i))")
    (auto simp: max_write_def MAXOPBLOCKS_def BSIZE_def)

declare filewrite_loop.simps [simp del]

definition filewrite :: "nat \<Rightarrow> u64 \<Rightarrow> int \<Rightarrow> 'a filest_scheme \<Rightarrow> (int \<times> 'a filest_scheme) res" where
  "filewrite f addr n s =
     (if \<not> f_writable (files s f) then Inr (-1, s)
      else
        case f_type (files s f) of
          FD_PIPE \<Rightarrow> rbind (pipewrite (f_pipe (files s f)) addr n s) run_res
        | FD_DEVICE \<Rightarrow>
            (case dev_at (f_major (files s f)) (devwrite s) of
               None \<Rightarrow> Inr (-1, s)
             | Some fn \<Rightarrow> call_dev fn addr n s)
        | FD_INODE \<Rightarrow> rbind (filewrite_loop f addr n 0 s) (\<lambda>(i, s). Inr (if i = n then n else -1, s))
        | FD_NONE \<Rightarrow> Inl (Panic ''filewrite''))"

end
