(* ===== verification/Sysfile.thy ===== *)
theory Sysfile
  imports File
begin

text \<open>
  The arguments of system calls (kernel/syscall.c) and the system calls on files
  (kernel/sysfile.c). The arguments are in the trap frame of the running process. A handler
  returns a C integer, which \<open>syscall\<close> stores in \<open>a0\<close>.
\<close>

section \<open>Arguments\<close>

definition MAXPATH :: nat where "MAXPATH = 128"
definition MAXARG :: nat where "MAXARG = 32"
definition O_WRONLY :: u32 where "O_WRONLY = 1"
definition O_RDWR :: u32 where "O_RDWR = 2"
definition O_CREATE :: u32 where "O_CREATE = 0x200"
definition O_TRUNC :: u32 where "O_TRUNC = 0x400"

definition fetchaddr :: "u64 \<Rightarrow> 'a fsst_scheme \<Rightarrow> (int \<times> u64) res" where
  "fetchaddr addr s =
     (if addr \<ge> sz (cur s) \<or> addr + 8 > sz (cur s) then Inr (-1, 0)
      else
        rbind (copyin (pagetable (cur s)) addr 8 (umem s)) (\<lambda>(r, bs).
        if r \<noteq> 0 then Inr (-1, 0) else Inr (0, de64 bs)))"

text \<open>\<open>fetchstr\<close>: the result and the bytes that are stored in \<open>buf\<close>.\<close>

definition fetchstr :: "u64 \<Rightarrow> nat \<Rightarrow> 'a fsst_scheme \<Rightarrow> (int \<times> u8 list) res" where
  "fetchstr addr n s =
     rbind (copyinstr (pagetable (cur s)) addr n (umem s)) (\<lambda>(err, bs).
     if err < 0 then Inr (err, bs)
     else Inr (int (length (takeWhile (\<lambda>c. c \<noteq> 0) bs)), bs))"

definition argraw :: "int \<Rightarrow> 'a fsst_scheme \<Rightarrow> u64 res" where
  "argraw n s =
     (if 0 \<le> n \<and> n \<le> 5 then Inr (load64 (ram (umem s)) (trapframe (cur s) + 112 + 8 * nat n))
      else Inl (Panic ''argraw''))"

definition argint :: "int \<Rightarrow> 'a fsst_scheme \<Rightarrow> u32 res" where
  "argint n s = rbind (argraw n s) (\<lambda>v. Inr (ucast v))"

definition argaddr :: "int \<Rightarrow> 'a fsst_scheme \<Rightarrow> u64 res" where
  "argaddr n s = argraw n s"

text \<open>The string is what \<open>buf\<close> holds up to its terminating zero.\<close>

definition argstr :: "int \<Rightarrow> nat \<Rightarrow> 'a fsst_scheme \<Rightarrow> (int \<times> u8 list) res" where
  "argstr n lim s =
     rbind (argaddr n s) (\<lambda>addr.
     rbind (fetchstr addr lim s) (\<lambda>(r, bs).
     Inr (r, takeWhile (\<lambda>c. c \<noteq> 0) bs)))"

definition set_cur :: "(proc \<Rightarrow> proc) \<Rightarrow> 'a fsst_scheme \<Rightarrow> 'a fsst_scheme" where
  "set_cur g s = s\<lparr>cur := g (cur s)\<rparr>"

definition set_ofile :: "nat \<Rightarrow> nat option \<Rightarrow> 'a fsst_scheme \<Rightarrow> 'a fsst_scheme" where
  "set_ofile fd f s = set_cur (\<lambda>p. p\<lparr>ofile := (ofile p)(fd := f)\<rparr>) s"

text \<open>\<open>argfd\<close>: None for the result -1, else the descriptor and the file.\<close>

definition argfd :: "int \<Rightarrow> 'a fsst_scheme \<Rightarrow> (nat \<times> nat) option res" where
  "argfd n s =
     rbind (argint n s) (\<lambda>v.
     let fd = sint v in
     if fd < 0 \<or> fd \<ge> int NOFILE then Inr None
     else
       case ofile (cur s) (nat fd) of
         None \<Rightarrow> Inr None
       | Some f \<Rightarrow> Inr (Some (nat fd, f)))"

definition fdalloc :: "nat \<Rightarrow> 'a fsst_scheme \<Rightarrow> int \<times> 'a fsst_scheme" where
  "fdalloc f s =
     (case find_idx (\<lambda>x. x = None) (map (ofile (cur s)) [0..<NOFILE]) of
        Some fd \<Rightarrow> (int fd, set_ofile fd (Some f) s)
      | None \<Rightarrow> (-1, s))"

section \<open>Descriptors\<close>

definition sys_dup :: "'a filest_scheme \<Rightarrow> (int \<times> 'a filest_scheme) res" where
  "sys_dup s =
     rbind (argfd 0 s) (\<lambda>a.
     case a of
       None \<Rightarrow> Inr (-1, s)
     | Some (_, f) \<Rightarrow>
         let (fd, s) = fdalloc f s in
         if fd < 0 then Inr (-1, s)
         else rbind (filedup f s) (\<lambda>(_, s). Inr (fd, s)))"

definition sys_read :: "'a filest_scheme \<Rightarrow> (int \<times> 'a filest_scheme) res" where
  "sys_read s =
     rbind (argfd 0 s) (\<lambda>a.
     case a of
       None \<Rightarrow> Inr (-1, s)
     | Some (_, f) \<Rightarrow>
         rbind (argint 2 s) (\<lambda>n.
         rbind (argaddr 1 s) (\<lambda>p.
         fileread f p (sint n) s)))"

definition sys_write :: "'a filest_scheme \<Rightarrow> (int \<times> 'a filest_scheme) res" where
  "sys_write s =
     rbind (argfd 0 s) (\<lambda>a.
     case a of
       None \<Rightarrow> Inr (-1, s)
     | Some (_, f) \<Rightarrow>
         rbind (argint 2 s) (\<lambda>n.
         rbind (argaddr 1 s) (\<lambda>p.
         filewrite f p (sint n) s)))"

definition sys_close :: "'a filest_scheme \<Rightarrow> (int \<times> 'a filest_scheme) res" where
  "sys_close s =
     rbind (argfd 0 s) (\<lambda>a.
     case a of
       None \<Rightarrow> Inr (-1, s)
     | Some (fd, f) \<Rightarrow> rbind (fileclose f (set_ofile fd None s)) (\<lambda>s. Inr (0, s)))"

definition sys_fstat :: "u8 list \<Rightarrow> 'a filest_scheme \<Rightarrow> (int \<times> 'a filest_scheme) res" where
  "sys_fstat pad s =
     rbind (argfd 0 s) (\<lambda>a.
     case a of
       None \<Rightarrow> Inr (-1, s)
     | Some (_, f) \<Rightarrow> rbind (argaddr 1 s) (\<lambda>st. filestat pad f st s))"

definition sys_pipe :: "'a filest_scheme \<Rightarrow> (int \<times> 'a filest_scheme) res" where
  "sys_pipe s =
     rbind (argaddr 0 s) (\<lambda>fdarray.
     rbind (pipealloc s) (\<lambda>(r, rf, wf, s).
     if r < 0 then Inr (-1, s)
     else
       let (fd0, s) = fdalloc rf s;
           (fd1, s) = (if fd0 < 0 then (-1, s) else fdalloc wf s) in
       if fd0 < 0 \<or> fd1 < 0 then
         let s = (if fd0 \<ge> 0 then set_ofile (nat fd0) None s else s) in
         rbind (fileclose rf s) (\<lambda>s.
         rbind (fileclose wf s) (\<lambda>s. Inr (-1, s)))
       else
         rbind (copyout (pagetable (cur s)) fdarray (le32 (of_int fd0)) (umem s)) (\<lambda>(r0, k).
         rbind (if r0 < 0 then Inr (r0, k)
                else copyout (pagetable (cur s)) (fdarray + 4) (le32 (of_int fd1)) k) (\<lambda>(r1, k).
         let s = s\<lparr>umem := k\<rparr> in
         if r1 < 0 then
           let s = set_ofile (nat fd1) None (set_ofile (nat fd0) None s) in
           rbind (fileclose rf s) (\<lambda>s.
           rbind (fileclose wf s) (\<lambda>s. Inr (-1, s)))
         else Inr (0, s)))))"

section \<open>Directories and names\<close>

text \<open>\<open>end_op(); return r;\<close>\<close>

definition end_with :: "int \<Rightarrow> 'a fsst_scheme \<Rightarrow> (int \<times> 'a fsst_scheme) res" where
  "end_with r s = rbind (end_op (me s) s) (\<lambda>s. Inr (r, s))"

definition link_bad :: "nat \<Rightarrow> 'a fsst_scheme \<Rightarrow> (int \<times> 'a fsst_scheme) res" where
  "link_bad ip s =
     rbind (ilock ip s) (\<lambda>s.
     rbind (iupdate ip (set_inode ip (\<lambda>x. x\<lparr>nlink := nlink x - 1\<rparr>) s)) (\<lambda>s.
     rbind (iunlockput ip s) (end_with (-1))))"

definition link_to :: "u8 list \<Rightarrow> u8 list \<Rightarrow> 'a fsst_scheme \<Rightarrow> (int \<times> 'a fsst_scheme) res" where
  "link_to old new s =
     rbind (begin_op s) (\<lambda>s.
     rbind (namei old s) (\<lambda>(ip, s).
     if ip = NINODE then end_with (-1) s
     else
       rbind (ilock ip s) (\<lambda>s.
       if itype (inodes s ip) = T_DIR then rbind (iunlockput ip s) (end_with (-1))
       else
         rbind (iupdate ip (set_inode ip (\<lambda>x. x\<lparr>nlink := nlink x + 1\<rparr>) s)) (\<lambda>s.
         rbind (iunlock ip s) (\<lambda>s.
         rbind (nameiparent new s) (\<lambda>(dp, name, s).
         if dp = NINODE then link_bad ip s
         else
           rbind (ilock dp s) (\<lambda>s.
           rbind (if idev (inodes s dp) \<noteq> idev (inodes s ip) then Inr (-1, s)
                  else dirlink dp name (inum (inodes s ip)) s) (\<lambda>(r, s).
           if r < 0 then rbind (iunlockput dp s) (link_bad ip)
           else
             rbind (iunlockput dp s) (\<lambda>s.
             rbind (iput ip s) (end_with 0))))))))))"

definition sys_link :: "'a fsst_scheme \<Rightarrow> (int \<times> 'a fsst_scheme) res" where
  "sys_link s =
     rbind (argstr 0 MAXPATH s) (\<lambda>(r, old).
     if r < 0 then Inr (-1, s)
     else
       rbind (argstr 1 MAXPATH s) (\<lambda>(r, new).
       if r < 0 then Inr (-1, s) else link_to old new s))"

text \<open>The offsets from the third entry on.\<close>

fun isdirempty_loop :: "nat \<Rightarrow> nat list \<Rightarrow> 'a fsst_scheme \<Rightarrow> (bool \<times> 'a fsst_scheme) res" where
  "isdirempty_loop dp [] s = Inr (True, s)"
| "isdirempty_loop dp (off # offs) s =
     rbind (readi dp ToLocal (of_nat off) 16 s) (\<lambda>(r, bs, s).
     if r \<noteq> 16 then Inl (Panic ''isdirempty: readi'')
     else if de_inum (get_dirent bs) \<noteq> 0 then Inr (False, s)
     else isdirempty_loop dp offs s)"

definition isdirempty :: "nat \<Rightarrow> 'a fsst_scheme \<Rightarrow> (bool \<times> 'a fsst_scheme) res" where
  "isdirempty dp s = isdirempty_loop dp (drop 2 (entry_offs (isize (inodes s dp)))) s"

definition unlink_bad :: "nat \<Rightarrow> 'a fsst_scheme \<Rightarrow> (int \<times> 'a fsst_scheme) res" where
  "unlink_bad dp s = rbind (iunlockput dp s) (end_with (-1))"

definition unlink_path :: "u8 list \<Rightarrow> 'a fsst_scheme \<Rightarrow> (int \<times> 'a fsst_scheme) res" where
  "unlink_path path s =
     rbind (begin_op s) (\<lambda>s.
     rbind (nameiparent path s) (\<lambda>(dp, name, s).
     if dp = NINODE then end_with (-1) s
     else
       rbind (ilock dp s) (\<lambda>s.
       if namecmp name [46] = 0 \<or> namecmp name [46, 46] = 0 then unlink_bad dp s
       else
         rbind (dirlookup dp name s) (\<lambda>(ip, off, s).
         if ip = NINODE then unlink_bad dp s
         else
           rbind (ilock ip s) (\<lambda>s.
           if sint (nlink (inodes s ip)) < 1 then Inl (Panic ''unlink: nlink < 1'')
           else
             rbind (if itype (inodes s ip) = T_DIR then isdirempty ip s else Inr (True, s)) (\<lambda>(empty, s).
             if itype (inodes s ip) = T_DIR \<and> \<not> empty then rbind (iunlockput ip s) (unlink_bad dp)
             else
               rbind (writei dp (FromLocal (replicate 16 0)) (of_nat off) 16 s) (\<lambda>(r, s).
               if r \<noteq> 16 then Inl (Panic ''unlink: writei'')
               else
                 rbind (if itype (inodes s ip) = T_DIR
                        then iupdate dp (set_inode dp (\<lambda>x. x\<lparr>nlink := nlink x - 1\<rparr>) s)
                        else Inr s) (\<lambda>s.
                 rbind (iunlockput dp s) (\<lambda>s.
                 rbind (iupdate ip (set_inode ip (\<lambda>x. x\<lparr>nlink := nlink x - 1\<rparr>) s)) (\<lambda>s.
                 rbind (iunlockput ip s) (end_with 0)))))))))))"

definition sys_unlink :: "'a fsst_scheme \<Rightarrow> (int \<times> 'a fsst_scheme) res" where
  "sys_unlink s =
     rbind (argstr 0 MAXPATH s) (\<lambda>(r, path).
     if r < 0 then Inr (-1, s) else unlink_path path s)"

definition create :: "u8 list \<Rightarrow> u16 \<Rightarrow> u16 \<Rightarrow> u16 \<Rightarrow> 'a fsst_scheme \<Rightarrow> (nat \<times> 'a fsst_scheme) res" where
  "create path ty maj mino s =
     rbind (nameiparent path s) (\<lambda>(dp, name, s).
     if dp = NINODE then Inr (NINODE, s)
     else
       rbind (ilock dp s) (\<lambda>s.
       rbind (dirlookup dp name s) (\<lambda>(ip, _, s).
       if ip \<noteq> NINODE then
         rbind (iunlockput dp s) (\<lambda>s.
         rbind (ilock ip s) (\<lambda>s.
         if ty = T_FILE \<and> (itype (inodes s ip) = T_FILE \<or> itype (inodes s ip) = T_DEVICE) then Inr (ip, s)
         else rbind (iunlockput ip s) (\<lambda>s. Inr (NINODE, s))))
       else
         rbind (ialloc (idev (inodes s dp)) ty s) (\<lambda>(ip, s).
         rbind (ilock ip s) (\<lambda>s.
         rbind (iupdate ip (set_inode ip (\<lambda>x. x\<lparr>imajor := maj, iminor := mino, nlink := 1\<rparr>) s)) (\<lambda>s.
         rbind (if ty = T_DIR then
                  rbind (iupdate dp (set_inode dp (\<lambda>x. x\<lparr>nlink := nlink x + 1\<rparr>) s)) (\<lambda>s.
                  rbind (dirlink ip [46] (inum (inodes s ip)) s) (\<lambda>(r, s).
                  rbind (if r < 0 then Inr (r, s) else dirlink ip [46, 46] (inum (inodes s dp)) s) (\<lambda>(r, s).
                  if r < 0 then Inl (Panic ''create dots'') else Inr s)))
                else Inr s) (\<lambda>s.
         rbind (dirlink dp name (inum (inodes s ip)) s) (\<lambda>(r, s).
         if r < 0 then Inl (Panic ''create: dirlink'')
         else rbind (iunlockput dp s) (\<lambda>s. Inr (ip, s))))))))))"

definition open_inode :: "u8 list \<Rightarrow> u32 \<Rightarrow> 'a fsst_scheme \<Rightarrow> (nat \<times> 'a fsst_scheme) res" where
  "open_inode path omode s =
     (if omode AND O_CREATE \<noteq> 0 then create path T_FILE 0 0 s
      else
        rbind (namei path s) (\<lambda>(ip, s).
        if ip = NINODE then Inr (NINODE, s)
        else
          rbind (ilock ip s) (\<lambda>s.
          if itype (inodes s ip) = T_DIR \<and> omode \<noteq> 0 then
            rbind (iunlockput ip s) (\<lambda>s. Inr (NINODE, s))
          else Inr (ip, s))))"

definition open_path :: "u8 list \<Rightarrow> u32 \<Rightarrow> 'a filest_scheme \<Rightarrow> (int \<times> 'a filest_scheme) res" where
  "open_path path omode s =
     rbind (begin_op s) (\<lambda>s.
     rbind (open_inode path omode s) (\<lambda>(ip, s).
     if ip = NINODE then end_with (-1) s
     else if itype (inodes s ip) = T_DEVICE \<and>
             (sint (imajor (inodes s ip)) < 0 \<or> sint (imajor (inodes s ip)) \<ge> int NDEV) then
       rbind (iunlockput ip s) (end_with (-1))
     else
       rbind (filealloc s) (\<lambda>(f, s).
       let (fd, s) = (if f = NFILE then (-1, s) else fdalloc f s) in
       if f = NFILE \<or> fd < 0 then
         rbind (if f \<noteq> NFILE then fileclose f s else Inr s) (\<lambda>s.
         rbind (iunlockput ip s) (end_with (-1)))
       else
         let s = (if itype (inodes s ip) = T_DEVICE
                  then set_file f (\<lambda>x. x\<lparr>f_type := FD_DEVICE, f_major := imajor (inodes s ip)\<rparr>) s
                  else set_file f (\<lambda>x. x\<lparr>f_type := FD_INODE, f_off := 0\<rparr>) s);
             s = set_file f (\<lambda>x. x\<lparr>f_ip := ip, f_readable := omode AND O_WRONLY = 0,
                                   f_writable := omode AND O_WRONLY \<noteq> 0 \<or> omode AND O_RDWR \<noteq> 0\<rparr>) s in
         rbind (if omode AND O_TRUNC \<noteq> 0 \<and> itype (inodes s ip) = T_FILE then itrunc ip s else Inr s) (\<lambda>s.
         rbind (iunlock ip s) (end_with fd)))))"

definition sys_open :: "'a filest_scheme \<Rightarrow> (int \<times> 'a filest_scheme) res" where
  "sys_open s =
     rbind (argstr 0 MAXPATH s) (\<lambda>(r, path).
     if r < 0 then Inr (-1, s) else rbind (argint 1 s) (\<lambda>omode. open_path path omode s))"

definition sys_mkdir :: "'a fsst_scheme \<Rightarrow> (int \<times> 'a fsst_scheme) res" where
  "sys_mkdir s =
     rbind (begin_op s) (\<lambda>s.
     rbind (argstr 0 MAXPATH s) (\<lambda>(r, path).
     if r < 0 then end_with (-1) s
     else
       rbind (create path T_DIR 0 0 s) (\<lambda>(ip, s).
       if ip = NINODE then end_with (-1) s
       else rbind (iunlockput ip s) (end_with 0))))"

definition sys_mknod :: "'a fsst_scheme \<Rightarrow> (int \<times> 'a fsst_scheme) res" where
  "sys_mknod s =
     rbind (begin_op s) (\<lambda>s.
     rbind (argstr 0 MAXPATH s) (\<lambda>(r, path).
     if r < 0 then end_with (-1) s
     else
       rbind (argint 1 s) (\<lambda>maj.
       rbind (argint 2 s) (\<lambda>mino.
       rbind (create path T_DEVICE (ucast maj) (ucast mino) s) (\<lambda>(ip, s).
       if ip = NINODE then end_with (-1) s
       else rbind (iunlockput ip s) (end_with 0))))))"

definition sys_chdir :: "'a fsst_scheme \<Rightarrow> (int \<times> 'a fsst_scheme) res" where
  "sys_chdir s =
     rbind (begin_op s) (\<lambda>s.
     rbind (argstr 0 MAXPATH s) (\<lambda>(r, path).
     if r < 0 then end_with (-1) s
     else
       rbind (namei path s) (\<lambda>(ip, s).
       if ip = NINODE then end_with (-1) s
       else
         rbind (ilock ip s) (\<lambda>s.
         if itype (inodes s ip) \<noteq> T_DIR then rbind (iunlockput ip s) (end_with (-1))
         else
           rbind (iunlock ip s) (\<lambda>s.
           rbind (iput (case cwd (cur s) of None \<Rightarrow> NINODE | Some d \<Rightarrow> d) s) (\<lambda>s.
           rbind (end_op (me s) s) (\<lambda>s.
           Inr (0, set_cur (\<lambda>p. p\<lparr>cwd := Some ip\<rparr>) s))))))))"

end
