(* ===== verification/Exec.thy ===== *)
theory Exec
  imports Sysfile
begin

text \<open>
  kernel/exec.c and \<open>sys_exec\<close>. The program image is built in a page table of its own; any
  error before the commit gives that page table back (\<open>exec_bad\<close>) and leaves the old image.
\<close>

section \<open>Program files\<close>

definition ELF_MAGIC :: u32 where "ELF_MAGIC = 0x464C457F"
definition ELF_PROG_LOAD :: u32 where "ELF_PROG_LOAD = 1"

record elfhdr =
  e_magic :: u32
  e_entry :: u64
  e_phoff :: u64
  e_phnum :: u16

record proghdr =
  ph_type :: u32
  ph_off :: u64
  ph_vaddr :: u64
  ph_filesz :: u64
  ph_memsz :: u64

definition get_elfhdr :: "u8 list \<Rightarrow> elfhdr" where
  "get_elfhdr bs =
     \<lparr>e_magic = de32 (slice 0 4 bs), e_entry = de64 (slice 24 8 bs), e_phoff = de64 (slice 32 8 bs),
      e_phnum = de16 (slice 56 2 bs)\<rparr>"

definition get_proghdr :: "u8 list \<Rightarrow> proghdr" where
  "get_proghdr bs =
     \<lparr>ph_type = de32 (slice 0 4 bs), ph_off = de64 (slice 8 8 bs), ph_vaddr = de64 (slice 16 8 bs),
      ph_filesz = de64 (slice 32 8 bs), ph_memsz = de64 (slice 40 8 bs)\<rparr>"

section \<open>Loading\<close>

text \<open>
  The loop of \<open>loadseg\<close>; the list holds the values of \<open>i\<close>, the multiples of \<open>PGSIZE\<close> below \<open>n\<close>. If \<open>n\<close> is
  so large that \<open>i += PGSIZE\<close> wraps around, the loop starts over.
\<close>

fun loadseg_loop :: "nat \<Rightarrow> u64 \<Rightarrow> nat \<Rightarrow> u32 \<Rightarrow> u32 \<Rightarrow> nat list \<Rightarrow> 'a fsst_scheme \<Rightarrow> (int \<times> 'a fsst_scheme) res" where
  "loadseg_loop pt va ip off n [] s = (if 2 ^ 32 - PGSIZE < unat n then Inl Hang else Inr (0, s))"
| "loadseg_loop pt va ip off n (i # rest) s =
     rbind (walkaddr pt (va + of_nat i) (umem s)) (\<lambda>pa.
     if pa = 0 then Inl (Panic ''loadseg: address should exist'')
     else
       let m = (if unat n - i < PGSIZE then unat n - i else PGSIZE) in
       rbind (readi ip (ToMem (Kernel (unat pa))) (off + of_nat i) (of_nat m) s) (\<lambda>(r, _, s).
       if r \<noteq> int m then Inr (-1, s) else loadseg_loop pt va ip off n rest s))"

definition loadseg :: "nat \<Rightarrow> u64 \<Rightarrow> nat \<Rightarrow> u32 \<Rightarrow> u32 \<Rightarrow> 'a fsst_scheme \<Rightarrow> (int \<times> 'a fsst_scheme) res" where
  "loadseg pt va ip off n s =
     loadseg_loop pt va ip off n (map (\<lambda>k. k * PGSIZE) [0..<(unat n + PGSIZE - 1) div PGSIZE]) s"

text \<open>The loop over the program headers: whether it succeeds, the size so far and the state. \<open>off\<close> is an \<open>int\<close>.\<close>

fun load_headers :: "nat \<Rightarrow> nat \<Rightarrow> nat \<Rightarrow> u32 \<Rightarrow> u64 \<Rightarrow> 'a fsst_scheme \<Rightarrow> (bool \<times> u64 \<times> 'a fsst_scheme) res" where
  "load_headers pt ip 0 off n s = Inr (True, n, s)"
| "load_headers pt ip (Suc k) off n s =
     rbind (readi ip ToLocal off 56 s) (\<lambda>(r, bs, s).
     if r \<noteq> 56 then Inr (False, n, s)
     else
       let ph = get_proghdr bs in
       if ph_type ph \<noteq> ELF_PROG_LOAD then load_headers pt ip k (off + 56) n s
       else if ph_memsz ph < ph_filesz ph then Inr (False, n, s)
       else if ph_vaddr ph + ph_memsz ph < ph_vaddr ph then Inr (False, n, s)
       else
         rbind (uvmalloc pt n (ph_vaddr ph + ph_memsz ph) (umem s)) (\<lambda>(n1, k').
         let s = s\<lparr>umem := k'\<rparr> in
         if n1 = 0 then Inr (False, n, s)
         else if ph_vaddr ph mod 4096 \<noteq> 0 then Inr (False, n1, s)
         else
           rbind (loadseg pt (ph_vaddr ph) ip (ucast (ph_off ph)) (ucast (ph_filesz ph)) s) (\<lambda>(r, s).
           if r < 0 then Inr (False, n1, s) else load_headers pt ip k (off + 56) n1 s)))"

text \<open>
  The argument strings are pushed below \<open>sp\<close>; the result is the new \<open>sp\<close> and the entries of
  \<open>ustack\<close>, or None. \<open>ustack\<close> has \<open>MAXARG\<close> entries, one of them for the terminating zero.
\<close>

fun push_args :: "nat \<Rightarrow> u64 \<Rightarrow> u8 list list \<Rightarrow> nat \<Rightarrow> u64 \<Rightarrow> u64 list \<Rightarrow> kmem \<Rightarrow> ((u64 \<times> u64 list) option \<times> kmem) res" where
  "push_args pt base [] argc stk ustack k =
     (if argc \<ge> MAXARG then Inl (Undef ''ustack[]'') else Inr (Some (stk, ustack @ [0]), k))"
| "push_args pt base (a # argv) argc stk ustack k =
     (if argc \<ge> MAXARG then Inr (None, k)
      else
        let stk = stk - of_nat (length a + 1);
            stk = stk - stk mod 16 in
        if stk < base then Inr (None, k)
        else
          rbind (copyout pt stk (a @ [0]) k) (\<lambda>(r, k).
          if r < 0 then Inr (None, k) else push_args pt base argv (Suc argc) stk (ustack @ [stk]) k))"

text \<open>\<open>goto bad\<close> with the page table \<open>pt\<close> (0 if there is none) and the locked inode \<open>ip\<close>, if any.\<close>

definition exec_bad :: "nat \<Rightarrow> u64 \<Rightarrow> nat \<Rightarrow> 'a fsst_scheme \<Rightarrow> (int \<times> 'a fsst_scheme) res" where
  "exec_bad pt n ip s =
     rbind (if pt \<noteq> 0 then rbind (proc_freepagetable pt n (umem s)) (\<lambda>k. Inr (s\<lparr>umem := k\<rparr>)) else Inr s) (\<lambda>s.
     rbind (if ip \<noteq> NINODE then rbind (iunlockput ip s) (\<lambda>s. end_op (me s) s) else Inr s) (\<lambda>s.
     Inr (-1, s)))"

definition path_last :: "u8 list \<Rightarrow> u8 list" where
  "path_last path = rev (takeWhile (\<lambda>c. c \<noteq> SLASH) (rev path))"

definition set_tf :: "nat \<Rightarrow> u64 \<Rightarrow> 'a fsst_scheme \<Rightarrow> 'a fsst_scheme" where
  "set_tf off v s = s\<lparr>umem := (umem s)\<lparr>ram := store64 (ram (umem s)) (trapframe (cur s) + off) v\<rparr>\<rparr>"

text \<open>From the stack on: the image is loaded, \<open>n\<close> is its size.\<close>

definition exec_stack :: "u8 list \<Rightarrow> u8 list list \<Rightarrow> elfhdr \<Rightarrow> nat \<Rightarrow> u64 \<Rightarrow> 'a fsst_scheme \<Rightarrow> (int \<times> 'a fsst_scheme) res" where
  "exec_stack path argv elf pt n s =
     (let oldsz = sz (cur s);
          n = PGROUNDUP n in
      rbind (uvmalloc pt n (n + 2 * 4096) (umem s)) (\<lambda>(n1, k).
      if n1 = 0 then exec_bad pt n NINODE (s\<lparr>umem := k\<rparr>)
      else
        rbind (uvmclear pt (n1 - 2 * 4096) k) (\<lambda>k.
        let base = n1 - 4096 in
        rbind (push_args pt base argv 0 n1 [] k) (\<lambda>(r, k).
        let s = s\<lparr>umem := k\<rparr> in
        case r of
          None \<Rightarrow> exec_bad pt n1 NINODE s
        | Some (stk, ustack) \<Rightarrow>
            let stk = stk - of_nat (length ustack * 8);
                stk = stk - stk mod 16 in
            if stk < base then exec_bad pt n1 NINODE s
            else
              rbind (copyout pt stk (concat (map le64 ustack)) (umem s)) (\<lambda>(r, k).
              let s = s\<lparr>umem := k\<rparr> in
              if r < 0 then exec_bad pt n1 NINODE s
              else
                let s = set_tf 120 stk s;
                    s = set_cur (\<lambda>p. p\<lparr>pname := map (\<lambda>c. char_of (unat c)) (take 15 (path_last path))\<rparr>) s;
                    oldpt = pagetable (cur s);
                    s = set_cur (\<lambda>p. p\<lparr>pagetable := pt, sz := n1\<rparr>) s;
                    s = set_tf 24 (e_entry elf) s;
                    s = set_tf 48 stk s in
                rbind (proc_freepagetable oldpt oldsz (umem s)) (\<lambda>k.
                Inr (int (length argv), s\<lparr>umem := k\<rparr>)))))))"

definition exec :: "kparams \<Rightarrow> u8 list \<Rightarrow> u8 list list \<Rightarrow> 'a fsst_scheme \<Rightarrow> (int \<times> 'a fsst_scheme) res" where
  "exec K path argv s =
     rbind (begin_op s) (\<lambda>s.
     rbind (namei path s) (\<lambda>(ip, s).
     if ip = NINODE then end_with (-1) s
     else
       rbind (ilock ip s) (\<lambda>s.
       rbind (readi ip ToLocal 0 64 s) (\<lambda>(r, bs, s).
       if r \<noteq> 64 then exec_bad 0 0 ip s
       else
         let elf = get_elfhdr bs in
         if e_magic elf \<noteq> ELF_MAGIC then exec_bad 0 0 ip s
         else
           rbind (proc_pagetable K (cur s) (umem s)) (\<lambda>(pt, k).
           let s = s\<lparr>umem := k\<rparr> in
           if pt = 0 then exec_bad 0 0 ip s
           else
             rbind (load_headers pt ip (unat (e_phnum elf)) (ucast (e_phoff elf)) 0 s) (\<lambda>(ok, n, s).
             if \<not> ok then exec_bad pt n ip s
             else
               rbind (iunlockput ip s) (\<lambda>s.
               rbind (end_op (me s) s) (\<lambda>s.
               exec_stack path argv elf pt n s))))))))"

section \<open>sys_exec\<close>

text \<open>
  Fetching \<open>argv[]\<close>: each string goes to a page of its own. The result is the strings (None
  after an error) and the pages.
\<close>

fun fetch_argv :: "u64 \<Rightarrow> nat \<Rightarrow> nat \<Rightarrow> nat list \<Rightarrow> u8 list list \<Rightarrow> 'a fsst_scheme \<Rightarrow>
    (u8 list list option \<times> nat list \<times> 'a fsst_scheme) res" where
  "fetch_argv uargv 0 i pages strs s = Inr (None, pages, s)"
| "fetch_argv uargv (Suc m) i pages strs s =
     rbind (fetchaddr (uargv + 8 * of_nat i) s) (\<lambda>(r, uarg).
     if r < 0 then Inr (None, pages, s)
     else if uarg = 0 then Inr (Some strs, pages, s)
     else
       rbind (kalloc (umem s)) (\<lambda>(a, k).
       let s = s\<lparr>umem := k\<rparr> in
       if a = 0 then Inr (None, pages, s)
       else
         rbind (fetchstr uarg PGSIZE s) (\<lambda>(r, bs).
         let s = s\<lparr>umem := (umem s)\<lparr>ram := put_bytes (ram (umem s)) a bs\<rparr>\<rparr>;
             pages = pages @ [a] in
         if r < 0 then Inr (None, pages, s)
         else fetch_argv uargv m (Suc i) pages (strs @ [takeWhile (\<lambda>c. c \<noteq> 0) bs]) s)))"

definition free_page :: "nat \<Rightarrow> 'a fsst_scheme \<Rightarrow> 'a fsst_scheme res" where
  "free_page a s = rbind (kfree a (umem s)) (\<lambda>k. Inr (s\<lparr>umem := k\<rparr>))"

definition sys_exec :: "kparams \<Rightarrow> 'a fsst_scheme \<Rightarrow> (int \<times> 'a fsst_scheme) res" where
  "sys_exec K s =
     rbind (argstr 0 MAXPATH s) (\<lambda>(r, path).
     if r < 0 then Inr (-1, s)
     else
       rbind (argaddr 1 s) (\<lambda>uargv.
       rbind (fetch_argv uargv MAXARG 0 [] [] s) (\<lambda>(argv, pages, s).
       case argv of
         None \<Rightarrow> rbind (for_each free_page pages s) (\<lambda>s. Inr (-1, s))
       | Some strs \<Rightarrow>
           rbind (exec K path strs s) (\<lambda>(ret, s).
           rbind (for_each free_page pages s) (\<lambda>s. Inr (ret, s))))))"

end
