(* ===== verification/Virtio.thy ===== *)
theory Virtio
  imports Spinlock Bytes
begin

text \<open>
  kernel/virtio_disk.c: the driver of the disk. The memory that driver and device share is
  in \<open>vdisk\<close>: the descriptors, the ring of available requests (written by the driver) and the
  ring of used requests (written by the device). An address that the driver hands to the
  device is an \<open>vaddr\<close>: a command header, the data of a buffer or a status byte.

  \<open>vbusy b\<close> is \<open>b->disk\<close>. \<open>virtio_disk_rw\<close> sleeps in two places. \<open>rw_submit\<close> runs up to the
  notification of the device, \<open>rw_finish\<close> is what follows once the request is done; a process
  that has to wait gets \<open>None\<close>.
\<close>

section \<open>State\<close>

definition NUM :: nat where "NUM = 8"
definition VRING_DESC_F_NEXT :: u16 where "VRING_DESC_F_NEXT = 1"
definition VRING_DESC_F_WRITE :: u16 where "VRING_DESC_F_WRITE = 2"
definition VIRTIO_BLK_T_IN :: u32 where "VIRTIO_BLK_T_IN = 0"
definition VIRTIO_BLK_T_OUT :: u32 where "VIRTIO_BLK_T_OUT = 1"

datatype vaddr = NullAddr | OpsAddr nat | DataAddr nat | StatusAddr nat

record virtq_desc =
  v_addr :: vaddr
  v_len :: u32
  v_flags :: u16
  v_next :: u16

record virtio_blk_req =
  r_type :: u32
  r_reserved :: u32
  r_sector :: u64

record vdisk =
  vdlock :: bool
  desc :: "virtq_desc list"
  avail_idx :: u16
  avail_ring :: "u16 list"
  used_dev :: u16
  used_ring :: "u32 list"
  vfree :: "bool list"
  used_idx :: u16
  vinfo_b :: "nat option list"
  vstatus :: "u8 list"
  ops :: "virtio_blk_req list"
  vbusy :: "nat \<Rightarrow> bool"
  vwoken :: "chan list"
  vwrites :: "(nat \<times> u32) list"

definition set_desc :: "nat \<Rightarrow> (virtq_desc \<Rightarrow> virtq_desc) \<Rightarrow> 'a vdisk_scheme \<Rightarrow> 'a vdisk_scheme" where
  "set_desc i g s = s\<lparr>desc := (desc s)[i := g (desc s ! i)]\<rparr>"

definition wreg :: "nat \<Rightarrow> u32 \<Rightarrow> 'a vdisk_scheme \<Rightarrow> 'a vdisk_scheme" where
  "wreg r v s = s\<lparr>vwrites := vwrites s @ [(r, v)]\<rparr>"

section \<open>Initialisation\<close>

text \<open>\<open>regs\<close> gives the values that the device registers read as; \<open>pages\<close> is the address of \<open>disk.pages\<close>.\<close>

definition clear_bit :: "nat \<Rightarrow> u64 \<Rightarrow> u64" where
  "clear_bit n f = f AND NOT (push_bit n 1)"

definition virtio_disk_init :: "(nat \<Rightarrow> u32) \<Rightarrow> u64 \<Rightarrow> 'a vdisk_scheme \<Rightarrow> 'a vdisk_scheme res" where
  "virtio_disk_init regs pages s =
     (let s = s\<lparr>vdlock := False\<rparr> in
      if regs 0 \<noteq> 0x74726976 \<or> regs 4 \<noteq> 1 \<or> regs 8 \<noteq> 2 \<or> regs 0xc \<noteq> 0x554d4551
      then Inl (Panic ''could not find virtio disk'')
      else
        let s = wreg 0x70 1 s;
            s = wreg 0x70 (1 OR 2) s;
            features = fold clear_bit [5, 7, 11, 12, 27, 29, 28] (ucast (regs 0x10));
            s = wreg 0x20 (ucast features) s;
            s = wreg 0x70 (1 OR 2 OR 8) s;
            s = wreg 0x70 (1 OR 2 OR 8 OR 4) s;
            s = wreg 0x28 4096 s;
            s = wreg 0x30 0 s;
            qmax = regs 0x34 in
        if qmax = 0 then Inl (Panic ''virtio disk has no queue 0'')
        else if qmax < of_nat NUM then Inl (Panic ''virtio disk max queue too short'')
        else
          let s = wreg 0x38 (of_nat NUM) s;
              s = s\<lparr>desc := replicate NUM \<lparr>v_addr = NullAddr, v_len = 0, v_flags = 0, v_next = 0\<rparr>,
                    avail_idx := 0, avail_ring := replicate NUM 0, used_dev := 0, used_ring := replicate NUM 0\<rparr>;
              s = wreg 0x40 (ucast (drop_bit 12 pages)) s
          in Inr (s\<lparr>vfree := replicate NUM True\<rparr>))"

section \<open>Descriptors\<close>

definition alloc_desc :: "'a vdisk_scheme \<Rightarrow> nat option \<times> 'a vdisk_scheme" where
  "alloc_desc s =
     (case find_idx (\<lambda>f. f) (vfree s) of
        Some i \<Rightarrow> (Some i, s\<lparr>vfree := (vfree s)[i := False]\<rparr>)
      | None \<Rightarrow> (None, s))"

definition free_desc :: "nat \<Rightarrow> 'a vdisk_scheme \<Rightarrow> 'a vdisk_scheme res" where
  "free_desc i s =
     (if i \<ge> NUM then Inl (Panic ''free_desc 1'')
      else if vfree s ! i then Inl (Panic ''free_desc 2'')
      else
        let s = set_desc i (\<lambda>_. \<lparr>v_addr = NullAddr, v_len = 0, v_flags = 0, v_next = 0\<rparr>) s;
            s = s\<lparr>vfree := (vfree s)[i := True]\<rparr>
        in Inr (s\<lparr>vwoken := vwoken s @ [DiskFreeChan]\<rparr>))"

text \<open>Every round frees a descriptor, so \<open>Suc NUM\<close> rounds reach the end of the chain or the second panic.\<close>

fun free_chain_loop :: "nat \<Rightarrow> nat \<Rightarrow> 'a vdisk_scheme \<Rightarrow> 'a vdisk_scheme res" where
  "free_chain_loop 0 i s = Inl Hang"
| "free_chain_loop (Suc n) i s =
     (if i \<ge> NUM then Inl (Undef ''disk.desc[]'')
      else
        let flag = v_flags (desc s ! i);
            nxt = unat (v_next (desc s ! i)) in
        rbind (free_desc i s) (\<lambda>s.
        if flag AND VRING_DESC_F_NEXT \<noteq> 0 then free_chain_loop n nxt s else Inr s))"

definition free_chain :: "nat \<Rightarrow> 'a vdisk_scheme \<Rightarrow> 'a vdisk_scheme res" where
  "free_chain i s = free_chain_loop (Suc NUM) i s"

text \<open>The descriptors in \<open>idx\<close> have been allocated; \<open>n\<close> more are needed.\<close>

fun alloc3_loop :: "nat \<Rightarrow> nat list \<Rightarrow> 'a vdisk_scheme \<Rightarrow> (nat list option \<times> 'a vdisk_scheme) res" where
  "alloc3_loop 0 idx s = Inr (Some idx, s)"
| "alloc3_loop (Suc n) idx s =
     (case alloc_desc s of
        (Some i, s) \<Rightarrow> alloc3_loop n (idx @ [i]) s
      | (None, s) \<Rightarrow> rbind (for_each free_desc idx s) (\<lambda>s. Inr (None, s)))"

definition alloc3_desc :: "'a vdisk_scheme \<Rightarrow> (nat list option \<times> 'a vdisk_scheme) res" where
  "alloc3_desc s = alloc3_loop 3 [] s"

section \<open>Requests\<close>

definition acquire_vd :: "'a vdisk_scheme \<Rightarrow> 'a vdisk_scheme res" where
  "acquire_vd s = rbind (spin_acquire (vdlock s)) (\<lambda>h. Inr (s\<lparr>vdlock := h\<rparr>))"

definition release_vd :: "'a vdisk_scheme \<Rightarrow> 'a vdisk_scheme res" where
  "release_vd s = rbind (spin_release (vdlock s)) (\<lambda>h. Inr (s\<lparr>vdlock := h\<rparr>))"

text \<open>The three descriptors of a request for buffer \<open>b\<close>, which holds block \<open>bn\<close>.\<close>

definition format_req :: "nat \<Rightarrow> u32 \<Rightarrow> bool \<Rightarrow> nat \<Rightarrow> nat \<Rightarrow> nat \<Rightarrow> 'a vdisk_scheme \<Rightarrow> 'a vdisk_scheme" where
  "format_req b bn write i0 i1 i2 s =
     (let s = s\<lparr>ops := (ops s)[i0 := \<lparr>r_type = (if write then VIRTIO_BLK_T_OUT else VIRTIO_BLK_T_IN),
                                   r_reserved = 0, r_sector = ucast (bn * 2)\<rparr>]\<rparr>;
          s = set_desc i0 (\<lambda>_. \<lparr>v_addr = OpsAddr i0, v_len = 16, v_flags = VRING_DESC_F_NEXT, v_next = of_nat i1\<rparr>) s;
          s = set_desc i1 (\<lambda>_. \<lparr>v_addr = DataAddr b, v_len = 1024,
                v_flags = (if write then 0 else VRING_DESC_F_WRITE) OR VRING_DESC_F_NEXT, v_next = of_nat i2\<rparr>) s;
          s = s\<lparr>vstatus := (vstatus s)[i0 := 0xff]\<rparr>
      in set_desc i2 (\<lambda>_. \<lparr>v_addr = StatusAddr i0, v_len = 1, v_flags = VRING_DESC_F_WRITE, v_next = 0\<rparr>) s)"

definition rw_submit :: "nat \<Rightarrow> u32 \<Rightarrow> bool \<Rightarrow> 'a vdisk_scheme \<Rightarrow> (nat option \<times> 'a vdisk_scheme) res" where
  "rw_submit b bn write s =
     rbind (acquire_vd s) (\<lambda>s.
     rbind (alloc3_desc s) (\<lambda>(r, s).
     case r of
       None \<Rightarrow> rbind (release_vd s) (\<lambda>s. Inr (None, s))
     | Some idx \<Rightarrow>
         let i0 = idx ! 0;
             s = format_req b bn write i0 (idx ! 1) (idx ! 2) s;
             s = s\<lparr>vbusy := (vbusy s)(b := True), vinfo_b := (vinfo_b s)[i0 := Some b]\<rparr>;
             s = s\<lparr>avail_ring := (avail_ring s)[unat (avail_idx s) mod NUM := of_nat i0]\<rparr>;
             s = s\<lparr>avail_idx := avail_idx s + 1\<rparr>;
             s = wreg 0x50 0 s in
         rbind (release_vd s) (\<lambda>s. Inr (Some i0, s))))"

text \<open>\<open>while(b->disk == 1) sleep(..)\<close> and the rest; \<open>i0\<close> is the head of the chain.\<close>

definition rw_finish :: "nat \<Rightarrow> nat \<Rightarrow> 'a vdisk_scheme \<Rightarrow> (bool \<times> 'a vdisk_scheme) res" where
  "rw_finish b i0 s =
     rbind (acquire_vd s) (\<lambda>s.
     if vbusy s b then rbind (release_vd s) (\<lambda>s. Inr (False, s))
     else
       rbind (free_chain i0 (s\<lparr>vinfo_b := (vinfo_b s)[i0 := None]\<rparr>)) (\<lambda>s.
       rbind (release_vd s) (\<lambda>s. Inr (True, s))))"

section \<open>Completions\<close>

text \<open>One entry of the used ring.\<close>

definition complete_one :: "'a vdisk_scheme \<Rightarrow> 'a vdisk_scheme res" where
  "complete_one s =
     (let i = unat (used_ring s ! (unat (used_idx s) mod NUM)) in
      if i \<ge> NUM then Inl (Undef ''disk.info[]'')
      else if vstatus s ! i \<noteq> 0 then Inl (Panic ''virtio_disk_intr status'')
      else
        case vinfo_b s ! i of
          None \<Rightarrow> Inl (Undef ''null buf'')
        | Some b \<Rightarrow>
            let s = s\<lparr>vbusy := (vbusy s)(b := False), vwoken := vwoken s @ [BufChan b]\<rparr>
            in Inr (s\<lparr>used_idx := used_idx s + 1\<rparr>))"

text \<open>The loop runs \<open>used->idx - used_idx\<close> times, modulo the width of the counters.\<close>

function intr_loop :: "'a vdisk_scheme \<Rightarrow> 'a vdisk_scheme res" where
  "intr_loop s = (if used_idx s \<noteq> used_dev s then rbind (complete_one s) intr_loop else Inr s)"
  by pat_completeness auto
termination
proof (relation "measure (\<lambda>s. unat (used_dev s - used_idx s))")
  fix s x :: "'a vdisk_scheme"
  assume ne: "used_idx s \<noteq> used_dev s" and x: "complete_one s = Inr x"
  have e: "used_idx x = used_idx s + 1" "used_dev x = used_dev s"
    using x by (auto simp: complete_one_def Let_def split: if_splits option.splits)
  have "used_dev s - used_idx s \<noteq> 0" using ne by simp
  then have "0 < unat (used_dev s - used_idx s)" by (simp add: unat_gt_0)
  moreover have "unat (used_dev s - used_idx s - 1) = unat (used_dev s - used_idx s) - 1"
    by (rule unat_minus_one) fact
  moreover have "used_dev x - used_idx x = used_dev s - used_idx s - 1" using e by simp
  ultimately show "(x, s) \<in> measure (\<lambda>s. unat (used_dev s - used_idx s))" by simp
qed simp

declare intr_loop.simps [simp del]

definition virtio_disk_intr :: "(nat \<Rightarrow> u32) \<Rightarrow> 'a vdisk_scheme \<Rightarrow> 'a vdisk_scheme res" where
  "virtio_disk_intr regs s =
     rbind (acquire_vd s) (\<lambda>s.
     let s = wreg 0x64 (regs 0x60 AND 3) s in
     rbind (intr_loop s) release_vd)"

end
