(* ===== verification/Machine.thy ===== *)
theory Machine
  imports Exec Virtio Lifecycle
begin

text \<open>
  The kernel as a whole: the process table (\<open>sstate\<close>) together with the file system and the
  devices (\<open>io\<close>), the disk driver (\<open>vdk\<close>), the clock, and the supervisor registers of the hart
  that runs. Here are \<open>fork\<close>, \<open>exit\<close> and \<open>userinit\<close> of kernel/proc.c with their file operations,
  kernel/sysproc.c, the dispatch of kernel/syscall.c, kernel/trap.c, kernel/plic.c and
  kernel/main.c.

  File code runs on \<open>io\<close> with \<open>cur\<close> and \<open>umem\<close> set from the process table (\<open>io_call\<close>); the wakeups
  it has recorded are then carried out by \<open>wakeup\<close>. A file operation that has to wait gives
  the outcome \<open>Block\<close>. \<open>tickslock\<close> is the lock \<open>OtherLk\<close>.
\<close>

section \<open>State\<close>

record taddrs =
  kernelvec :: u64
  uservec_off :: u64
  userret_off :: u64
  usertrap_addr :: u64

record machine = sstate +
  io :: filest
  vdk :: vdisk
  ticks :: u32
  stvec :: u64
  sepc :: u64
  scause :: u64
  stval :: u64
  sstatus :: u64
  satp :: u64
  sip :: u64
  plic_claims :: "u32 list"
  plic_writes :: "(u64 \<times> u32) list"
  fs_ready :: bool
  started :: bool

definition run_wakeups :: "kparams \<Rightarrow> nat \<Rightarrow> chan list \<Rightarrow> 'a sstate_scheme \<Rightarrow> 'a sstate_scheme res" where
  "run_wakeups K c chs s = for_each (wakeup K c) chs s"

definition io_call ::
  "kparams \<Rightarrow> nat \<Rightarrow> nat \<Rightarrow> (filest \<Rightarrow> ('r \<times> filest) res) \<Rightarrow> 'a machine_scheme \<Rightarrow> ('r \<times> 'a machine_scheme) res" where
  "io_call K c p f s =
     rbind (f ((io s)\<lparr>cur := procs s p, umem := km s, woken := []\<rparr>)) (\<lambda>(r, t).
     let s = s\<lparr>procs := (procs s)(p := cur t), km := umem t, io := t\<rparr> in
     rbind (run_wakeups K c (woken t) s) (\<lambda>s. Inr (r, s)))"

definition io_do ::
  "kparams \<Rightarrow> nat \<Rightarrow> nat \<Rightarrow> (filest \<Rightarrow> filest res) \<Rightarrow> 'a machine_scheme \<Rightarrow> 'a machine_scheme res" where
  "io_do K c p f s =
     rbind (io_call K c p (\<lambda>t. rbind (f t) (\<lambda>t. Inr ((), t))) s) (\<lambda>(_, s). Inr s)"

text \<open>Without a process: while the kernel boots.\<close>

definition io_boot :: "(filest \<Rightarrow> filest res) \<Rightarrow> 'a machine_scheme \<Rightarrow> 'a machine_scheme res" where
  "io_boot f s = rbind (f ((io s)\<lparr>umem := km s\<rparr>)) (\<lambda>t. Inr (s\<lparr>km := umem t, io := t\<rparr>))"

definition tf_get :: "nat \<Rightarrow> nat \<Rightarrow> 'a sstate_scheme \<Rightarrow> u64" where
  "tf_get p off s = load64 (ram (km s)) (trapframe (procs s p) + off)"

definition tf_set :: "nat \<Rightarrow> nat \<Rightarrow> u64 \<Rightarrow> 'a sstate_scheme \<Rightarrow> 'a sstate_scheme" where
  "tf_set p off v s = s\<lparr>km := (km s)\<lparr>ram := store64 (ram (km s)) (trapframe (procs s p) + off) v\<rparr>\<rparr>"

section \<open>fork, exit, userinit\<close>

definition fork_file :: "kparams \<Rightarrow> nat \<Rightarrow> nat \<Rightarrow> nat \<Rightarrow> nat \<Rightarrow> 'a machine_scheme \<Rightarrow> 'a machine_scheme res" where
  "fork_file K c p np fd s =
     (case ofile (procs s p) fd of
        None \<Rightarrow> Inr s
      | Some f \<Rightarrow>
          rbind (io_call K c p (filedup f) s) (\<lambda>(f, s).
          Inr (set_proc np (\<lambda>q. q\<lparr>ofile := (ofile q)(fd := Some f)\<rparr>) s)))"

text \<open>\<open>*(np->trapframe) = *(p->trapframe)\<close>; a trap frame has 36 registers.\<close>

definition fork :: "kparams \<Rightarrow> nat \<Rightarrow> 'a machine_scheme \<Rightarrow> (int \<times> 'a machine_scheme) res" where
  "fork K c s =
     rbind (curproc c s) (\<lambda>p.
     rbind (allocproc K s) (\<lambda>(r, s).
     case r of
       None \<Rightarrow> Inr (-1, s)
     | Some np \<Rightarrow>
         rbind (uvmcopy (pagetable (procs s p)) (pagetable (procs s np)) (sz (procs s p)) (km s)) (\<lambda>(u, k).
         let s = s\<lparr>km := k\<rparr> in
         if u < 0 then
           rbind (freeproc np s) (\<lambda>s.
           rbind (release_proc np s) (\<lambda>s. Inr (-1, s)))
         else
           let s = set_proc np (sz_update (\<lambda>_. sz (procs s p))) s;
               s = s\<lparr>km := (km s)\<lparr>ram := put_bytes (ram (km s)) (trapframe (procs s np))
                     (bytes (ram (km s)) (trapframe (procs s p)) 288)\<rparr>\<rparr>;
               s = tf_set np 112 0 s in
           rbind (for_each (fork_file K c p np) [0..<NOFILE] s) (\<lambda>s.
           rbind (io_call K c p (idup (case cwd (procs s p) of None \<Rightarrow> NINODE | Some d \<Rightarrow> d)) s) (\<lambda>(d, s).
           let s = set_proc np (\<lambda>q. q\<lparr>cwd := Some d, pname := take 15 (pname (procs s p))\<rparr>) s;
               n = pid (procs s np) in
           rbind (fork_publish K p np s) (\<lambda>s.
           Inr (n, s)))))))"

definition exit_file :: "kparams \<Rightarrow> nat \<Rightarrow> nat \<Rightarrow> nat \<Rightarrow> 'a machine_scheme \<Rightarrow> 'a machine_scheme res" where
  "exit_file K c p fd s =
     (case ofile (procs s p) fd of
        None \<Rightarrow> Inr s
      | Some f \<Rightarrow>
          rbind (io_do K c p (fileclose f) s) (\<lambda>s.
          Inr (set_proc p (\<lambda>q. q\<lparr>ofile := (ofile q)(fd := None)\<rparr>) s)))"

text \<open>\<open>exit\<close> up to the switch to the scheduler.\<close>

definition exit :: "kparams \<Rightarrow> nat \<Rightarrow> int \<Rightarrow> 'a machine_scheme \<Rightarrow> 'a machine_scheme res" where
  "exit K c status s =
     rbind (curproc c s) (\<lambda>p.
     if Some p = initproc s then Inl (Panic ''init exiting'')
     else
       rbind (for_each (exit_file K c p) [0..<NOFILE] s) (\<lambda>s.
       rbind (io_do K c p begin_op s) (\<lambda>s.
       rbind (io_do K c p (iput (case cwd (procs s p) of None \<Rightarrow> NINODE | Some d \<Rightarrow> d)) s) (\<lambda>s.
       rbind (io_do K c p (\<lambda>t. end_op (me t) t) s) (\<lambda>s.
       let s = set_proc p (\<lambda>q. q\<lparr>cwd := None\<rparr>) s in
       exit_rest K c p status s)))))"

definition initcode :: "u8 list" where
  "initcode =
    [0x17, 0x05, 0x00, 0x00, 0x13, 0x05, 0x45, 0x02,
     0x97, 0x05, 0x00, 0x00, 0x93, 0x85, 0x35, 0x02,
     0x93, 0x08, 0x70, 0x00, 0x73, 0x00, 0x00, 0x00,
     0x93, 0x08, 0x20, 0x00, 0x73, 0x00, 0x00, 0x00,
     0xef, 0xf0, 0x9f, 0xff, 0x2f, 0x69, 0x6e, 0x69,
     0x74, 0x00, 0x00, 0x24, 0x00, 0x00, 0x00, 0x00,
     0x00, 0x00, 0x00, 0x00]"

definition userinit :: "kparams \<Rightarrow> nat \<Rightarrow> 'a machine_scheme \<Rightarrow> 'a machine_scheme res" where
  "userinit K c s =
     rbind (allocproc K s) (\<lambda>(r, s).
     case r of
       None \<Rightarrow> Inl (Undef ''null proc'')
     | Some p \<Rightarrow>
         let s = s\<lparr>initproc := Some p\<rparr> in
         rbind (uvminit (pagetable (procs s p)) initcode (km s)) (\<lambda>k.
         let s = set_proc p (sz_update (\<lambda>_. 4096)) (s\<lparr>km := k\<rparr>);
             s = tf_set p 24 0 s;
             s = tf_set p 48 4096 s;
             s = set_proc p (\<lambda>q. q\<lparr>pname := ''initcode''\<rparr>) s in
         rbind (io_call K c p (namei [SLASH]) s) (\<lambda>(d, s).
         let s = set_proc p (\<lambda>q. q\<lparr>cwd := (if d = NINODE then None else Some d)\<rparr>) s in
         userinit_publish p s)))"

section \<open>System calls\<close>

text \<open>How a system call ends: with a value, or with the process switched out in \<open>sleep\<close> or \<open>exit\<close>.\<close>

datatype sysret = Ret int | Switched

definition sysproc_exit :: "kparams \<Rightarrow> nat \<Rightarrow> nat \<Rightarrow> 'a machine_scheme \<Rightarrow> (sysret \<times> 'a machine_scheme) res" where
  "sysproc_exit K c p s = rbind (exit K c (sint (ucast (tf_get p 112 s) :: u32)) s) (\<lambda>s. Inr (Switched, s))"

definition sysproc_getpid :: "nat \<Rightarrow> 'a machine_scheme \<Rightarrow> (sysret \<times> 'a machine_scheme) res" where
  "sysproc_getpid p s = Inr (Ret (pid (procs s p)), s)"

definition sysproc_fork :: "kparams \<Rightarrow> nat \<Rightarrow> 'a machine_scheme \<Rightarrow> (sysret \<times> 'a machine_scheme) res" where
  "sysproc_fork K c s = rbind (fork K c s) (\<lambda>(r, s). Inr (Ret r, s))"

definition sysproc_wait :: "nat \<Rightarrow> nat \<Rightarrow> 'a machine_scheme \<Rightarrow> (sysret \<times> 'a machine_scheme) res" where
  "sysproc_wait c p s =
     rbind (wait_start c (tf_get p 112 s) s) (\<lambda>(r, s).
     case r of Inl n \<Rightarrow> Inr (Ret n, s) | Inr _ \<Rightarrow> Inr (Switched, s))"

text \<open>The local \<open>addr\<close> is an \<open>int\<close>.\<close>

definition sysproc_sbrk :: "nat \<Rightarrow> nat \<Rightarrow> 'a machine_scheme \<Rightarrow> (sysret \<times> 'a machine_scheme) res" where
  "sysproc_sbrk c p s =
     (let n = sint (ucast (tf_get p 112 s) :: u32);
          addr = sint (ucast (sz (procs s p)) :: u32) in
      rbind (growproc c n s) (\<lambda>(r, s).
      if r < 0 then Inr (Ret (-1), s) else Inr (Ret addr, s)))"

text \<open>The loop of \<open>sys_sleep\<close> with \<open>tickslock\<close> held; after a wakeup it runs again. The comparison is unsigned.\<close>

definition sysproc_sleep_loop :: "nat \<Rightarrow> nat \<Rightarrow> u32 \<Rightarrow> u32 \<Rightarrow> 'a machine_scheme \<Rightarrow> (sysret \<times> 'a machine_scheme) res" where
  "sysproc_sleep_loop c p n ticks0 s =
     (if ticks s - ticks0 < n then
        if killed (procs s p) then rbind (release_lk OtherLk s) (\<lambda>s. Inr (Ret (-1), s))
        else rbind (sleep_out c TicksChan OtherLk s) (\<lambda>(_, s). Inr (Switched, s))
      else rbind (release_lk OtherLk s) (\<lambda>s. Inr (Ret 0, s)))"

definition sysproc_sleep :: "nat \<Rightarrow> nat \<Rightarrow> 'a machine_scheme \<Rightarrow> (sysret \<times> 'a machine_scheme) res" where
  "sysproc_sleep c p s =
     (let n = ucast (tf_get p 112 s) :: u32 in
      rbind (acquire_lk OtherLk s) (\<lambda>s.
      sysproc_sleep_loop c p n (ticks s) s))"

definition sysproc_kill :: "nat \<Rightarrow> 'a machine_scheme \<Rightarrow> (sysret \<times> 'a machine_scheme) res" where
  "sysproc_kill p s =
     rbind (kill (sint (ucast (tf_get p 112 s) :: u32)) s) (\<lambda>(r, s). Inr (Ret r, s))"

definition sysproc_uptime :: "'a machine_scheme \<Rightarrow> (sysret \<times> 'a machine_scheme) res" where
  "sysproc_uptime s =
     rbind (acquire_lk OtherLk s) (\<lambda>s.
     let xticks = ticks s in
     rbind (release_lk OtherLk s) (\<lambda>s. Inr (Ret (uint xticks), s)))"

definition io_sys ::
  "kparams \<Rightarrow> nat \<Rightarrow> nat \<Rightarrow> (filest \<Rightarrow> (int \<times> filest) res) \<Rightarrow> 'a machine_scheme \<Rightarrow> (sysret \<times> 'a machine_scheme) res" where
  "io_sys K c p f s = rbind (io_call K c p f s) (\<lambda>(r, s). Inr (Ret r, s))"

text \<open>The table \<open>syscalls[]\<close>; \<open>pad\<close> is as in \<open>filestat\<close>.\<close>

definition syscalls ::
  "kparams \<Rightarrow> u8 list \<Rightarrow> nat \<Rightarrow> nat \<Rightarrow> int \<Rightarrow> ('a machine_scheme \<Rightarrow> (sysret \<times> 'a machine_scheme) res) option" where
  "syscalls K pad c p n =
     (if n = 1 then Some (sysproc_fork K c)
      else if n = 2 then Some (sysproc_exit K c p)
      else if n = 3 then Some (sysproc_wait c p)
      else if n = 4 then Some (io_sys K c p sys_pipe)
      else if n = 5 then Some (io_sys K c p sys_read)
      else if n = 6 then Some (sysproc_kill p)
      else if n = 7 then Some (io_sys K c p (sys_exec K))
      else if n = 8 then Some (io_sys K c p (sys_fstat pad))
      else if n = 9 then Some (io_sys K c p sys_chdir)
      else if n = 10 then Some (io_sys K c p sys_dup)
      else if n = 11 then Some (sysproc_getpid p)
      else if n = 12 then Some (sysproc_sbrk c p)
      else if n = 13 then Some (sysproc_sleep c p)
      else if n = 14 then Some sysproc_uptime
      else if n = 15 then Some (io_sys K c p sys_open)
      else if n = 16 then Some (io_sys K c p sys_write)
      else if n = 17 then Some (io_sys K c p sys_mknod)
      else if n = 18 then Some (io_sys K c p sys_unlink)
      else if n = 19 then Some (io_sys K c p sys_link)
      else if n = 20 then Some (io_sys K c p sys_mkdir)
      else if n = 21 then Some (io_sys K c p sys_close)
      else None)"

definition kprint :: "kparams \<Rightarrow> nat \<Rightarrow> nat \<Rightarrow> string \<Rightarrow> parg list \<Rightarrow> 'a machine_scheme \<Rightarrow> 'a machine_scheme res" where
  "kprint K c p fmt ap s = io_do K c p (printf (ascii fmt) ap) s"

definition syscall :: "kparams \<Rightarrow> u8 list \<Rightarrow> nat \<Rightarrow> 'a machine_scheme \<Rightarrow> (sysret \<times> 'a machine_scheme) res" where
  "syscall K pad c s =
     rbind (curproc c s) (\<lambda>p.
     let n = sint (ucast (tf_get p 168 s) :: u32) in
     case syscalls K pad c p n of
       Some f \<Rightarrow>
         rbind (f s) (\<lambda>(r, s).
         case r of Ret v \<Rightarrow> Inr (r, tf_set p 112 (of_int v) s) | Switched \<Rightarrow> Inr (Switched, s))
     | None \<Rightarrow>
         rbind (kprint K c p (''%d %s: unknown sys call %d'' @ [CHR 0x0A])
                  [AInt (of_int (pid (procs s p))), AStr (Some (ascii (pname (procs s p)))), AInt (of_int n)] s) (\<lambda>s.
         Inr (Ret (-1), tf_set p 112 (-1) s)))"

section \<open>Interrupt controller\<close>

definition UART0_IRQ :: u32 where "UART0_IRQ = 10"
definition VIRTIO0_IRQ :: u32 where "VIRTIO0_IRQ = 1"
definition PLIC_SENABLE :: "nat \<Rightarrow> u64" where "PLIC_SENABLE hart = PLIC + 0x2080 + of_nat hart * 0x100"
definition PLIC_SPRIORITY :: "nat \<Rightarrow> u64" where "PLIC_SPRIORITY hart = PLIC + 0x201000 + of_nat hart * 0x2000"
definition PLIC_SCLAIM :: "nat \<Rightarrow> u64" where "PLIC_SCLAIM hart = PLIC + 0x201004 + of_nat hart * 0x2000"

definition plic_write :: "u64 \<Rightarrow> u32 \<Rightarrow> 'a machine_scheme \<Rightarrow> 'a machine_scheme" where
  "plic_write a v s = s\<lparr>plic_writes := plic_writes s @ [(a, v)]\<rparr>"

definition plicinit :: "'a machine_scheme \<Rightarrow> 'a machine_scheme" where
  "plicinit s = plic_write (PLIC + ucast VIRTIO0_IRQ * 4) 1 (plic_write (PLIC + ucast UART0_IRQ * 4) 1 s)"

definition plicinithart :: "nat \<Rightarrow> 'a machine_scheme \<Rightarrow> 'a machine_scheme" where
  "plicinithart hart s =
     plic_write (PLIC_SPRIORITY hart) 0
       (plic_write (PLIC_SENABLE hart) (push_bit (unat UART0_IRQ) 1 OR push_bit (unat VIRTIO0_IRQ) 1) s)"

definition plic_claim :: "nat \<Rightarrow> 'a machine_scheme \<Rightarrow> u32 \<times> 'a machine_scheme" where
  "plic_claim hart s = (case plic_claims s of [] \<Rightarrow> (0, s) | i # is \<Rightarrow> (i, s\<lparr>plic_claims := is\<rparr>))"

definition plic_complete :: "nat \<Rightarrow> u32 \<Rightarrow> 'a machine_scheme \<Rightarrow> 'a machine_scheme" where
  "plic_complete hart irq s = plic_write (PLIC_SCLAIM hart) irq s"

section \<open>Traps\<close>

definition SSTATUS_SPP :: u64 where "SSTATUS_SPP = push_bit 8 1"
definition SSTATUS_SPIE :: u64 where "SSTATUS_SPIE = push_bit 5 1"
definition SSTATUS_SIE :: u64 where "SSTATUS_SIE = push_bit 1 1"

definition trapinit :: "'a machine_scheme \<Rightarrow> 'a machine_scheme" where
  "trapinit s = s\<lparr>other_lock := False\<rparr>"

definition trapinithart :: "taddrs \<Rightarrow> 'a machine_scheme \<Rightarrow> 'a machine_scheme" where
  "trapinithart A s = s\<lparr>stvec := kernelvec A\<rparr>"

definition clockintr :: "kparams \<Rightarrow> nat \<Rightarrow> 'a machine_scheme \<Rightarrow> 'a machine_scheme res" where
  "clockintr K c s =
     rbind (acquire_lk OtherLk s) (\<lambda>s.
     let s = s\<lparr>ticks := ticks s + 1\<rparr> in
     rbind (wakeup K c TicksChan s) (release_lk OtherLk))"

text \<open>What \<open>procdump\<close> prints, character by character.\<close>

definition dump_text :: "(int \<times> string \<times> string) list \<Rightarrow> int list" where
  "dump_text ls =
     10 # concat (map (\<lambda>(n, st, nm).
       rev (int_digits 10 (nat n)) @ [32] @ map of_char st @ [32] @ map of_char nm @ [10]) ls)"

text \<open>\<open>devintr\<close> with \<open>scause\<close>; \<open>regs\<close> are the registers of the disk. \<open>p\<close> is the process that is interrupted, if any.\<close>

definition devintr ::
  "kparams \<Rightarrow> (nat \<Rightarrow> u32) \<Rightarrow> nat \<Rightarrow> 'a machine_scheme \<Rightarrow> (int \<times> 'a machine_scheme) res" where
  "devintr K regs c s =
     (let p = (case myproc c s of None \<Rightarrow> NPROC | Some p \<Rightarrow> p) in
      if scause s AND 0x8000000000000000 \<noteq> 0 \<and> scause s AND 0xff = 9 then
        let (irq, s) = plic_claim c s in
        rbind (if irq = UART0_IRQ then io_do K c p (uartintr (dump_text (procdump s))) s
               else if irq = VIRTIO0_IRQ then
                 rbind (virtio_disk_intr regs ((vdk s)\<lparr>vwoken := []\<rparr>)) (\<lambda>v.
                 run_wakeups K c (vwoken v) (s\<lparr>vdk := v\<rparr>))
               else if irq \<noteq> 0 then
                 kprint K c p (''unexpected interrupt irq=%d'' @ [CHR 0x0A]) [AInt irq] s
               else Inr s) (\<lambda>s.
        Inr (1, if irq \<noteq> 0 then plic_complete c irq s else s))
      else if scause s = 0x8000000000000001 then
        rbind (if c = 0 then clockintr K c s else Inr s) (\<lambda>s.
        Inr (2, s\<lparr>sip := sip s AND NOT 2\<rparr>))
      else Inr (0, s))"

text \<open>
  How a trap ends: with a jump to \<open>userret\<close> (its address and the value for \<open>satp\<close>), a return to
  the interrupted kernel code, or with the process switched out.
\<close>

datatype trapend = ToUser u64 u64 | ToKernel | Gone | Waiting | Yielded bool

definition usertrapret :: "taddrs \<Rightarrow> nat \<Rightarrow> 'a machine_scheme \<Rightarrow> (trapend \<times> 'a machine_scheme) res" where
  "usertrapret A c s =
     rbind (curproc c s) (\<lambda>p.
     let s = s\<lparr>sstatus := sstatus s AND NOT SSTATUS_SIE\<rparr>;
         s = s\<lparr>stvec := TRAMPOLINE + uservec_off A\<rparr>;
         s = tf_set p 0 (satp s) s;
         s = tf_set p 8 (kstack (procs s p) + 4096) s;
         s = tf_set p 16 (usertrap_addr A) s;
         s = tf_set p 32 (of_nat c) s;
         s = s\<lparr>sstatus := (sstatus s AND NOT SSTATUS_SPP) OR SSTATUS_SPIE\<rparr>;
         s = s\<lparr>sepc := tf_get p 24 s\<rparr>
     in Inr (ToUser (TRAMPOLINE + userret_off A) (MAKE_SATP (of_nat (pagetable (procs s p)))), s))"

text \<open>The end of \<open>usertrap\<close>, with \<open>which_dev\<close>.\<close>

definition usertrap_end :: "kparams \<Rightarrow> taddrs \<Rightarrow> nat \<Rightarrow> nat \<Rightarrow> int \<Rightarrow> 'a machine_scheme \<Rightarrow> (trapend \<times> 'a machine_scheme) res" where
  "usertrap_end K A c p which_dev s =
     (if killed (procs s p) then rbind (exit K c (-1) s) (\<lambda>s. Inr (Gone, s))
      else if which_dev = 2 then rbind (yield_out c s) (\<lambda>(ie, s). Inr (Yielded ie, s))
      else usertrapret A c s)"

definition usertrap ::
  "kparams \<Rightarrow> taddrs \<Rightarrow> (nat \<Rightarrow> u32) \<Rightarrow> u8 list \<Rightarrow> nat \<Rightarrow> 'a machine_scheme \<Rightarrow> (trapend \<times> 'a machine_scheme) res" where
  "usertrap K A regs pad c s =
     (if sstatus s AND SSTATUS_SPP \<noteq> 0 then Inl (Panic ''usertrap: not from user mode'')
      else
        let s = s\<lparr>stvec := kernelvec A\<rparr> in
        rbind (curproc c s) (\<lambda>p.
        let s = tf_set p 24 (sepc s) s in
        if scause s = 8 then
          if killed (procs s p) then rbind (exit K c (-1) s) (\<lambda>s. Inr (Gone, s))
          else
            let s = tf_set p 24 (tf_get p 24 s + 4) s;
                s = s\<lparr>sstatus := sstatus s OR SSTATUS_SIE\<rparr> in
            rbind (syscall K pad c s) (\<lambda>(r, s).
            case r of
              Switched \<Rightarrow> Inr (Waiting, s)
            | Ret _ \<Rightarrow> usertrap_end K A c p 0 s)
        else
          rbind (devintr K regs c s) (\<lambda>(which_dev, s).
          if which_dev \<noteq> 0 then usertrap_end K A c p which_dev s
          else
            rbind (kprint K c p (''usertrap(): unexpected scause %p pid=%d'' @ [CHR 0x0A])
                     [APtr (scause s), AInt (of_int (pid (procs s p)))] s) (\<lambda>s.
            rbind (kprint K c p (''            sepc=%p stval=%p'' @ [CHR 0x0A]) [APtr (sepc s), APtr (stval s)] s) (\<lambda>s.
            usertrap_end K A c p 0 (set_proc p (killed_update (\<lambda>_. True)) s))))))"

text \<open>\<open>kerneltrap\<close>; after a yield the two registers are restored by \<open>kerneltrap_end\<close>.\<close>

definition kerneltrap_end :: "u64 \<Rightarrow> u64 \<Rightarrow> 'a machine_scheme \<Rightarrow> 'a machine_scheme" where
  "kerneltrap_end epc status s = s\<lparr>sepc := epc, sstatus := status\<rparr>"

definition kerneltrap ::
  "kparams \<Rightarrow> (nat \<Rightarrow> u32) \<Rightarrow> nat \<Rightarrow> 'a machine_scheme \<Rightarrow> (trapend \<times> 'a machine_scheme) res" where
  "kerneltrap K regs c s =
     (let epc = sepc s; status = sstatus s in
      if status AND SSTATUS_SPP = 0 then Inl (Panic ''kerneltrap: not from supervisor mode'')
      else if sstatus s AND SSTATUS_SIE \<noteq> 0 then Inl (Panic ''kerneltrap: interrupts enabled'')
      else
        rbind (devintr K regs c s) (\<lambda>(which_dev, s).
        if which_dev = 0 then Inl (Panic ''kerneltrap'')
        else
          case myproc c s of
            Some p \<Rightarrow>
              if which_dev = 2 \<and> state (procs s p) = RUNNING then
                rbind (yield_out c s) (\<lambda>(ie, s). Inr (Yielded ie, s))
              else Inr (ToKernel, kerneltrap_end epc status s)
          | None \<Rightarrow> Inr (ToKernel, kerneltrap_end epc status s)))"

text \<open>\<open>forkret\<close>: the first process also recovers the file system. \<open>p\<close> still holds its lock.\<close>

definition forkret :: "kparams \<Rightarrow> taddrs \<Rightarrow> nat \<Rightarrow> 'a machine_scheme \<Rightarrow> (trapend \<times> 'a machine_scheme) res" where
  "forkret K A c s =
     rbind (curproc c s) (\<lambda>p.
     rbind (release_proc p s) (\<lambda>s.
     rbind (if \<not> fs_ready s then io_do K c p (fsinit ROOTDEV) (s\<lparr>fs_ready := True\<rparr>) else Inr s) (\<lambda>s.
     usertrapret A c s)))"

section \<open>Boot\<close>

definition kprint_boot :: "string \<Rightarrow> parg list \<Rightarrow> 'a machine_scheme \<Rightarrow> 'a machine_scheme res" where
  "kprint_boot fmt ap s = io_boot (printf (ascii fmt @ [10]) ap) s"

text \<open>
  \<open>main\<close> on hart 0 and on the other harts, up to the call of \<open>scheduler\<close>. \<open>etext\<close> and \<open>pages\<close> are
  addresses of the linked kernel.
\<close>

definition main0 ::
  "kparams \<Rightarrow> taddrs \<Rightarrow> (nat \<Rightarrow> u32) \<Rightarrow> u64 \<Rightarrow> u64 \<Rightarrow> 'a machine_scheme \<Rightarrow> (nat \<times> 'a machine_scheme) res" where
  "main0 K A regs etext pages s =
     rbind (io_boot (\<lambda>t. Inr (printfinit (consoleinit t))) s) (\<lambda>s.
     rbind (kprint_boot '''' [] s) (\<lambda>s.
     rbind (kprint_boot ''xv6 kernel is booting'' [] s) (\<lambda>s.
     rbind (kprint_boot '''' [] s) (\<lambda>s.
     rbind (kinit (km s)) (\<lambda>k.
     rbind (kvmmake etext (trampoline K) NPROC k) (\<lambda>(kpt, k).
     let s = s\<lparr>km := k, satp := kvminithart kpt\<rparr> in
     rbind (procinit s) (\<lambda>s.
     rbind (kprint_boot ''after proc init '' [] s) (\<lambda>s.
     let s = plicinithart 0 (plicinit (trapinithart A (trapinit s))) in
     rbind (io_boot (\<lambda>t. Inr (fileinit (iinit (binit t)))) s) (\<lambda>s.
     rbind (virtio_disk_init regs pages (vdk s)) (\<lambda>v.
     let s = s\<lparr>vdk := v\<rparr> in
     rbind (kprint_boot ''before user init '' [] s) (\<lambda>s.
     rbind (userinit K 0 s) (\<lambda>s.
     rbind (kprint_boot ''after user init '' [] s) (\<lambda>s.
     Inr (kpt, s\<lparr>started := True\<rparr>))))))))))))))"

definition main_other :: "taddrs \<Rightarrow> nat \<Rightarrow> nat \<Rightarrow> 'a machine_scheme \<Rightarrow> 'a machine_scheme res" where
  "main_other A kpt c s =
     (if \<not> started s then Inl Hang
      else
        rbind (kprint_boot ''hart %d starting'' [AInt (of_nat c)] s) (\<lambda>s.
        let s = s\<lparr>satp := kvminithart kpt\<rparr> in
        Inr (plicinithart c (trapinithart A s))))"

end
