(* ===== verification/Start.thy ===== *)
theory Start
  imports Prelude
begin

text \<open>
  kernel/start.c: the boot code that runs in machine mode, as writes to the registers of a
  hart. The addresses of \<open>main\<close>, \<open>timervec\<close> and \<open>timer_scratch\<close> are parameters. \<open>start\<close> ends with
  \<open>mret\<close>, which continues at \<open>mepc\<close> in the mode that the field MPP of \<open>mstatus\<close> names.
\<close>

record mregs =
  mhartid :: u64
  mstatus :: u64
  mepc :: u64
  msatp :: u64
  medeleg :: u64
  mideleg :: u64
  msie :: u64
  pmpaddr0 :: u64
  pmpcfg0 :: u64
  mscratch :: u64
  mtvec :: u64
  mie :: u64
  mtp :: u64
  mtime :: u64
  mtimecmp :: "nat \<Rightarrow> u64"
  timer_scratch :: "nat \<Rightarrow> u64 list"

definition MSTATUS_MPP_MASK :: u64 where "MSTATUS_MPP_MASK = push_bit 11 3"
definition MSTATUS_MPP_S :: u64 where "MSTATUS_MPP_S = push_bit 11 1"
definition MSTATUS_MIE :: u64 where "MSTATUS_MIE = push_bit 3 1"
definition SIE_SEIE :: u64 where "SIE_SEIE = push_bit 9 1"
definition SIE_STIE :: u64 where "SIE_STIE = push_bit 5 1"
definition SIE_SSIE :: u64 where "SIE_SSIE = push_bit 1 1"
definition MIE_MTIE :: u64 where "MIE_MTIE = push_bit 7 1"
definition CLINT :: u64 where "CLINT = 0x2000000"
definition CLINT_MTIMECMP :: "nat \<Rightarrow> u64" where "CLINT_MTIMECMP hartid = CLINT + 0x4000 + 8 * of_nat hartid"

text \<open>\<open>timer_scratch[id]\<close> has five entries of eight bytes.\<close>

definition timerinit :: "u64 \<Rightarrow> u64 \<Rightarrow> mregs \<Rightarrow> mregs" where
  "timerinit timervec scratch_base m =
     (let i = unat (mhartid m);
          interval = 1000000;
          m = m\<lparr>mtimecmp := (mtimecmp m)(i := mtime m + interval)\<rparr>;
          m = m\<lparr>timer_scratch := (timer_scratch m)(i := (timer_scratch m i)[3 := CLINT_MTIMECMP i, 4 := interval])\<rparr>;
          m = m\<lparr>mscratch := scratch_base + of_nat i * 40\<rparr>;
          m = m\<lparr>mtvec := timervec\<rparr>;
          m = m\<lparr>mstatus := mstatus m OR MSTATUS_MIE\<rparr>
      in m\<lparr>mie := mie m OR MIE_MTIE\<rparr>)"

definition start :: "u64 \<Rightarrow> u64 \<Rightarrow> u64 \<Rightarrow> mregs \<Rightarrow> mregs" where
  "start main_addr timervec scratch_base m =
     (let m = m\<lparr>mstatus := (mstatus m AND NOT MSTATUS_MPP_MASK) OR MSTATUS_MPP_S\<rparr>;
          m = m\<lparr>mepc := main_addr\<rparr>;
          m = m\<lparr>msatp := 0\<rparr>;
          m = m\<lparr>medeleg := 0xffff\<rparr>;
          m = m\<lparr>mideleg := 0xffff\<rparr>;
          m = m\<lparr>msie := msie m OR SIE_SEIE OR SIE_STIE OR SIE_SSIE\<rparr>;
          m = m\<lparr>pmpaddr0 := 0x3fffffffffffff\<rparr>;
          m = m\<lparr>pmpcfg0 := 0xf\<rparr>;
          m = timerinit timervec scratch_base m
      in m\<lparr>mtp := mhartid m\<rparr>)"

end
