(* ===== verification/Spec2Isabelle.thy ===== *)
theory Spec2Isabelle
  imports Defects Pagetable Logging Queues Serial Filedata Machine Start
begin

text \<open>
  Verification of the kernel of this repository: xv6 for RISC-V whose process table (kernel/proc.c) is
  threaded with linked lists of processes, one list for every state and one run queue for every CPU. This theory
  collects the others; it declares nothing of its own.

  \<^bold>\<open>How C becomes HOL.\<close> A function of the source is a function of the same name that takes the state
  it works on and returns it. A function that can fail to return yields \<open>stop + 'a\<close> (Prelude): \<open>Panic m\<close> for
  \<open>panic(m)\<close>, \<open>Undef w\<close> for an expression that C leaves undefined (an index outside an array, a null
  pointer, overflow of an \<open>int\<close> counter), \<open>Block c\<close> for a wait on channel \<open>c\<close>, \<open>Hang\<close> for a loop without
  end. Error codes such as -1 are ordinary results. Unsigned C integers are words of their width, so that they wrap; a C
  \<open>int\<close> that is only compared and counted is an \<open>int\<close> whose overflow is a stop where the code can count up to it
  (\<open>noff\<close>, \<open>nextpid\<close>, the reference counts of inodes and files, the counter of \<open>strlen\<close>). Kernel memory is a
  function from addresses to bytes; page tables, the free list and user memory live in it. Disk blocks are
  lists of bytes, decoded and encoded as the casts of the source do.

  \<^bold>\<open>Locks, harts and switches.\<close> Spinlock has the code of kernel/spinlock.c, and the interleaving of any
  number of harts on a lock, one step per memory access. All other code is run by one hart: of a spinlock it
  sees whether it holds it (\<open>spin_acquire\<close>, \<open>spin_release\<close>; \<open>spin_acquire_refines\<close> relates the two
  views). A function that calls \<open>sched\<close> is split at the switch of context: \<open>yield_out\<close>, \<open>yield_in\<close>, \<open>sleep_out\<close>,
  \<open>sleep_in\<close>, \<open>scheduler_pick\<close>, \<open>scheduler_back\<close>. Kernel makes these the steps of a transition system in which all
  harts take turns (\<open>kstep\<close>, \<open>kreach\<close>): a step is one entry into the kernel, up to its return or its next switch.

  \<^bold>\<open>The theories.\<close>
  \<^item> Prelude: integer types, stops, sequencing (\<open>rbind\<close>, \<open>for_each\<close>), the postcondition \<open>okres\<close>. Bytes:
    little-endian integers in blocks. Ring: ring buffers and the contract \<open>fifo\<close>.
  \<^item> Cstring: kernel/string.c. \<open>memmove\<close> is right for every overlap, \<open>safestrcpy\<close> stays in its buffer, \<open>strlen\<close>
    ends, with the length or an overflow.
  \<^item> Spinlock, Sleeplock: kernel/spinlock.c and kernel/sleeplock.c. Mutual exclusion; nesting of \<open>push_off\<close>.
  \<^item> Riscv, Kalloc, Vm, Pagetable: the macros of kernel/riscv.h and kernel/memlayout.h, kernel/kalloc.c and kernel/vm.c. No page is
    handed out twice (contract \<open>page_allocator\<close>); \<open>kfree\<close> on every address; \<open>mappages\<close>
    installs the mapping; \<open>copyout\<close> and \<open>copyin\<close> are inverse.
  \<^item> Proclist: \<open>struct proc\<close>, the lists, \<open>add_proc_to_list\<close> and \<open>remove_proc_from_list\<close> with every lock operation
    (contract \<open>proc_lists\<close>).
  \<^item> Sched: the rest of kernel/proc.c (\<open>sstate\<close>). Scheduling, Switching, Lifecycle and Forkwait show what each
    operation does to an abstract view of the table (\<open>rep\<close>). Kernel has the transition system and its invariant
    \<open>kinv\<close>: every process is on exactly the list of its state, no operation of the scheduler gets stuck. Waiting follows \<open>wait\<close> on every
    path. Onecpu shows that only CPU 0 is ever given a process. Defects has \<open>kill\<close> and the places where proc.c
    fails.
  \<^item> Bio, Bcache: kernel/bio.c, the ring of buffers and what it promises. Log, Txn, Crash, Logging: kernel/log.c, its
    transactions (\<open>txn_ok\<close>), commit and recovery with a crash after any disk write (contract \<open>block_store\<close>).
  \<^item> Fs: kernel/fs.c. Blocks and Inodes: the block allocator inside a transaction. Filedata: inodes on disk, the
    inode table, reading a file, path names.
  \<^item> Console, Serial: kernel/uart.c, kernel/console.c, kernel/printf.c; the transmit buffer as a queue, line editing,
    printed numbers. Pipe, File, Queues: kernel/pipe.c and kernel/file.c; a pipe as a queue.
  \<^item> Sysfile, Exec, Virtio, Machine, Start: kernel/sysfile.c, kernel/exec.c, kernel/virtio_disk.c; kernel/syscall.c, kernel/sysproc.c,
    kernel/trap.c, kernel/plic.c, kernel/main.c and the file halves of \<open>fork\<close>, \<open>exit\<close> and \<open>userinit\<close> (Machine);
    kernel/start.c. These are modelled, and no property is stated of them.
  \<^item> Samples: a concrete state of the file system and the devices for the witnesses.

  \<^bold>\<open>State.\<close> The records extend one another as the components build on each other: \<open>ptable\<close> (proc[], lists), \<open>sstate\<close>
  (adds cpus[], pids, locks, the allocator) on one side, \<open>bcache\<close>, \<open>logst\<close>, \<open>fsst\<close>, \<open>condev\<close>, \<open>filest\<close> on the other; \<open>machine\<close> joins the two with the
  driver and the registers. A pointer into a table is an index.

  \<^bold>\<open>Bounds and fuel.\<close> Loops over a table run over its indices. The walk of a process list gets \<open>NPROC\<close> units, the
  two scans of the buffer ring \<open>Suc NBUF\<close>, a chain of descriptors \<open>Suc NUM\<close>: a list without repetition ends within them
  (\<open>add_rest_eq\<close>, \<open>remove_rest_eq\<close>), and running out is \<open>Hang\<close>. The receive loop of the serial line reads a register in every
  round and gets one unit more than the device has values. \<open>freewalk\<close> recurses to the depth that 44-bit page numbers allow. The other loops
  end by a measure.

  \<^bold>\<open>Outside.\<close> Parameters: the addresses of the trampoline, of \<open>forkret\<close>, \<open>kernelvec\<close> and so on, the build flag BLNCFLG (\<open>kparams\<close>), the end of the kernel
  image (\<open>kend\<close>), and what the devices deliver. In the cache, \<open>disk_rw\<close> stands for a call of
  \<open>virtio_disk_rw\<close> that has returned: it copies one block; the driver's own code is in Virtio. \<open>sys_exit\<close> is \<open>exit\<close> from
  \<open>acquire(&wait_lock)\<close> on, without the files; \<open>exit\<close> in Machine is the whole. Not modelled: the assembly files, the
  control-register accessors, kernel/ramdisk.c (unused) and the programs under user/.
\<close>

end
